theory Spec2Isabelle
  imports Main "HOL-Library.Word" "HOL-Library.Multiset"
begin

unbundle bit_operations_syntax

section \<open>The incrementally rehashing hash table of dict.c\<close>

text \<open>
  This theory embeds the hash table of \<^verbatim>\<open>dict.c\<close> (Redis 2.9.5) and settles the
  properties stated about it.

  Conventions of the embedding.
  \<^item> Machine integers are words of the LP64 data model: \<^verbatim>\<open>unsigned long\<close> is a 64-bit
    word, \<^verbatim>\<open>unsigned int\<close> and \<^verbatim>\<open>int\<close> are 32-bit words; an \<^verbatim>\<open>int\<close> is read with
    \<open>sint\<close> and compared with the signed orders. Unsigned arithmetic wraps. Every
    conversion of the source (\<^verbatim>\<open>int minimal = d->ht[0].used\<close>, \<^verbatim>\<open>(signed) ht->size\<close>,
    \<^verbatim>\<open>(unsigned) d->rehashidx\<close>) is written as the cast it is.
  \<^item> Every function returns an \<open>option\<close>. \<open>None\<close> stands for an execution that
    leaves defined behaviour or aborts: a failed \<^verbatim>\<open>assert\<close>, a read through a NULL
    bucket array, a read outside the allocated bucket array, an overflowing increment
    of an \<^verbatim>\<open>int\<close>. A theorem that says \<open>f x = Some y\<close> therefore says that the call
    returns, and with which result.
  \<^item> A collision chain is the list of its entries from the head; a bucket array is the
    list of its chains; an unallocated bucket array (\<^verbatim>\<open>table == NULL\<close>) is \<open>None\<close>.
  \<^item> The process-wide variable \<^verbatim>\<open>dict_can_resize\<close> is an explicit argument of the functions
    that read it; \<^verbatim>\<open>random()\<close> is an explicit list of the numbers it will return.
\<close>

subsection \<open>Data model\<close>

type_synonym ulong = "64 word"
type_synonym uint = "32 word"
type_synonym cint = "32 word"

text \<open>The return codes \<^verbatim>\<open>DICT_OK\<close> and \<^verbatim>\<open>DICT_ERR\<close>; there is no third code.\<close>

datatype status = DICT_OK | DICT_ERR

text \<open>
  \<^verbatim>\<open>dictEntry\<close>: a key and a value; the \<^verbatim>\<open>next\<close> link is the tail of the chain list.
  The value of an entry that \<^verbatim>\<open>dictAddRaw\<close> has just allocated is not yet set: \<open>None\<close>.
\<close>

record ('k, 'v) dictEntry =
  key :: 'k
  val :: "'v option"

type_synonym ('k, 'v) chain = "('k, 'v) dictEntry list"

text \<open>
  Modelled from the spec: \<^verbatim>\<open>dictType\<close> is declared in \<^verbatim>\<open>dict.h\<close>, which is not among the
  sources. The spec describes it as a fixed bundle of behaviours: a hash function to a
  32-bit integer, an equality comparison, optional duplication and destructors. Keys and
  values are modelled by their contents, so duplication is the identity and destructors
  have no effect on the table; the hash function and the comparison are the two fields.
\<close>

record 'k dictType =
  hashFunction :: "'k \<Rightarrow> uint"
  keyCompare :: "'k \<Rightarrow> 'k \<Rightarrow> bool"

text \<open>\<^verbatim>\<open>dictht\<close>: one generation. The field \<^verbatim>\<open>size\<close> is named \<open>size_ht\<close> here.\<close>

record ('k, 'v) dictht =
  table :: "('k, 'v) chain list option"
  size_ht :: ulong
  sizemask :: ulong
  used :: ulong

text \<open>\<^verbatim>\<open>dict\<close>: \<^verbatim>\<open>ht[0]\<close> is the primary generation, \<^verbatim>\<open>ht[1]\<close> the incoming one.\<close>

record ('k, 'v) dict =
  type :: "'k dictType"
  ht0 :: "('k, 'v) dictht"
  ht1 :: "('k, 'v) dictht"
  rehashidx :: cint
  iterators :: cint

text \<open>
  \<^verbatim>\<open>dictIterator\<close>. The fields \<^verbatim>\<open>table\<close> and \<^verbatim>\<open>index\<close> are named \<open>it_table\<close> and
  \<open>it_index\<close>. The pointers \<^verbatim>\<open>entry\<close> and \<^verbatim>\<open>nextEntry\<close> are the chain suffixes that
  start at the entry pointed to; the empty list is NULL. A suffix is the chain as it
  stood when the iterator read it, where the code follows the live \<^verbatim>\<open>next\<close> pointers:
  the two agree as long as no entry is linked to or unlinked from the table between two
  calls of \<^verbatim>\<open>dictNext\<close> on the same iterator. The properties of iterators proved below
  concern the cursor and the counter of safe iterators, on runs of iterator calls alone.
\<close>

record ('k, 'v) dictIterator =
  it_table :: cint
  it_index :: cint
  safe :: cint
  entry :: "('k, 'v) chain"
  nextEntry :: "('k, 'v) chain"

subsection \<open>Constants and macros of dict.h\<close>

text \<open>
  Modelled from the spec: the macros below are defined in \<^verbatim>\<open>dict.h\<close>, which is not among
  the sources. The minimum size is 4 and the cursor's sentinel is \<open>-1\<close> (the source
  initialises \<^verbatim>\<open>rehashidx\<close> to \<open>-1\<close> in \<^verbatim>\<open>_dictInit\<close>); the total occupied count is the
  sum of the two generations' counts.
\<close>

definition DICT_HT_INITIAL_SIZE :: ulong where
  "DICT_HT_INITIAL_SIZE = 4"

definition LONG_MAX :: ulong where
  "LONG_MAX = 0x7FFFFFFFFFFFFFFF"

definition INT_MAX :: cint where
  "INT_MAX = 0x7FFFFFFF"

definition INT_MIN :: cint where
  "INT_MIN = 0x80000000"

definition dict_force_resize_ratio :: ulong where
  "dict_force_resize_ratio = 5"

definition dictIsRehashing :: "('k, 'v) dict \<Rightarrow> bool" where
  "dictIsRehashing d \<longleftrightarrow> rehashidx d \<noteq> - 1"

definition dictHashKey :: "('k, 'v) dict \<Rightarrow> 'k \<Rightarrow> uint" where
  "dictHashKey d k = hashFunction (type d) k"

definition dictCompareKeys :: "('k, 'v) dict \<Rightarrow> 'k \<Rightarrow> 'k \<Rightarrow> bool" where
  "dictCompareKeys d k1 k2 = keyCompare (type d) k1 k2"

definition dictSize :: "('k, 'v) dict \<Rightarrow> ulong" where
  "dictSize d = used (ht0 d) + used (ht1 d)"

subsection \<open>Reading and writing bucket arrays\<close>

text \<open>
  \<^verbatim>\<open>ht->table[i]\<close> as a read: undefined when the array is NULL or \<open>i\<close> is outside
  the allocated array. The write \<^verbatim>\<open>ht->table[i] = c\<close> always follows a read of the same
  slot in the source, so it needs no check of its own.
\<close>

definition bucket :: "('k, 'v) dictht \<Rightarrow> nat \<Rightarrow> ('k, 'v) chain option" where
  "bucket ht i =
     (case table ht of
        None \<Rightarrow> None
      | Some t \<Rightarrow> if i < length t then Some (t ! i) else None)"

definition set_bucket :: "('k, 'v) dictht \<Rightarrow> nat \<Rightarrow> ('k, 'v) chain \<Rightarrow> ('k, 'v) dictht" where
  "set_bucket ht i c = ht\<lparr>table := map_option (\<lambda>t. t[i := c]) (table ht)\<rparr>"

text \<open>The same read with an \<^verbatim>\<open>int\<close> index: a negative index is outside the array.\<close>

definition bucket_int :: "('k, 'v) dictht \<Rightarrow> cint \<Rightarrow> ('k, 'v) chain option" where
  "bucket_int ht i = (if i <s 0 then None else bucket ht (unat i))"

text \<open>
  Modelled from the spec: \<^verbatim>\<open>zcalloc\<close> belongs to \<^verbatim>\<open>zmalloc.c\<close>, which is not among the
  sources. It returns a zero-filled block of the requested number of bytes; running out
  of memory is fatal there. \<^verbatim>\<open>zcalloc(realsize*sizeof(dictEntry*))\<close> gives an array of as
  many NULL chain heads as the (wrapping) byte count holds pointers of 8 bytes.
\<close>

definition zcalloc_table :: "ulong \<Rightarrow> ('k, 'v) chain list" where
  "zcalloc_table realsize = replicate (unat (realsize * 8) div 8) []"

subsection \<open>Creation\<close>

definition dictReset :: "('k, 'v) dictht" where
  "dictReset = \<lparr>table = None, size_ht = 0, sizemask = 0, used = 0\<rparr>"

definition dictInit :: "'k dictType \<Rightarrow> ('k, 'v) dict" where
  "dictInit ty = \<lparr>type = ty, ht0 = dictReset, ht1 = dictReset, rehashidx = - 1, iterators = 0\<rparr>"

definition dictCreate :: "'k dictType \<Rightarrow> ('k, 'v) dict" where
  "dictCreate ty = dictInit ty"

subsection \<open>Resizing\<close>

text \<open>
  \<^verbatim>\<open>_dictNextPower\<close>: the loop \<^verbatim>\<open>while(1) { if (i >= size) return i; i *= 2; }\<close> has no
  bound of its own, so it is a partial function; that it returns is proved below.
\<close>

partial_function (option) dictNextPower_loop :: "ulong \<Rightarrow> ulong \<Rightarrow> ulong option" where
  "dictNextPower_loop i sz = (if sz \<le> i then Some i else dictNextPower_loop (i * 2) sz)"

definition dictNextPower :: "ulong \<Rightarrow> ulong option" where
  "dictNextPower sz =
     (if LONG_MAX \<le> sz then Some LONG_MAX
      else dictNextPower_loop DICT_HT_INITIAL_SIZE sz)"

definition dictExpand :: "('k, 'v) dict \<Rightarrow> ulong \<Rightarrow> (status \<times> ('k, 'v) dict) option" where
  "dictExpand d sz =
     (if dictIsRehashing d \<or> sz < used (ht0 d) then Some (DICT_ERR, d)
      else case dictNextPower sz of
        None \<Rightarrow> None
      | Some realsize \<Rightarrow>
          (let n = \<lparr>table = Some (zcalloc_table realsize), size_ht = realsize,
                    sizemask = realsize - 1, used = 0\<rparr>
           in if table (ht0 d) = None then Some (DICT_OK, d\<lparr>ht0 := n\<rparr>)
              else Some (DICT_OK, d\<lparr>ht1 := n, rehashidx := 0\<rparr>)))"

text \<open>
  \<^verbatim>\<open>dictResize\<close>: \<^verbatim>\<open>minimal\<close> is an \<^verbatim>\<open>int\<close>, so the occupied count is truncated to 32
  bits and compared as a signed number; the call of \<^verbatim>\<open>dictExpand\<close> converts it back
  with sign extension.
\<close>

definition dictResize :: "bool \<Rightarrow> ('k, 'v) dict \<Rightarrow> (status \<times> ('k, 'v) dict) option" where
  "dictResize dict_can_resize d =
     (if \<not> dict_can_resize \<or> dictIsRehashing d then Some (DICT_ERR, d)
      else
        (let minimal0 = (ucast (used (ht0 d)) :: cint);
             minimal = (if minimal0 <s ucast DICT_HT_INITIAL_SIZE
                        then ucast DICT_HT_INITIAL_SIZE else minimal0)
         in dictExpand d (scast minimal)))"

definition dictExpandIfNeeded :: "bool \<Rightarrow> ('k, 'v) dict \<Rightarrow> (status \<times> ('k, 'v) dict) option" where
  "dictExpandIfNeeded dict_can_resize d =
     (if dictIsRehashing d then Some (DICT_OK, d)
      else if size_ht (ht0 d) = 0 then dictExpand d DICT_HT_INITIAL_SIZE
      else if size_ht (ht0 d) \<le> used (ht0 d) \<and>
              (dict_can_resize \<or>
               dict_force_resize_ratio < used (ht0 d) div size_ht (ht0 d))
      then dictExpand d
             ((if used (ht0 d) < size_ht (ht0 d) then size_ht (ht0 d) else used (ht0 d)) * 2)
      else Some (DICT_OK, d))"

subsection \<open>The incremental rehash engine\<close>

text \<open>
  The inner loop of \<^verbatim>\<open>dictRehash\<close> over one chain: each entry is pushed on the head of
  its target chain in \<^verbatim>\<open>ht[1]\<close>, and the two occupied counts are adjusted.
\<close>

fun rehash_chain :: "('k, 'v) dict \<Rightarrow> ('k, 'v) chain \<Rightarrow> ('k, 'v) dict option" where
  "rehash_chain d [] = Some d"
| "rehash_chain d (de # nextde) =
     (let h = dictHashKey d (key de) AND ucast (sizemask (ht1 d))
      in case bucket (ht1 d) (unat h) of
           None \<Rightarrow> None
         | Some c \<Rightarrow>
             rehash_chain
               (d\<lparr>ht0 := (ht0 d)\<lparr>used := used (ht0 d) - 1\<rparr>,
                  ht1 := (set_bucket (ht1 d) (unat h) (de # c))\<lparr>used := used (ht1 d) + 1\<rparr>\<rparr>)
               nextde)"

text \<open>
  \<^verbatim>\<open>while(d->ht[0].table[d->rehashidx] == NULL) d->rehashidx++;\<close> returns the cursor
  it stops at. It reads outside the array when no chain is left.
\<close>

function skip_empty :: "('k, 'v) dictht \<Rightarrow> cint \<Rightarrow> cint option" where
  "skip_empty ht i =
     (case bucket_int ht i of
        None \<Rightarrow> None
      | Some c \<Rightarrow>
          if c = [] then (if i = INT_MAX then None else skip_empty ht (i + 1))
          else Some i)"
  by pat_completeness auto

lemma sint_succ:
  fixes i :: cint
  assumes "i \<noteq> INT_MAX"
  shows "sint (i + 1) = sint i + 1"
proof -
  have lo: "- (2 ^ 31) \<le> sint i" and hi: "sint i < 2 ^ 31"
    using sint_ge [of i] sint_lt [of i] by simp_all
  have "sint i \<noteq> 2 ^ 31 - 1"
  proof
    assume "sint i = 2 ^ 31 - 1"
    then have "sint i = sint INT_MAX" by (simp add: INT_MAX_def)
    then have "i = INT_MAX" by (simp only: signed_word_eqI)
    with assms show False by simp
  qed
  with lo hi show ?thesis
    by (simp add: sint_word_ariths signed_take_bit_int_eq_self)
qed

lemma not_sless_zero:
  fixes i :: cint
  shows "\<not> i <s 0 \<longleftrightarrow> 0 \<le> sint i"
  by (auto simp: word_sless_alt)

lemma sint_cases:
  fixes i :: cint
  shows "sint i = (if uint i < 2 ^ 31 then uint i else uint i - 2 ^ 32)"
proof -
  have b: "0 \<le> uint i" "uint i < 2 ^ 32"
    using uint_lt2p [of i] by simp_all
  have "sint i = (uint i + 2 ^ 31) mod 2 ^ 32 - 2 ^ 31"
    by (simp add: sint_uint signed_take_bit_eq_take_bit_shift take_bit_eq_mod)
  moreover have "(uint i + 2 ^ 31) mod 2 ^ 32 =
      (if uint i < 2 ^ 31 then uint i + 2 ^ 31 else uint i - 2 ^ 31)"
  proof (cases "uint i < 2 ^ 31")
    case True
    with b show ?thesis by simp
  next
    case False
    define x where "x = uint i - 2 ^ 31"
    have x: "0 \<le> x" "x < 2 ^ 32" using False b by (simp_all add: x_def)
    have "uint i + 2 ^ 31 = x + 2 ^ 32" by (simp add: x_def)
    then have "(uint i + 2 ^ 31) mod 2 ^ 32 = (x + 2 ^ 32) mod 2 ^ 32" by (rule arg_cong)
    also have "\<dots> = x" using x by (simp only: mod_add_self2 mod_pos_pos_trivial)
    finally show ?thesis using False by (simp add: x_def)
  qed
  ultimately show ?thesis by simp
qed

lemma unat_nonneg:
  fixes i :: cint
  assumes "0 \<le> sint i"
  shows "int (unat i) = sint i"
  using assms uint_lt2p [of i] by (simp add: sint_cases split: if_splits)

termination skip_empty
proof (relation "measure (\<lambda>(ht, i). case table ht of None \<Rightarrow> 0 | Some t \<Rightarrow> length t - unat i)")
  show "wf (measure (\<lambda>(ht :: ('k, 'v) dictht, i :: cint).
          case table ht of None \<Rightarrow> 0 | Some t \<Rightarrow> length t - unat i))"
    by simp
next
  fix ht :: "('k, 'v) dictht" and i :: cint and c :: "('k, 'v) chain"
  assume b: "bucket_int ht i = Some c" and "c = []" and ne: "i \<noteq> INT_MAX"
  from b have nn: "0 \<le> sint i"
    by (simp add: bucket_int_def not_sless_zero split: if_splits)
  from b obtain t where t: "table ht = Some t" and lt: "unat i < length t"
    by (auto simp: bucket_int_def bucket_def split: if_splits option.splits)
  have "sint (i + 1) = sint i + 1" using ne by (rule sint_succ)
  moreover from this nn have "0 \<le> sint (i + 1)" by simp
  ultimately have "int (unat (i + 1)) = int (unat i) + 1"
    using nn unat_nonneg [of i] unat_nonneg [of "i + 1"] by linarith
  then have "unat (i + 1) = unat i + 1" by linarith
  with t lt show "((ht, i + 1), (ht, i)) \<in> measure (\<lambda>(ht, i).
          case table ht of None \<Rightarrow> 0 | Some t \<Rightarrow> length t - unat i)"
    by simp
qed

text \<open>
  \<^verbatim>\<open>dictRehash\<close>. The body of \<^verbatim>\<open>while(n--)\<close> is \<open>dictRehash_body\<close>: it either
  completes the rehash (\<open>Inl\<close>, the function returns 0) or migrates one chain and leaves
  the loop running (\<open>Inr\<close>).
\<close>

definition dictRehash_body :: "('k, 'v) dict \<Rightarrow> (('k, 'v) dict + ('k, 'v) dict) option" where
  "dictRehash_body d =
     (if used (ht0 d) = 0
      then Some (Inl (d\<lparr>ht0 := ht1 d, ht1 := dictReset, rehashidx := - 1\<rparr>))
      else if \<not> ucast (rehashidx d) < size_ht (ht0 d) then None
      else case skip_empty (ht0 d) (rehashidx d) of
        None \<Rightarrow> None
      | Some i \<Rightarrow>
          (case bucket_int (ht0 d) i of
             None \<Rightarrow> None
           | Some de \<Rightarrow>
               (case rehash_chain (d\<lparr>rehashidx := i\<rparr>) de of
                  None \<Rightarrow> None
                | Some d' \<Rightarrow>
                    if i = INT_MAX then None
                    else Some (Inr (d'\<lparr>ht0 := set_bucket (ht0 d') (unat i) [],
                                      rehashidx := i + 1\<rparr>)))))"

function dictRehash_loop :: "('k, 'v) dict \<Rightarrow> cint \<Rightarrow> (cint \<times> ('k, 'v) dict) option" where
  "dictRehash_loop d n =
     (if n = 0 then Some (1, d)
      else case dictRehash_body d of
        None \<Rightarrow> None
      | Some (Inl d') \<Rightarrow> Some (0, d')
      | Some (Inr d') \<Rightarrow> dictRehash_loop d' (n - 1))"
  by pat_completeness auto
termination
  by (relation "measure (\<lambda>(d, n). unat n)") (auto simp: unat_minus_one unat_gt_0)

definition dictRehash :: "('k, 'v) dict \<Rightarrow> cint \<Rightarrow> (cint \<times> ('k, 'v) dict) option" where
  "dictRehash d n = (if \<not> dictIsRehashing d then Some (0, d) else dictRehash_loop d n)"

definition dictRehashStep :: "('k, 'v) dict \<Rightarrow> ('k, 'v) dict option" where
  "dictRehashStep d =
     (if iterators d = 0 then map_option snd (dictRehash d 1) else Some d)"

subsection \<open>Insertion, lookup and deletion\<close>

text \<open>The chain walk \<^verbatim>\<open>while(he) { if (dictCompareKeys(d, key, he->key)) ...; he = he->next; }\<close>.\<close>

fun chain_lookup :: "('k, 'v) dict \<Rightarrow> 'k \<Rightarrow> ('k, 'v) chain \<Rightarrow> ('k, 'v) dictEntry option" where
  "chain_lookup d k [] = None"
| "chain_lookup d k (he # nxt) =
     (if dictCompareKeys d k (key he) then Some he else chain_lookup d k nxt)"

text \<open>
  The same walk in \<^verbatim>\<open>dictGenericDelete\<close>, which unlinks the first match: the result is
  the chain without it, or \<open>None\<close> when no entry matches.
\<close>

fun chain_unlink :: "('k, 'v) dict \<Rightarrow> 'k \<Rightarrow> ('k, 'v) chain \<Rightarrow> ('k, 'v) chain option" where
  "chain_unlink d k [] = None"
| "chain_unlink d k (he # nxt) =
     (if dictCompareKeys d k (key he) then Some nxt
      else map_option ((#) he) (chain_unlink d k nxt))"

text \<open>
  \<^verbatim>\<open>_dictKeyIndex\<close> returns an \<^verbatim>\<open>int\<close>: \<open>-1\<close>, or the \<^verbatim>\<open>unsigned int idx\<close> of the last
  table searched, converted to \<^verbatim>\<open>int\<close>.
\<close>

definition dictKeyIndex :: "bool \<Rightarrow> ('k, 'v) dict \<Rightarrow> 'k \<Rightarrow> (cint \<times> ('k, 'v) dict) option" where
  "dictKeyIndex dict_can_resize d k =
     (case dictExpandIfNeeded dict_can_resize d of
        None \<Rightarrow> None
      | Some (DICT_ERR, d') \<Rightarrow> Some (- 1, d')
      | Some (DICT_OK, d') \<Rightarrow>
          (let h = dictHashKey d' k;
               idx0 = h AND ucast (sizemask (ht0 d'))
           in case bucket (ht0 d') (unat idx0) of
                None \<Rightarrow> None
              | Some he0 \<Rightarrow>
                  if chain_lookup d' k he0 \<noteq> None then Some (- 1, d')
                  else if \<not> dictIsRehashing d' then Some (idx0, d')
                  else
                    (let idx1 = h AND ucast (sizemask (ht1 d'))
                     in case bucket (ht1 d') (unat idx1) of
                          None \<Rightarrow> None
                        | Some he1 \<Rightarrow>
                            if chain_lookup d' k he1 \<noteq> None then Some (- 1, d')
                            else Some (idx1, d'))))"

text \<open>
  A pointer to an entry that has just been linked is the pair of the generation's number
  and the slot: the entry is the head of that chain.
\<close>

type_synonym entry_ref = "nat \<times> nat"

definition dictAddRaw ::
  "bool \<Rightarrow> ('k, 'v) dict \<Rightarrow> 'k \<Rightarrow> (entry_ref option \<times> ('k, 'v) dict) option" where
  "dictAddRaw dict_can_resize d k =
     (case (if dictIsRehashing d then dictRehashStep d else Some d) of
        None \<Rightarrow> None
      | Some d1 \<Rightarrow>
          (case dictKeyIndex dict_can_resize d1 k of
             None \<Rightarrow> None
           | Some (index, d2) \<Rightarrow>
               if index = - 1 then Some (None, d2)
               else if dictIsRehashing d2 then
                 (case bucket_int (ht1 d2) index of
                    None \<Rightarrow> None
                  | Some c \<Rightarrow>
                      Some (Some (1, unat index),
                        d2\<lparr>ht1 := (set_bucket (ht1 d2) (unat index)
                                      (\<lparr>key = k, val = None\<rparr> # c))
                                   \<lparr>used := used (ht1 d2) + 1\<rparr>\<rparr>))
               else
                 (case bucket_int (ht0 d2) index of
                    None \<Rightarrow> None
                  | Some c \<Rightarrow>
                      Some (Some (0, unat index),
                        d2\<lparr>ht0 := (set_bucket (ht0 d2) (unat index)
                                      (\<lparr>key = k, val = None\<rparr> # c))
                                   \<lparr>used := used (ht0 d2) + 1\<rparr>\<rparr>))))"

text \<open>
  Modelled from the spec: the macro \<^verbatim>\<open>dictSetVal\<close> is defined in \<^verbatim>\<open>dict.h\<close>, which is not
  among the sources; \<^verbatim>\<open>add\<close> is \<^verbatim>\<open>addRaw\<close> plus value assignment. It stores the value in
  the entry the pointer refers to.
\<close>

definition dictSetVal :: "('k, 'v) dict \<Rightarrow> entry_ref \<Rightarrow> 'v \<Rightarrow> ('k, 'v) dict option" where
  "dictSetVal d e v =
     (case bucket (if fst e = 0 then ht0 d else ht1 d) (snd e) of
        Some (he # nxt) \<Rightarrow>
          Some (if fst e = 0
                then d\<lparr>ht0 := set_bucket (ht0 d) (snd e) (he\<lparr>val := Some v\<rparr> # nxt)\<rparr>
                else d\<lparr>ht1 := set_bucket (ht1 d) (snd e) (he\<lparr>val := Some v\<rparr> # nxt)\<rparr>)
      | _ \<Rightarrow> None)"

definition dictAdd ::
  "bool \<Rightarrow> ('k, 'v) dict \<Rightarrow> 'k \<Rightarrow> 'v \<Rightarrow> (status \<times> ('k, 'v) dict) option" where
  "dictAdd dict_can_resize d k v =
     (case dictAddRaw dict_can_resize d k of
        None \<Rightarrow> None
      | Some (None, d') \<Rightarrow> Some (DICT_ERR, d')
      | Some (Some e, d') \<Rightarrow> map_option (Pair DICT_OK) (dictSetVal d' e v))"

text \<open>
  \<^verbatim>\<open>dictGenericDelete\<close>. The flag \<^verbatim>\<open>nofree\<close> only decides whether the key and the value
  of the unlinked entry are released; it has no effect on the table.
\<close>

definition dictGenericDelete ::
  "('k, 'v) dict \<Rightarrow> 'k \<Rightarrow> bool \<Rightarrow> (status \<times> ('k, 'v) dict) option" where
  "dictGenericDelete d k nofree =
     (if size_ht (ht0 d) = 0 then Some (DICT_ERR, d)
      else case (if dictIsRehashing d then dictRehashStep d else Some d) of
        None \<Rightarrow> None
      | Some d1 \<Rightarrow>
          (let h = dictHashKey d1 k;
               idx0 = h AND ucast (sizemask (ht0 d1))
           in case bucket (ht0 d1) (unat idx0) of
                None \<Rightarrow> None
              | Some he0 \<Rightarrow>
                  (case chain_unlink d1 k he0 of
                     Some c \<Rightarrow>
                       Some (DICT_OK,
                         d1\<lparr>ht0 := (set_bucket (ht0 d1) (unat idx0) c)
                                    \<lparr>used := used (ht0 d1) - 1\<rparr>\<rparr>)
                   | None \<Rightarrow>
                       if \<not> dictIsRehashing d1 then Some (DICT_ERR, d1)
                       else
                         (let idx1 = h AND ucast (sizemask (ht1 d1))
                          in case bucket (ht1 d1) (unat idx1) of
                               None \<Rightarrow> None
                             | Some he1 \<Rightarrow>
                                 (case chain_unlink d1 k he1 of
                                    Some c \<Rightarrow>
                                      Some (DICT_OK,
                                        d1\<lparr>ht1 := (set_bucket (ht1 d1) (unat idx1) c)
                                                   \<lparr>used := used (ht1 d1) - 1\<rparr>\<rparr>)
                                  | None \<Rightarrow> Some (DICT_ERR, d1))))))"

definition dictDelete :: "('k, 'v) dict \<Rightarrow> 'k \<Rightarrow> (status \<times> ('k, 'v) dict) option" where
  "dictDelete d k = dictGenericDelete d k False"

definition dictDeleteNoFree :: "('k, 'v) dict \<Rightarrow> 'k \<Rightarrow> (status \<times> ('k, 'v) dict) option" where
  "dictDeleteNoFree d k = dictGenericDelete d k True"

text \<open>\<^verbatim>\<open>dictFind\<close> returns the entry found (NULL is \<open>None\<close>) and the table after the call.\<close>

definition dictFind ::
  "('k, 'v) dict \<Rightarrow> 'k \<Rightarrow> (('k, 'v) dictEntry option \<times> ('k, 'v) dict) option" where
  "dictFind d k =
     (if size_ht (ht0 d) = 0 then Some (None, d)
      else case (if dictIsRehashing d then dictRehashStep d else Some d) of
        None \<Rightarrow> None
      | Some d1 \<Rightarrow>
          (let h = dictHashKey d1 k;
               idx0 = h AND ucast (sizemask (ht0 d1))
           in case bucket (ht0 d1) (unat idx0) of
                None \<Rightarrow> None
              | Some he0 \<Rightarrow>
                  (case chain_lookup d1 k he0 of
                     Some he \<Rightarrow> Some (Some he, d1)
                   | None \<Rightarrow>
                       if \<not> dictIsRehashing d1 then Some (None, d1)
                       else
                         (let idx1 = h AND ucast (sizemask (ht1 d1))
                          in case bucket (ht1 d1) (unat idx1) of
                               None \<Rightarrow> None
                             | Some he1 \<Rightarrow> Some (chain_lookup d1 k he1, d1)))))"

definition dictFetchValue :: "('k, 'v) dict \<Rightarrow> 'k \<Rightarrow> ('v option \<times> ('k, 'v) dict) option" where
  "dictFetchValue d k =
     (case dictFind d k of
        None \<Rightarrow> None
      | Some (None, d') \<Rightarrow> Some (None, d')
      | Some (Some he, d') \<Rightarrow> Some (val he, d'))"

subsection \<open>Clearing\<close>

text \<open>The inner loop of \<^verbatim>\<open>_dictClear\<close> releases one chain, counting \<^verbatim>\<open>used\<close> down.\<close>

fun dictClear_chain :: "('k, 'v) dictht \<Rightarrow> ('k, 'v) chain \<Rightarrow> ('k, 'v) dictht" where
  "dictClear_chain ht [] = ht"
| "dictClear_chain ht (he # nextHe) = dictClear_chain (ht\<lparr>used := used ht - 1\<rparr>) nextHe"

function dictClear_loop :: "('k, 'v) dictht \<Rightarrow> ulong \<Rightarrow> ('k, 'v) dictht option" where
  "dictClear_loop ht i =
     (if i < size_ht ht \<and> 0 < used ht then
        (case bucket ht (unat i) of
           None \<Rightarrow> None
         | Some he \<Rightarrow> dictClear_loop (dictClear_chain ht he) (i + 1))
      else Some ht)"
  by pat_completeness auto

lemma dictClear_chain_size: "size_ht (dictClear_chain ht c) = size_ht ht"
  by (induction c arbitrary: ht) simp_all

lemma unat_succ_less:
  fixes i n :: ulong
  assumes "i < n"
  shows "unat (i + 1) = unat i + 1"
proof -
  have "unat i < unat n" using assms by (simp add: word_less_nat_alt)
  moreover have "unat n < 2 ^ 64" using unsigned_less [of n] by simp
  ultimately have "unat i + 1 < 2 ^ 64" by simp
  then show ?thesis by (simp add: unat_word_ariths)
qed

termination dictClear_loop
proof (relation "measure (\<lambda>(ht, i). unat (size_ht ht) - unat i)")
  show "wf (measure (\<lambda>(ht :: ('k, 'v) dictht, i :: ulong). unat (size_ht ht) - unat i))"
    by simp
next
  fix ht :: "('k, 'v) dictht" and i :: ulong and he :: "('k, 'v) chain"
  assume "i < size_ht ht \<and> 0 < used ht"
  then have lt: "i < size_ht ht" by simp
  then have "unat i < unat (size_ht ht)" by (simp add: word_less_nat_alt)
  with unat_succ_less [OF lt]
  show "((dictClear_chain ht he, i + 1), (ht, i)) \<in>
          measure (\<lambda>(ht, i). unat (size_ht ht) - unat i)"
    by (simp add: dictClear_chain_size)
qed

definition dictClear :: "('k, 'v) dictht \<Rightarrow> ('k, 'v) dictht option" where
  "dictClear ht = (case dictClear_loop ht 0 of None \<Rightarrow> None | Some ht' \<Rightarrow> Some dictReset)"

definition dictEmpty :: "('k, 'v) dict \<Rightarrow> ('k, 'v) dict option" where
  "dictEmpty d =
     (case dictClear (ht0 d) of
        None \<Rightarrow> None
      | Some h0 \<Rightarrow>
          (case dictClear (ht1 d) of
             None \<Rightarrow> None
           | Some h1 \<Rightarrow> Some (d\<lparr>ht0 := h0, ht1 := h1, rehashidx := - 1, iterators := 0\<rparr>)))"

subsection \<open>Iterators\<close>

text \<open>
  An iterator keeps a pointer to its table; here the table is passed to every call and
  returned by it.
\<close>

definition dictGetIterator :: "('k, 'v) dictIterator" where
  "dictGetIterator = \<lparr>it_table = 0, it_index = - 1, safe = 0, entry = [], nextEntry = []\<rparr>"

definition dictGetSafeIterator :: "('k, 'v) dictIterator" where
  "dictGetSafeIterator = dictGetIterator\<lparr>safe := 1\<rparr>"

text \<open>
  One pass through the first statement of the loop of \<^verbatim>\<open>dictNext\<close>: \<open>Inl\<close> when the
  loop is left by \<^verbatim>\<open>break\<close>, \<open>Inr\<close> when control reaches \<^verbatim>\<open>if (iter->entry)\<close>.
\<close>

definition dictNext_step ::
  "('k, 'v) dict \<Rightarrow> ('k, 'v) dictIterator \<Rightarrow>
     (('k, 'v) dict \<times> ('k, 'v) dictIterator + ('k, 'v) dict \<times> ('k, 'v) dictIterator) option" where
  "dictNext_step d iter =
     (if entry iter = [] then
        (if it_table iter \<noteq> 0 \<and> it_table iter \<noteq> 1 then None
         else
           (let ht = (if it_table iter = 0 then ht0 d else ht1 d);
                first = (safe iter \<noteq> 0 \<and> it_index iter = - 1 \<and> it_table iter = 0)
            in if first \<and> iterators d = INT_MAX then None
               else
                 (let d1 = (if first then d\<lparr>iterators := iterators d + 1\<rparr> else d)
                  in if it_index iter = INT_MAX then None
                     else
                       (let iter1 = iter\<lparr>it_index := it_index iter + 1\<rparr>
                        in if ucast (size_ht ht) \<le>s it_index iter1 then
                             (if dictIsRehashing d1 \<and> it_table iter1 = 0 then
                                (case bucket_int (ht1 d1) 0 of
                                   None \<Rightarrow> None
                                 | Some c \<Rightarrow>
                                     Some (Inr (d1, iter1\<lparr>it_table := 1, it_index := 0,
                                                          entry := c\<rparr>)))
                              else Some (Inl (d1, iter1)))
                           else
                             (case bucket_int ht (it_index iter1) of
                                None \<Rightarrow> None
                              | Some c \<Rightarrow> Some (Inr (d1, iter1\<lparr>entry := c\<rparr>)))))))
      else Some (Inr (d, iter\<lparr>entry := nextEntry iter\<rparr>)))"

function dictNext ::
  "('k, 'v) dict \<Rightarrow> ('k, 'v) dictIterator \<Rightarrow>
     (('k, 'v) dictEntry option \<times> ('k, 'v) dict \<times> ('k, 'v) dictIterator) option" where
  "dictNext d iter =
     (case dictNext_step d iter of
        None \<Rightarrow> None
      | Some (Inl (d', iter')) \<Rightarrow> Some (None, d', iter')
      | Some (Inr (d', iter')) \<Rightarrow>
          (case entry iter' of
             he # nxt \<Rightarrow> Some (Some he, d', iter'\<lparr>nextEntry := nxt\<rparr>)
           | [] \<Rightarrow> dictNext d' iter'))"
  by pat_completeness auto

definition dictNext_measure :: "('k, 'v) dict \<times> ('k, 'v) dictIterator \<Rightarrow> nat" where
  "dictNext_measure = (\<lambda>(d, iter).
     2 * (if it_table iter = 0
          then nat (sint (ucast (size_ht (ht0 d)) :: cint) - sint (it_index iter))
               + nat (sint (ucast (size_ht (ht1 d)) :: cint)) + 1
          else nat (sint (ucast (size_ht (ht1 d)) :: cint) - sint (it_index iter)))
     + (if entry iter = [] then 0 else 1))"

lemma dictNext_step_decreases:
  assumes "dictNext_step d iter = Some (Inr (d', iter'))" "entry iter' = []"
  shows "dictNext_measure (d', iter') < dictNext_measure (d, iter)"
proof (cases "entry iter = []")
  case False
  with assms show ?thesis
    by (auto simp: dictNext_step_def dictNext_measure_def)
next
  case True
  from assms True have ne: "it_index iter \<noteq> INT_MAX"
    by (auto simp: dictNext_step_def Let_def split: if_splits)
  have s: "sint (it_index iter + 1) = sint (it_index iter) + 1"
    by (rule sint_succ [OF ne])
  from assms True show ?thesis
    by (auto simp: dictNext_step_def dictNext_measure_def Let_def s word_sle_eq
             split: if_splits option.splits)
qed

termination dictNext
proof (relation "measure dictNext_measure")
  show "wf (measure (dictNext_measure :: ('k, 'v) dict \<times> ('k, 'v) dictIterator \<Rightarrow> nat))"
    by simp
next
  fix d :: "('k, 'v) dict" and iter :: "('k, 'v) dictIterator" and x2 x2a xa y
  assume "dictNext_step d iter = Some x2" "x2 = Inr x2a" "(xa, y) = x2a" "entry y = []"
  then show "((xa, y), (d, iter)) \<in> measure dictNext_measure"
    using dictNext_step_decreases [of d iter xa y] by simp
qed

definition dictReleaseIterator ::
  "('k, 'v) dict \<Rightarrow> ('k, 'v) dictIterator \<Rightarrow> ('k, 'v) dict option" where
  "dictReleaseIterator d iter =
     (if safe iter \<noteq> 0 \<and> \<not> (it_index iter = - 1 \<and> it_table iter = 0) then
        (if iterators d = INT_MIN then None
         else Some (d\<lparr>iterators := iterators d - 1\<rparr>))
      else Some d)"

subsection \<open>Random sampling\<close>

text \<open>
  The two rejection loops of \<^verbatim>\<open>dictGetRandomKey\<close>. Each consumes numbers from the list of
  values that \<^verbatim>\<open>random()\<close> will return (they are not negative, and are given as
  \<^verbatim>\<open>unsigned long\<close>, the type the first loop converts them to) until it hits a
  slot that is not empty; when the list runs out the loop has not ended, and the result
  is \<open>None\<close>. The results are the chain found and the numbers left.
\<close>

fun random_slot_rehashing ::
  "('k, 'v) dict \<Rightarrow> ulong list \<Rightarrow> (('k, 'v) chain \<times> ulong list) option" where
  "random_slot_rehashing d [] = None"
| "random_slot_rehashing d (r # rs) =
     (if size_ht (ht0 d) + size_ht (ht1 d) = 0 then None
      else
        (let h = (ucast (r mod (size_ht (ht0 d) + size_ht (ht1 d))) :: uint)
         in case (if size_ht (ht0 d) \<le> ucast h
                  then bucket (ht1 d) (unat (ucast h - size_ht (ht0 d)))
                  else bucket (ht0 d) (unat h)) of
              None \<Rightarrow> None
            | Some he \<Rightarrow> if he = [] then random_slot_rehashing d rs else Some (he, rs)))"

fun random_slot_stable ::
  "('k, 'v) dict \<Rightarrow> ulong list \<Rightarrow> (('k, 'v) chain \<times> ulong list) option" where
  "random_slot_stable d [] = None"
| "random_slot_stable d (r # rs) =
     (let h = (ucast (r AND sizemask (ht0 d)) :: uint)
      in case bucket (ht0 d) (unat h) of
           None \<Rightarrow> None
         | Some he \<Rightarrow> if he = [] then random_slot_stable d rs else Some (he, rs))"

text \<open>
  \<^verbatim>\<open>while(he) { he = he->next; listlen++; }\<close> with the \<^verbatim>\<open>int\<close> counter \<^verbatim>\<open>listlen\<close>.
\<close>

fun chain_length :: "('k, 'v) chain \<Rightarrow> cint \<Rightarrow> cint option" where
  "chain_length [] listlen = Some listlen"
| "chain_length (he # nxt) listlen =
     (if listlen = INT_MAX then None else chain_length nxt (listlen + 1))"

definition dictGetRandomKey ::
  "('k, 'v) dict \<Rightarrow> ulong list \<Rightarrow>
     (('k, 'v) dictEntry option \<times> ('k, 'v) dict \<times> ulong list) option" where
  "dictGetRandomKey d rs =
     (if dictSize d = 0 then Some (None, d, rs)
      else case (if dictIsRehashing d then dictRehashStep d else Some d) of
        None \<Rightarrow> None
      | Some d1 \<Rightarrow>
          (case (if dictIsRehashing d1 then random_slot_rehashing d1 rs
                 else random_slot_stable d1 rs) of
             None \<Rightarrow> None
           | Some (orighe, rs1) \<Rightarrow>
               (case chain_length orighe 0 of
                  None \<Rightarrow> None
                | Some listlen \<Rightarrow>
                    (case rs1 of
                       [] \<Rightarrow> None
                     | r # rs2 \<Rightarrow>
                         (let listele = (ucast (r mod scast listlen) :: cint)
                          in Some (Some (orighe ! unat listele), d1, rs2))))))"

section \<open>Representation invariant\<close>

text \<open>
  The entries of one generation, the slot a key belongs to in a generation, and the
  invariants of the data model: a generation is either unallocated and zeroed, or its
  array has the length recorded in \<open>size_ht\<close>, a power of two between 4 and \<open>2 ^ 30\<close>
  (so that every slot index and the cursor are non-negative values of \<^verbatim>\<open>int\<close>), the mask
  is the length minus one, \<open>used\<close> counts the entries, and every entry sits in the slot
  its hash selects.
\<close>

definition entries :: "('k, 'v) dictht \<Rightarrow> ('k, 'v) chain" where
  "entries ht = (case table ht of None \<Rightarrow> [] | Some t \<Rightarrow> concat t)"

definition slot_of :: "'k dictType \<Rightarrow> ('k, 'v) dictht \<Rightarrow> 'k \<Rightarrow> nat" where
  "slot_of ty ht k = unat (hashFunction ty k AND ucast (sizemask ht))"

definition ht_wf :: "'k dictType \<Rightarrow> ('k, 'v) dictht \<Rightarrow> bool" where
  "ht_wf ty ht \<longleftrightarrow>
     (case table ht of
        None \<Rightarrow> size_ht ht = 0 \<and> sizemask ht = 0 \<and> used ht = 0
      | Some t \<Rightarrow>
          (\<exists>n \<in> {2..30}. size_ht ht = 2 ^ n) \<and>
          length t = unat (size_ht ht) \<and>
          sizemask ht = size_ht ht - 1 \<and>
          unat (used ht) = length (concat t) \<and>
          (\<forall>i < length t. \<forall>e \<in> set (t ! i). slot_of ty ht (key e) = i))"

text \<open>
  The cursor invariant: while rehashing, every slot of the primary array below the
  cursor is empty.
\<close>

definition cursor_inv :: "('k, 'v) dict \<Rightarrow> bool" where
  "cursor_inv d \<longleftrightarrow>
     (dictIsRehashing d \<longrightarrow>
        (case table (ht0 d) of
           None \<Rightarrow> True
         | Some t \<Rightarrow> \<forall>c \<in> set (take (nat (sint (rehashidx d))) t). c = []))"

text \<open>No two entries have keys that compare equal.\<close>

definition keys_unique :: "'k dictType \<Rightarrow> ('k, 'v) chain \<Rightarrow> bool" where
  "keys_unique ty es \<longleftrightarrow>
     (\<forall>e \<in> set es. length (filter (\<lambda>e'. keyCompare ty (key e) (key e')) es) = 1)"

text \<open>
  The contract of a type descriptor: the comparison is an equivalence relation and keys
  that compare equal have the same hash.
\<close>

definition type_ok :: "'k dictType \<Rightarrow> bool" where
  "type_ok ty \<longleftrightarrow>
     (\<forall>k. keyCompare ty k k) \<and>
     (\<forall>k k'. keyCompare ty k k' \<longrightarrow> keyCompare ty k' k) \<and>
     (\<forall>k k' k''. keyCompare ty k k' \<and> keyCompare ty k' k'' \<longrightarrow> keyCompare ty k k'') \<and>
     (\<forall>k k'. keyCompare ty k k' \<longrightarrow> hashFunction ty k = hashFunction ty k')"

text \<open>
  The largest number of entries considered: \<open>2 ^ 29\<close>, so that doubling on growth stays
  within \<open>2 ^ 30\<close> slots.
\<close>

definition max_entries :: ulong where
  "max_entries = 0x20000000"

definition dict_wf :: "('k, 'v) dict \<Rightarrow> bool" where
  "dict_wf d \<longleftrightarrow>
     ht_wf (type d) (ht0 d) \<and> ht_wf (type d) (ht1 d) \<and>
     (if dictIsRehashing d
      then table (ht0 d) \<noteq> None \<and> table (ht1 d) \<noteq> None \<and>
           0 \<le> sint (rehashidx d) \<and> sint (rehashidx d) \<le> int (unat (size_ht (ht0 d))) \<and>
           cursor_inv d
      else ht1 d = dictReset) \<and>
     keys_unique (type d) (entries (ht0 d) @ entries (ht1 d)) \<and>
     used (ht0 d) \<le> max_entries \<and> used (ht1 d) \<le> max_entries - used (ht0 d)"

text \<open>A key is present in a generation when one of its entries compares equal to it.\<close>

definition key_in :: "('k, 'v) dict \<Rightarrow> 'k \<Rightarrow> ('k, 'v) dictht \<Rightarrow> bool" where
  "key_in d k ht \<longleftrightarrow> (\<exists>e \<in> set (entries ht). dictCompareKeys d k (key e))"

text \<open>
  The entries of a table, both generations together, with their multiplicities; and the
  presence of a key in either generation.
\<close>

definition contents :: "('k, 'v) dict \<Rightarrow> ('k, 'v) dictEntry multiset" where
  "contents d = mset (entries (ht0 d)) + mset (entries (ht1 d))"

definition key_present :: "('k, 'v) dict \<Rightarrow> 'k \<Rightarrow> bool" where
  "key_present d k \<longleftrightarrow> key_in d k (ht0 d) \<or> key_in d k (ht1 d)"

text \<open>A generation freshly allocated with \<open>2 ^ n\<close> empty slots.\<close>

definition fresh_ht :: "nat \<Rightarrow> ('k, 'v) dictht" where
  "fresh_ht n =
     \<lparr>table = Some (replicate (2 ^ n) []), size_ht = 2 ^ n, sizemask = 2 ^ n - 1, used = 0\<rparr>"

text \<open>
  One call \<^verbatim>\<open>dictRehash(d, 1)\<close> that migrates a chain: the table is well formed and
  rehashing, its primary generation is not empty, and the call returns 1.
\<close>

definition drain_step :: "('k, 'v) dict \<Rightarrow> ('k, 'v) dict \<Rightarrow> bool" where
  "drain_step a b \<longleftrightarrow>
     dict_wf a \<and> dictIsRehashing a \<and> used (ht0 a) \<noteq> 0 \<and> dictRehash a 1 = Some (1, b)"

section \<open>Sequences of iterator operations\<close>

text \<open>
  The live iterators of a table are kept in a list, in the order of their creation; a
  released iterator leaves \<open>None\<close> at its place. Advancing or releasing an iterator that
  has been released is undefined.
\<close>

datatype it_op = GetIterator | GetSafeIterator | Next nat | Release nat

fun exec_it ::
  "('k, 'v) dict \<times> ('k, 'v) dictIterator option list \<Rightarrow> it_op \<Rightarrow>
     (('k, 'v) dict \<times> ('k, 'v) dictIterator option list) option" where
  "exec_it (d, its) GetIterator = Some (d, its @ [Some dictGetIterator])"
| "exec_it (d, its) GetSafeIterator = Some (d, its @ [Some dictGetSafeIterator])"
| "exec_it (d, its) (Next i) =
     (if i < length its then
        (case its ! i of
           None \<Rightarrow> None
         | Some iter \<Rightarrow>
             (case dictNext d iter of
                None \<Rightarrow> None
              | Some (e, d', iter') \<Rightarrow> Some (d', its[i := Some iter'])))
      else None)"
| "exec_it (d, its) (Release i) =
     (if i < length its then
        (case its ! i of
           None \<Rightarrow> None
         | Some iter \<Rightarrow>
             (case dictReleaseIterator d iter of
                None \<Rightarrow> None
              | Some d' \<Rightarrow> Some (d', its[i := None])))
      else None)"

fun run_it ::
  "('k, 'v) dict \<times> ('k, 'v) dictIterator option list \<Rightarrow> it_op list \<Rightarrow>
     (('k, 'v) dict \<times> ('k, 'v) dictIterator option list) option" where
  "run_it s [] = Some s"
| "run_it s (x # xs) = (case exec_it s x of None \<Rightarrow> None | Some s' \<Rightarrow> run_it s' xs)"

text \<open>
  An iterator is fresh when it has never been advanced: \<^verbatim>\<open>index == -1 && table == 0\<close>, the
  test of \<^verbatim>\<open>dictNext\<close> and of \<^verbatim>\<open>dictReleaseIterator\<close>. The iterators reached from
  \<^verbatim>\<open>dictGetIterator\<close> by calls of \<^verbatim>\<open>dictNext\<close> satisfy \<open>it_ok\<close>: the index is at least
  \<open>-1\<close>, and a fresh iterator stands on table 0 and has no current entry. An iterator
  holds a claim on the table when it is safe and not fresh.
\<close>

definition it_fresh :: "('k, 'v) dictIterator \<Rightarrow> bool" where
  "it_fresh iter \<longleftrightarrow> it_index iter = - 1 \<and> it_table iter = 0"

definition it_ok :: "('k, 'v) dictIterator \<Rightarrow> bool" where
  "it_ok iter \<longleftrightarrow>
     - 1 \<le> sint (it_index iter) \<and> (it_index iter = - 1 \<longrightarrow> it_table iter = 0 \<and> entry iter = [])"

definition holds_claim :: "('k, 'v) dictIterator option \<Rightarrow> cint" where
  "holds_claim x =
     (case x of None \<Rightarrow> 0 | Some iter \<Rightarrow> if safe iter \<noteq> 0 \<and> \<not> it_fresh iter then 1 else 0)"

text \<open>
  The invariant of iterator sequences: the counter is its initial value \<open>c\<close> plus the
  number of claims held.
\<close>

definition it_inv ::
  "cint \<Rightarrow> ('k, 'v) dict \<times> ('k, 'v) dictIterator option list \<Rightarrow> bool" where
  "it_inv c s \<longleftrightarrow>
     iterators (fst s) = c + sum_list (map holds_claim (snd s)) \<and>
     (\<forall>iter. Some iter \<in> set (snd s) \<longrightarrow> it_ok iter)"

section \<open>Sequences of table operations\<close>

text \<open>
  The operations a caller interleaves with a scan. An operation moves no entry between
  the generations when each generation holds, afterwards, only entries it held before
  and the entry the operation itself linked, counted with multiplicity: nothing that
  left one array has appeared in the other.
\<close>

datatype ('k, 'v) dict_op = Add 'k 'v | Find 'k | Delete 'k

fun exec_op :: "bool \<Rightarrow> ('k, 'v) dict \<Rightarrow> ('k, 'v) dict_op \<Rightarrow> ('k, 'v) dict option" where
  "exec_op can_resize d (Add k v) = map_option snd (dictAdd can_resize d k v)"
| "exec_op can_resize d (Find k) = map_option snd (dictFind d k)"
| "exec_op can_resize d (Delete k) = map_option snd (dictDelete d k)"

fun added_by :: "('k, 'v) dict_op \<Rightarrow> ('k, 'v) dictEntry multiset" where
  "added_by (Add k v) = {#\<lparr>key = k, val = Some v\<rparr>#}"
| "added_by (Find k) = {#}"
| "added_by (Delete k) = {#}"

definition no_move :: "('k, 'v) dict_op \<Rightarrow> ('k, 'v) dict \<Rightarrow> ('k, 'v) dict \<Rightarrow> bool" where
  "no_move x d d' \<longleftrightarrow>
     mset (entries (ht0 d')) \<subseteq># mset (entries (ht0 d)) + added_by x \<and>
     mset (entries (ht1 d')) \<subseteq># mset (entries (ht1 d)) + added_by x \<and>
     mset (entries (ht0 d')) + mset (entries (ht1 d'))
       \<subseteq># mset (entries (ht0 d)) + mset (entries (ht1 d)) + added_by x"

fun steps_ok :: "bool \<Rightarrow> ('k, 'v) dict \<Rightarrow> ('k, 'v) dict_op list \<Rightarrow> bool" where
  "steps_ok can_resize d [] = True"
| "steps_ok can_resize d (x # xs) =
     (case exec_op can_resize d x of
        None \<Rightarrow> True
      | Some d' \<Rightarrow> no_move x d d' \<and> iterators d' = iterators d \<and> steps_ok can_resize d' xs)"

section \<open>Example tables\<close>

text \<open>
  A type descriptor for keys that are natural numbers, hashed by conversion to
  \<^verbatim>\<open>unsigned int\<close> (as \<^verbatim>\<open>dictIdentityHashFunction\<close> does) and compared by equality.
\<close>

definition nat_type :: "nat dictType" where
  "nat_type = \<lparr>hashFunction = of_nat, keyCompare = (=)\<rparr>"

text \<open>A stable table of four slots holding the keys 4, 8, 1 and 7.\<close>

definition ex_stable :: "(nat, nat) dict" where
  "ex_stable =
     \<lparr>type = nat_type,
      ht0 = \<lparr>table = Some [[\<lparr>key = 4, val = Some 40\<rparr>, \<lparr>key = 8, val = Some 80\<rparr>],
                            [\<lparr>key = 1, val = Some 10\<rparr>], [],
                            [\<lparr>key = 7, val = Some 70\<rparr>]],
             size_ht = 4, sizemask = 3, used = 4\<rparr>,
      ht1 = dictReset, rehashidx = - 1, iterators = 0\<rparr>"

text \<open>
  The same table while it is rehashed to eight slots: slot 0 has been migrated, the
  cursor stands at 1.
\<close>

definition ex_rehashing :: "(nat, nat) dict" where
  "ex_rehashing =
     \<lparr>type = nat_type,
      ht0 = \<lparr>table = Some [[], [\<lparr>key = 1, val = Some 10\<rparr>], [],
                            [\<lparr>key = 7, val = Some 70\<rparr>]],
             size_ht = 4, sizemask = 3, used = 2\<rparr>,
      ht1 = \<lparr>table = Some [[\<lparr>key = 8, val = Some 80\<rparr>], [], [], [],
                            [\<lparr>key = 4, val = Some 40\<rparr>], [], [], []],
             size_ht = 8, sizemask = 7, used = 2\<rparr>,
      rehashidx = 1, iterators = 0\<rparr>"

text \<open>
  The same table while one safe iterator is scanning it.
\<close>

definition ex_iterating :: "(nat, nat) dict" where
  "ex_iterating = ex_rehashing\<lparr>iterators := 1\<rparr>"

text \<open>
  A stable table of four slots holding the nine keys 0 to 8, as it stands after nine
  insertions made while the resize gate was disabled.
\<close>

definition ex_loaded :: "(nat, nat) dict" where
  "ex_loaded =
     \<lparr>type = nat_type,
      ht0 = \<lparr>table = Some [[\<lparr>key = 8, val = Some 80\<rparr>, \<lparr>key = 4, val = Some 40\<rparr>,
                             \<lparr>key = 0, val = Some 0\<rparr>],
                            [\<lparr>key = 5, val = Some 50\<rparr>, \<lparr>key = 1, val = Some 10\<rparr>],
                            [\<lparr>key = 6, val = Some 60\<rparr>, \<lparr>key = 2, val = Some 20\<rparr>],
                            [\<lparr>key = 7, val = Some 70\<rparr>, \<lparr>key = 3, val = Some 30\<rparr>]],
             size_ht = 4, sizemask = 3, used = 9\<rparr>,
      ht1 = dictReset, rehashidx = - 1, iterators = 0\<rparr>"

text \<open>A stable table of eight slots holding the single key 3.\<close>

definition ex_sparse :: "(nat, nat) dict" where
  "ex_sparse =
     \<lparr>type = nat_type,
      ht0 = \<lparr>table = Some [[], [], [], [\<lparr>key = 3, val = Some 30\<rparr>], [], [], [], []],
             size_ht = 8, sizemask = 7, used = 1\<rparr>,
      ht1 = dictReset, rehashidx = - 1, iterators = 0\<rparr>"

text \<open>
  The table of \<open>ex_rehashing\<close> after every slot has been migrated: the primary array
  is empty and the cursor stands behind its last slot.
\<close>

definition ex_drained :: "(nat, nat) dict" where
  "ex_drained =
     \<lparr>type = nat_type,
      ht0 = \<lparr>table = Some [[], [], [], []], size_ht = 4, sizemask = 3, used = 0\<rparr>,
      ht1 = \<lparr>table = Some [[\<lparr>key = 8, val = Some 80\<rparr>], [\<lparr>key = 1, val = Some 10\<rparr>], [], [],
                            [\<lparr>key = 4, val = Some 40\<rparr>], [], [],
                            [\<lparr>key = 7, val = Some 70\<rparr>]],
             size_ht = 8, sizemask = 7, used = 4\<rparr>,
      rehashidx = 4, iterators = 0\<rparr>"

section \<open>Properties\<close>

declare dictNextPower_loop.simps [code]

declare skip_empty.simps [simp del]
declare dictRehash_loop.simps [simp del]
declare dictClear_loop.simps [simp del]
declare dictNext.simps [simp del]

subsection \<open>Powers of two and the size computation\<close>

lemma unat_pow2: "n < 64 \<Longrightarrow> unat ((2::ulong) ^ n) = 2 ^ n"
proof -
  assume n: "n < 64"
  have "(2::ulong) ^ n = of_nat (2 ^ n)" by simp
  then have "unat ((2::ulong) ^ n) = 2 ^ n mod 2 ^ 64"
    by (simp only: unat_of_nat) simp
  moreover have "(2::nat) ^ n < 2 ^ 64" using n by (intro power_strict_increasing) simp_all
  ultimately show ?thesis by simp
qed

lemma pow2_le_word:
  fixes n m :: nat
  assumes "n \<le> m" "m < 64"
  shows "(2::ulong) ^ n \<le> 2 ^ m"
  using assms by (simp add: word_le_nat_alt unat_pow2)

lemma dictNextPower_loop_spec:
  assumes "n \<le> 63" "sz \<le> 2 ^ 63"
  shows "\<exists>k. n \<le> k \<and> k \<le> 63 \<and> dictNextPower_loop (2 ^ n) sz = Some (2 ^ k) \<and> sz \<le> 2 ^ k \<and>
           (\<forall>m. n \<le> m \<and> m < k \<longrightarrow> \<not> sz \<le> 2 ^ m)"
  using assms
proof (induction "63 - n" arbitrary: n)
  case 0
  then have "n = 63" by simp
  with 0 show ?case
    by (subst dictNextPower_loop.simps) auto
next
  case (Suc x)
  show ?case
  proof (cases "sz \<le> 2 ^ n")
    case True
    then show ?thesis using Suc.prems
      by (subst dictNextPower_loop.simps) auto
  next
    case False
    have n: "Suc n \<le> 63" "x = 63 - Suc n" using Suc.hyps by simp_all
    from Suc.hyps(1) [OF n(2) n(1) Suc.prems(2)]
    obtain k where k: "Suc n \<le> k" "k \<le> 63" "dictNextPower_loop (2 ^ Suc n) sz = Some (2 ^ k)"
      "sz \<le> 2 ^ k" "\<forall>m. Suc n \<le> m \<and> m < k \<longrightarrow> \<not> sz \<le> 2 ^ m" by blast
    have "dictNextPower_loop (2 ^ n) sz = Some (2 ^ k)"
      using False k(3) by (subst dictNextPower_loop.simps) (simp add: mult.commute)
    moreover have "\<forall>m. n \<le> m \<and> m < k \<longrightarrow> \<not> sz \<le> 2 ^ m"
    proof (intro allI impI)
      fix m assume m: "n \<le> m \<and> m < k"
      show "\<not> sz \<le> 2 ^ m"
      proof (cases "m = n")
        case True with False show ?thesis by simp
      next
        case False with m k(5) show ?thesis by auto
      qed
    qed
    ultimately show ?thesis using k by (intro exI [of _ k]) auto
  qed
qed

lemma dictNextPower_spec:
  assumes "sz \<le> 2 ^ b" "2 \<le> b" "b \<le> 62"
  shows "\<exists>k. 2 \<le> k \<and> k \<le> b \<and> dictNextPower sz = Some (2 ^ k) \<and> sz \<le> 2 ^ k \<and>
           (\<forall>m < k. 2 \<le> m \<longrightarrow> 2 ^ m < sz)"
proof -
  have b63: "(2::ulong) ^ b \<le> 2 ^ 63" using assms(3) by (intro pow2_le_word) simp_all
  have "unat sz \<le> 2 ^ b"
    using assms(1,3) by (simp add: word_le_nat_alt unat_pow2)
  moreover have "(2::nat) ^ b \<le> 2 ^ 62" using assms(3) by (intro power_increasing) simp_all
  ultimately have "unat sz \<le> 2 ^ 62" by (rule order_trans)
  then have nl: "\<not> LONG_MAX \<le> sz"
    by (simp add: word_le_nat_alt LONG_MAX_def)
  have "sz \<le> 2 ^ 63" using assms(1) b63 by (rule order_trans)
  moreover have "(2::nat) \<le> 63" by simp
  ultimately have "\<exists>k. 2 \<le> k \<and> k \<le> 63 \<and> dictNextPower_loop (2 ^ 2) sz = Some (2 ^ k) \<and>
      sz \<le> 2 ^ k \<and> (\<forall>m. 2 \<le> m \<and> m < k \<longrightarrow> \<not> sz \<le> 2 ^ m)"
    by (intro dictNextPower_loop_spec)
  then obtain k where k: "2 \<le> k" "k \<le> 63" "dictNextPower_loop (2 ^ 2) sz = Some (2 ^ k)"
    "sz \<le> 2 ^ k" "\<forall>m. 2 \<le> m \<and> m < k \<longrightarrow> \<not> sz \<le> 2 ^ m" by blast
  have "k \<le> b"
  proof (rule ccontr)
    assume "\<not> k \<le> b"
    with k(5) assms(2) have "\<not> sz \<le> 2 ^ b" by simp
    with assms(1) show False by simp
  qed
  moreover have "dictNextPower sz = Some (2 ^ k)"
    using nl k(3) by (simp add: dictNextPower_def DICT_HT_INITIAL_SIZE_def)
  moreover have "\<forall>m < k. 2 \<le> m \<longrightarrow> 2 ^ m < sz"
    using k(5) by (auto simp: not_le)
  ultimately show ?thesis using k(1,4) by blast
qed

lemma zcalloc_table_pow2:
  assumes "n \<le> 60"
  shows "zcalloc_table (2 ^ n) = replicate (2 ^ n) []"
proof -
  have "(2::ulong) ^ n * 8 = 2 ^ (n + 3)" by (simp add: power_add)
  moreover have "unat ((2::ulong) ^ (n + 3)) = 2 ^ (n + 3)"
    using assms by (intro unat_pow2) simp
  ultimately have "unat ((2::ulong) ^ n * 8) div 8 = (2::nat) ^ n"
    by (simp add: power_add)
  then show ?thesis by (simp add: zcalloc_table_def)
qed

lemma dictExpand_ok:
  assumes "\<not> dictIsRehashing d" "used (ht0 d) \<le> sz" "sz \<le> 2 ^ b" "2 \<le> b" "b \<le> 60"
  shows "\<exists>n. 2 \<le> n \<and> n \<le> b \<and> sz \<le> 2 ^ n \<and> (\<forall>m < n. 2 \<le> m \<longrightarrow> 2 ^ m < sz) \<and>
           dictExpand d sz =
             Some (DICT_OK, if table (ht0 d) = None then d\<lparr>ht0 := fresh_ht n\<rparr>
                            else d\<lparr>ht1 := fresh_ht n, rehashidx := 0\<rparr>)"
proof -
  from dictNextPower_spec [OF assms(3,4)] assms(5)
  obtain k where k: "2 \<le> k" "k \<le> b" "dictNextPower sz = Some (2 ^ k)" "sz \<le> 2 ^ k"
    "\<forall>m < k. 2 \<le> m \<longrightarrow> 2 ^ m < sz" by auto
  have z: "zcalloc_table (2 ^ k) = replicate (2 ^ k) []"
    using k(2) assms(5) by (intro zcalloc_table_pow2) simp
  have "dictExpand d sz =
      Some (DICT_OK, if table (ht0 d) = None then d\<lparr>ht0 := fresh_ht k\<rparr>
                     else d\<lparr>ht1 := fresh_ht k, rehashidx := 0\<rparr>)"
    using assms(1,2) k(3) by (simp add: dictExpand_def fresh_ht_def Let_def not_less z)
  with k show ?thesis by blast
qed

lemma int_round_trip:
  fixes w :: ulong
  assumes "w \<le> 0x7FFFFFFF"
  shows "sint (ucast w :: cint) = uint w" and "scast (ucast w :: cint) = w"
proof -
  have u: "uint w \<le> 2147483647" using assms by (simp add: word_le_def)
  have "uint (ucast w :: cint) = take_bit 32 (uint w)" by (simp add: unsigned_ucast_eq)
  also have "\<dots> = uint w" using u by (simp add: take_bit_int_eq_self)
  finally have e: "uint (ucast w :: cint) = uint w" .
  show s: "sint (ucast w :: cint) = uint w"
    using u by (simp add: sint_cases e)
  show "scast (ucast w :: cint) = w"
    by (simp add: scast_eq s)
qed


lemma dictResize_argument:
  fixes u :: ulong
  assumes "u \<le> 0x7FFFFFFF"
  shows "scast (if (ucast u :: cint) <s ucast DICT_HT_INITIAL_SIZE
                then ucast DICT_HT_INITIAL_SIZE else (ucast u :: cint)) = max u 4"
proof -
  have s: "sint (ucast u :: cint) = uint u" and r: "scast (ucast u :: cint) = u"
    using int_round_trip [OF assms] by simp_all
  have "(ucast u :: cint) <s 4 \<longleftrightarrow> u < 4"
    by (simp add: word_sless_alt s word_less_def)
  then show ?thesis
    using r by (auto simp: DICT_HT_INITIAL_SIZE_def max_def not_less)
qed

subsection \<open>C9: resize-to-fit\<close>

text \<open>
  C9, as amended. For a table whose occupied count is a non-negative \<^verbatim>\<open>int\<close> (at most
  \<open>2 ^ 31 - 1\<close>), \<^verbatim>\<open>dictResize\<close> returns \<^verbatim>\<open>DICT_ERR\<close> and leaves the table unchanged if
  and only if the table is rehashing or the resize gate is disabled. Otherwise it returns
  \<^verbatim>\<open>DICT_OK\<close> and allocates a generation whose size is the smallest power of two that is
  at least \<open>max used 4\<close>: as the incoming array, with the cursor set to 0, when the
  primary array is allocated; as the primary array itself, with the table left stable,
  when the primary array is unallocated.
\<close>

theorem dictResize_spec:
  assumes "used (ht0 d) \<le> 0x7FFFFFFF"
  shows "(\<not> can_resize \<or> dictIsRehashing d \<longrightarrow> dictResize can_resize d = Some (DICT_ERR, d)) \<and>
         (can_resize \<and> \<not> dictIsRehashing d \<longrightarrow>
            (\<exists>n. max (used (ht0 d)) 4 \<le> 2 ^ n \<and> n \<le> 31 \<and>
                 (\<forall>m < n. (2::ulong) ^ m < max (used (ht0 d)) 4) \<and>
                 dictResize can_resize d =
                   Some (DICT_OK, if table (ht0 d) = None then d\<lparr>ht0 := fresh_ht n\<rparr>
                                  else d\<lparr>ht1 := fresh_ht n, rehashidx := 0\<rparr>)))"
proof (intro conjI impI)
  assume "\<not> can_resize \<or> dictIsRehashing d"
  then show "dictResize can_resize d = Some (DICT_ERR, d)"
    by (auto simp: dictResize_def)
next
  assume a: "can_resize \<and> \<not> dictIsRehashing d"
  define sz where "sz = max (used (ht0 d)) 4"
  have call: "dictResize can_resize d = dictExpand d sz"
    using a dictResize_argument [OF assms] by (simp add: dictResize_def Let_def sz_def)
  have "sz \<le> 0x7FFFFFFF"
    using assms by (simp add: sz_def max_def)
  also have "(0x7FFFFFFF :: ulong) \<le> 2 ^ 31" by simp
  finally have b: "sz \<le> 2 ^ 31" .
  have u: "used (ht0 d) \<le> sz" and four: "4 \<le> sz" by (simp_all add: sz_def)
  from a have nr: "\<not> dictIsRehashing d" by simp
  have "\<exists>n. 2 \<le> n \<and> n \<le> 31 \<and> sz \<le> 2 ^ n \<and> (\<forall>m < n. 2 \<le> m \<longrightarrow> 2 ^ m < sz) \<and>
           dictExpand d sz =
             Some (DICT_OK, if table (ht0 d) = None then d\<lparr>ht0 := fresh_ht n\<rparr>
                            else d\<lparr>ht1 := fresh_ht n, rehashidx := 0\<rparr>)"
    using nr u b by (rule dictExpand_ok) simp_all
  then obtain n where n: "2 \<le> n" "n \<le> 31" "sz \<le> 2 ^ n" "\<forall>m < n. 2 \<le> m \<longrightarrow> 2 ^ m < sz"
    "dictExpand d sz =
       Some (DICT_OK, if table (ht0 d) = None then d\<lparr>ht0 := fresh_ht n\<rparr>
                      else d\<lparr>ht1 := fresh_ht n, rehashidx := 0\<rparr>)" by blast
  have "\<forall>m < n. (2::ulong) ^ m < sz"
  proof (intro allI impI)
    fix m assume m: "m < n"
    show "(2::ulong) ^ m < sz"
    proof (cases "2 \<le> m")
      case True
      with n(4) m show ?thesis by simp
    next
      case False
      then have "m = 0 \<or> m = 1" by auto
      then have "(2::ulong) ^ m < 4" by auto
      with four show ?thesis by simp
    qed
  qed
  then have m: "\<forall>m < n. (2::ulong) ^ m < max (used (ht0 d)) 4" by (simp only: sz_def)
  have le: "max (used (ht0 d)) 4 \<le> 2 ^ n" using n(3) by (simp only: sz_def)
  have res: "dictResize can_resize d =
        Some (DICT_OK, if table (ht0 d) = None then d\<lparr>ht0 := fresh_ht n\<rparr>
                       else d\<lparr>ht1 := fresh_ht n, rehashidx := 0\<rparr>)"
    using call n(5) by (simp only:)
  show "\<exists>n. max (used (ht0 d)) 4 \<le> 2 ^ n \<and> n \<le> 31 \<and>
      (\<forall>m < n. (2::ulong) ^ m < max (used (ht0 d)) 4) \<and>
      dictResize can_resize d =
        Some (DICT_OK, if table (ht0 d) = None then d\<lparr>ht0 := fresh_ht n\<rparr>
                       else d\<lparr>ht1 := fresh_ht n, rehashidx := 0\<rparr>)"
    using le n(2) m res by (intro exI [of _ n] conjI)
qed

theorem dictResize_spec_witness:
  "used (ht0 ex_stable) \<le> 0x7FFFFFFF \<and>
   dictResize False ex_stable = Some (DICT_ERR, ex_stable) \<and>
   dictResize True ex_rehashing = Some (DICT_ERR, ex_rehashing) \<and>
   (\<exists>n. max (used (ht0 ex_stable)) 4 \<le> 2 ^ n \<and> n \<le> 31 \<and>
        (\<forall>m < n. (2::ulong) ^ m < max (used (ht0 ex_stable)) 4) \<and>
        dictResize True ex_stable = Some (DICT_OK, ex_stable\<lparr>ht1 := fresh_ht n, rehashidx := 0\<rparr>))"
proof -
  have h1: "used (ht0 ex_stable) \<le> 0x7FFFFFFF" by (simp add: ex_stable_def)
  have h2: "used (ht0 ex_rehashing) \<le> 0x7FFFFFFF" by (simp add: ex_rehashing_def)
  have r: "dictIsRehashing ex_rehashing" "\<not> dictIsRehashing ex_stable"
    "table (ht0 ex_stable) \<noteq> None"
    by (simp_all add: dictIsRehashing_def ex_rehashing_def ex_stable_def)
  have a: "dictResize False ex_stable = Some (DICT_ERR, ex_stable)"
    using dictResize_spec [OF h1, of False] by (simp only: simp_thms)
  have b: "dictResize True ex_rehashing = Some (DICT_ERR, ex_rehashing)"
    using dictResize_spec [OF h2, of True] r(1) by (simp only: simp_thms)
  have c: "\<exists>n. max (used (ht0 ex_stable)) 4 \<le> 2 ^ n \<and> n \<le> 31 \<and>
        (\<forall>m < n. (2::ulong) ^ m < max (used (ht0 ex_stable)) 4) \<and>
        dictResize True ex_stable = Some (DICT_OK, ex_stable\<lparr>ht1 := fresh_ht n, rehashidx := 0\<rparr>)"
    using dictResize_spec [OF h1, of True] r(2,3) by (simp only: simp_thms if_False)
  show ?thesis using h1 a b c by (intro conjI)
qed

text \<open>
  C9 as stated fails on a table that has just been created: the call succeeds and the table
  is not rehashing afterwards; its primary array has been allocated with 4 slots.
\<close>

theorem dictResize_unallocated_counterexample:
  "map_option fst (dictResize True (dictCreate nat_type :: (nat, nat) dict)) = Some DICT_OK \<and>
   map_option (dictIsRehashing \<circ> snd) (dictResize True (dictCreate nat_type :: (nat, nat) dict))
     = Some False \<and>
   map_option (size_ht \<circ> ht0 \<circ> snd) (dictResize True (dictCreate nat_type :: (nat, nat) dict))
     = Some 4"
  by code_simp


subsection \<open>Consequences of the representation invariant\<close>

lemma wf_ht_alloc:
  assumes "ht_wf ty ht" "table ht = Some t"
  shows "\<exists>n. 2 \<le> n \<and> n \<le> 30 \<and> size_ht ht = 2 ^ n" "length t = unat (size_ht ht)"
    "sizemask ht = size_ht ht - 1" "unat (used ht) = length (concat t)"
    "i < length t \<Longrightarrow> e \<in> set (t ! i) \<Longrightarrow> slot_of ty ht (key e) = i"
  using assms by (auto simp: ht_wf_def)

lemma wf_ht_unalloc:
  assumes "ht_wf ty ht" "table ht = None"
  shows "size_ht ht = 0" "sizemask ht = 0" "used ht = 0"
  using assms by (auto simp: ht_wf_def)

lemma wf_size_zero_iff:
  assumes "ht_wf ty ht"
  shows "size_ht ht = 0 \<longleftrightarrow> table ht = None"
proof (cases "table ht")
  case None
  with assms show ?thesis by (simp add: ht_wf_def)
next
  case (Some t)
  from wf_ht_alloc(1) [OF assms Some] obtain n where n: "n \<le> 30" "size_ht ht = 2 ^ n" by blast
  then have "unat (size_ht ht) = 2 ^ n" by (simp add: unat_pow2)
  then have "size_ht ht \<noteq> 0" by (metis power_not_zero unat_0 zero_neq_numeral)
  with Some show ?thesis by simp
qed


lemma double_bounded:
  fixes u :: ulong
  assumes "u \<le> max_entries"
  shows "unat (u * 2) = 2 * unat u" and "u * 2 \<le> 2 ^ 30"
proof -
  have u: "unat u \<le> 2 ^ 29"
    using assms by (simp add: word_le_nat_alt max_entries_def)
  then have "unat u * unat (2::ulong) < 2 ^ LENGTH(64)" by simp
  then have "unat (u * 2) = unat u * unat (2::ulong)"
    by (rule unat_mult_lem [THEN iffD1])
  then show d: "unat (u * 2) = 2 * unat u" by simp
  show "u * 2 \<le> 2 ^ 30"
    using u by (simp add: word_le_nat_alt d)
qed

lemma pow2_word_less_iff:
  assumes "n < 64" "m < 64"
  shows "(2::ulong) ^ m < 2 ^ n \<longleftrightarrow> m < n" and "(2::ulong) ^ m \<le> 2 ^ n \<longleftrightarrow> m \<le> n"
  using assms by (simp_all add: word_less_nat_alt word_le_nat_alt unat_pow2)

subsection \<open>C6: the grow trigger\<close>

text \<open>
  C6, as amended. For every well-formed table that is not rehashing: if the primary array
  is unallocated, \<^verbatim>\<open>_dictExpandIfNeeded\<close> allocates it with 4 slots; otherwise, if
  \<open>used \<ge> size\<close> and the resize gate is enabled or the integer quotient
  \<open>used div size\<close> exceeds 5, the table begins rehashing to the smallest power of two
  that is at least twice the occupied count, which is twice the current size when
  \<open>used = size\<close>; otherwise the table is left as it is.
\<close>

theorem dictExpandIfNeeded_spec:
  assumes "dict_wf d" "\<not> dictIsRehashing d"
  shows "(table (ht0 d) = None \<longrightarrow>
            dictExpandIfNeeded can_resize d = Some (DICT_OK, d\<lparr>ht0 := fresh_ht 2\<rparr>)) \<and>
         (table (ht0 d) \<noteq> None \<and> size_ht (ht0 d) \<le> used (ht0 d) \<and>
          (can_resize \<or> 5 < used (ht0 d) div size_ht (ht0 d)) \<longrightarrow>
            (\<exists>n. used (ht0 d) * 2 \<le> 2 ^ n \<and> n \<le> 30 \<and>
                 (\<forall>m < n. (2::ulong) ^ m < used (ht0 d) * 2) \<and>
                 (used (ht0 d) = size_ht (ht0 d) \<longrightarrow> (2::ulong) ^ n = size_ht (ht0 d) * 2) \<and>
                 dictExpandIfNeeded can_resize d =
                   Some (DICT_OK, d\<lparr>ht1 := fresh_ht n, rehashidx := 0\<rparr>))) \<and>
         (table (ht0 d) \<noteq> None \<and>
          \<not> (size_ht (ht0 d) \<le> used (ht0 d) \<and>
             (can_resize \<or> 5 < used (ht0 d) div size_ht (ht0 d))) \<longrightarrow>
            dictExpandIfNeeded can_resize d = Some (DICT_OK, d))"
proof -
  from assms(1) have wf0: "ht_wf (type d) (ht0 d)" and bound: "used (ht0 d) \<le> max_entries"
    by (simp_all add: dict_wf_def)
  note z = wf_size_zero_iff [OF wf0]
  have first: "dictExpandIfNeeded can_resize d = Some (DICT_OK, d\<lparr>ht0 := fresh_ht 2\<rparr>)"
    if none: "table (ht0 d) = None"
  proof -
    have u: "used (ht0 d) \<le> 4" using wf_ht_unalloc(3) [OF wf0 none] by simp
    have "\<exists>n. 2 \<le> n \<and> n \<le> 2 \<and> (4::ulong) \<le> 2 ^ n \<and> (\<forall>m < n. 2 \<le> m \<longrightarrow> 2 ^ m < (4::ulong)) \<and>
           dictExpand d 4 =
             Some (DICT_OK, if table (ht0 d) = None then d\<lparr>ht0 := fresh_ht n\<rparr>
                            else d\<lparr>ht1 := fresh_ht n, rehashidx := 0\<rparr>)"
      using assms(2) u by (rule dictExpand_ok) simp_all
    then obtain n where "2 \<le> n" "n \<le> 2" and
      e: "dictExpand d 4 =
             Some (DICT_OK, if table (ht0 d) = None then d\<lparr>ht0 := fresh_ht n\<rparr>
                            else d\<lparr>ht1 := fresh_ht n, rehashidx := 0\<rparr>)" by blast
    then have "n = 2" by simp
    with e none have "dictExpand d 4 = Some (DICT_OK, d\<lparr>ht0 := fresh_ht 2\<rparr>)" by simp
    then show ?thesis
      using assms(2) none z by (simp add: dictExpandIfNeeded_def DICT_HT_INITIAL_SIZE_def)
  qed
  have grow: "\<exists>n. used (ht0 d) * 2 \<le> 2 ^ n \<and> n \<le> 30 \<and>
                 (\<forall>m < n. (2::ulong) ^ m < used (ht0 d) * 2) \<and>
                 (used (ht0 d) = size_ht (ht0 d) \<longrightarrow> (2::ulong) ^ n = size_ht (ht0 d) * 2) \<and>
                 dictExpandIfNeeded can_resize d =
                   Some (DICT_OK, d\<lparr>ht1 := fresh_ht n, rehashidx := 0\<rparr>)"
    if some: "table (ht0 d) \<noteq> None" and le: "size_ht (ht0 d) \<le> used (ht0 d)"
      and gate: "can_resize \<or> 5 < used (ht0 d) div size_ht (ht0 d)"
  proof -
    from some obtain t where t: "table (ht0 d) = Some t" by auto
    from wf_ht_alloc(1) [OF wf0 t] obtain j where j: "2 \<le> j" "j \<le> 30" "size_ht (ht0 d) = 2 ^ j"
      by blast
    define u where "u = used (ht0 d)"
    have dbl: "unat (u * 2) = 2 * unat u" "u * 2 \<le> 2 ^ 30"
      using double_bounded [OF bound] by (simp_all add: u_def)
    have uu: "u \<le> u * 2" by (simp add: word_le_nat_alt dbl)
    have nz: "size_ht (ht0 d) \<noteq> 0" using z some by simp
    have nl: "\<not> used (ht0 d) < size_ht (ht0 d)" using le by (simp add: not_less)
    have call: "dictExpandIfNeeded can_resize d = dictExpand d (u * 2)"
      using assms(2) nz nl le gate
      by (auto simp: dictExpandIfNeeded_def u_def dict_force_resize_ratio_def)
    have "\<exists>n. 2 \<le> n \<and> n \<le> 30 \<and> u * 2 \<le> 2 ^ n \<and> (\<forall>m < n. 2 \<le> m \<longrightarrow> 2 ^ m < u * 2) \<and>
           dictExpand d (u * 2) =
             Some (DICT_OK, if table (ht0 d) = None then d\<lparr>ht0 := fresh_ht n\<rparr>
                            else d\<lparr>ht1 := fresh_ht n, rehashidx := 0\<rparr>)"
      using assms(2) uu [unfolded u_def] dbl(2) unfolding u_def by (rule dictExpand_ok) simp_all
    then obtain n where n: "2 \<le> n" "n \<le> 30" "u * 2 \<le> 2 ^ n" "\<forall>m < n. 2 \<le> m \<longrightarrow> 2 ^ m < u * 2"
      and e: "dictExpand d (u * 2) =
             Some (DICT_OK, if table (ht0 d) = None then d\<lparr>ht0 := fresh_ht n\<rparr>
                            else d\<lparr>ht1 := fresh_ht n, rehashidx := 0\<rparr>)" by blast
    have four: "4 \<le> unat u"
    proof -
      have "(2::nat) ^ 2 \<le> 2 ^ j" using j(1) by (intro power_increasing) simp_all
      moreover have "unat (size_ht (ht0 d)) = 2 ^ j" using j by (simp add: unat_pow2)
      moreover have "unat (size_ht (ht0 d)) \<le> unat u" using le by (simp add: word_le_nat_alt u_def)
      ultimately show ?thesis by simp
    qed
    have small: "\<forall>m < n. (2::ulong) ^ m < u * 2"
    proof (intro allI impI)
      fix m assume m: "m < n"
      show "(2::ulong) ^ m < u * 2"
      proof (cases "2 \<le> m")
        case True
        with n(4) m show ?thesis by simp
      next
        case False
        then have "m = 0 \<or> m = 1" by auto
        then have "unat ((2::ulong) ^ m) \<le> 2" by auto
        with four show ?thesis by (simp add: word_less_nat_alt dbl)
      qed
    qed
    have eq: "(2::ulong) ^ n = size_ht (ht0 d) * 2" if "u = size_ht (ht0 d)"
    proof -
      have u2: "u * 2 = 2 ^ Suc j" using that j(3) by (simp add: mult.commute)
      have "(2::ulong) ^ Suc j \<le> 2 ^ n" using n(3) by (simp only: u2)
      moreover have "n < 64" "Suc j < 64" using n(2) j(2) by simp_all
      ultimately have "Suc j \<le> n" by (simp only: pow2_word_less_iff)
      moreover have "\<not> Suc j < n"
      proof
        assume "Suc j < n"
        with small have "(2::ulong) ^ Suc j < u * 2" by blast
        then show False unfolding u2 by simp
      qed
      ultimately have "n = Suc j" by simp
      then show ?thesis using j(3) by (simp add: mult.commute)
    qed
    have res: "dictExpandIfNeeded can_resize d = Some (DICT_OK, d\<lparr>ht1 := fresh_ht n, rehashidx := 0\<rparr>)"
      using call e t by simp
    show ?thesis
      using n(3) n(2) small eq res unfolding u_def by (intro exI [of _ n] conjI impI) 
  qed
  have rest: "dictExpandIfNeeded can_resize d = Some (DICT_OK, d)"
    if "table (ht0 d) \<noteq> None" "\<not> (size_ht (ht0 d) \<le> used (ht0 d) \<and>
             (can_resize \<or> 5 < used (ht0 d) div size_ht (ht0 d)))"
    using that assms(2) z by (auto simp: dictExpandIfNeeded_def dict_force_resize_ratio_def)
  show ?thesis using first grow rest by blast
qed


theorem dictExpandIfNeeded_spec_witness:
  "dict_wf (dictCreate nat_type :: (nat, nat) dict) \<and>
   \<not> dictIsRehashing (dictCreate nat_type :: (nat, nat) dict) \<and>
   table (ht0 (dictCreate nat_type :: (nat, nat) dict)) = None \<and>
   dictExpandIfNeeded True (dictCreate nat_type :: (nat, nat) dict)
     = Some (DICT_OK, (dictCreate nat_type)\<lparr>ht0 := fresh_ht 2\<rparr>) \<and>
   dict_wf ex_stable \<and> \<not> dictIsRehashing ex_stable \<and> table (ht0 ex_stable) \<noteq> None \<and>
   size_ht (ht0 ex_stable) \<le> used (ht0 ex_stable) \<and>
   (\<exists>n. used (ht0 ex_stable) * 2 \<le> 2 ^ n \<and> n \<le> 30 \<and>
        (\<forall>m < n. (2::ulong) ^ m < used (ht0 ex_stable) * 2) \<and>
        (used (ht0 ex_stable) = size_ht (ht0 ex_stable) \<longrightarrow>
           (2::ulong) ^ n = size_ht (ht0 ex_stable) * 2) \<and>
        dictExpandIfNeeded True ex_stable
          = Some (DICT_OK, ex_stable\<lparr>ht1 := fresh_ht n, rehashidx := 0\<rparr>)) \<and>
   dict_wf ex_sparse \<and> \<not> dictIsRehashing ex_sparse \<and> table (ht0 ex_sparse) \<noteq> None \<and>
   \<not> size_ht (ht0 ex_sparse) \<le> used (ht0 ex_sparse) \<and>
   dictExpandIfNeeded True ex_sparse = Some (DICT_OK, ex_sparse)"
proof -
  have c: "dict_wf (dictCreate nat_type :: (nat, nat) dict)"
    "\<not> dictIsRehashing (dictCreate nat_type :: (nat, nat) dict)"
    "table (ht0 (dictCreate nat_type :: (nat, nat) dict)) = None"
    by code_simp+
  have s: "dict_wf ex_stable" "\<not> dictIsRehashing ex_stable" "table (ht0 ex_stable) \<noteq> None"
    "size_ht (ht0 ex_stable) \<le> used (ht0 ex_stable)"
    by code_simp+
  have p: "dict_wf ex_sparse" "\<not> dictIsRehashing ex_sparse" "table (ht0 ex_sparse) \<noteq> None"
    "\<not> size_ht (ht0 ex_sparse) \<le> used (ht0 ex_sparse)"
    by code_simp+
  have 1: "dictExpandIfNeeded True (dictCreate nat_type :: (nat, nat) dict)
     = Some (DICT_OK, (dictCreate nat_type)\<lparr>ht0 := fresh_ht 2\<rparr>)"
    using dictExpandIfNeeded_spec [OF c(1,2), of True] c(3) by (simp only: simp_thms)
  have 2: "\<exists>n. used (ht0 ex_stable) * 2 \<le> 2 ^ n \<and> n \<le> 30 \<and>
        (\<forall>m < n. (2::ulong) ^ m < used (ht0 ex_stable) * 2) \<and>
        (used (ht0 ex_stable) = size_ht (ht0 ex_stable) \<longrightarrow>
           (2::ulong) ^ n = size_ht (ht0 ex_stable) * 2) \<and>
        dictExpandIfNeeded True ex_stable
          = Some (DICT_OK, ex_stable\<lparr>ht1 := fresh_ht n, rehashidx := 0\<rparr>)"
    using dictExpandIfNeeded_spec [OF s(1,2), of True] s(3,4) by (simp only: simp_thms)
  have 3: "dictExpandIfNeeded True ex_sparse = Some (DICT_OK, ex_sparse)"
    using dictExpandIfNeeded_spec [OF p(1,2), of True] p(3,4) by (simp only: simp_thms)
  show ?thesis using c s p 1 2 3 by (intro conjI)
qed

text \<open>
  C6 as stated fails when the occupied count has outgrown the size: the table of four
  slots with nine entries begins rehashing to 32 slots, not to 8.
\<close>

theorem dictExpandIfNeeded_double_counterexample:
  "dict_wf ex_loaded \<and> \<not> dictIsRehashing ex_loaded \<and>
   size_ht (ht0 ex_loaded) \<le> used (ht0 ex_loaded) \<and>
   size_ht (ht0 ex_loaded) * 2 = 8 \<and>
   map_option (dictIsRehashing \<circ> snd) (dictExpandIfNeeded True ex_loaded) = Some True \<and>
   map_option (size_ht \<circ> ht1 \<circ> snd) (dictExpandIfNeeded True ex_loaded) = Some 32"
  by code_simp

subsection \<open>C4: the size of the incoming array when rehashing starts\<close>

lemma dictNextPower_ge:
  assumes "dictNextPower sz = Some r"
  shows "sz \<le> r \<or> r = LONG_MAX"
proof (cases "LONG_MAX \<le> sz")
  case True
  with assms show ?thesis by (simp add: dictNextPower_def)
next
  case False
  then have "unat sz < 2 ^ 63 - 1" by (simp add: word_le_nat_alt LONG_MAX_def not_le)
  then have "sz \<le> 2 ^ 63" by (simp add: word_le_nat_alt)
  moreover have "(2::nat) \<le> 63" by simp
  ultimately have "\<exists>k. 2 \<le> k \<and> k \<le> 63 \<and> dictNextPower_loop (2 ^ 2) sz = Some (2 ^ k) \<and>
      sz \<le> 2 ^ k \<and> (\<forall>m. 2 \<le> m \<and> m < k \<longrightarrow> \<not> sz \<le> 2 ^ m)"
    by (intro dictNextPower_loop_spec)
  then obtain k where "dictNextPower_loop (2 ^ 2) sz = Some (2 ^ k)" "sz \<le> 2 ^ k" by blast
  with assms False show ?thesis by (simp add: dictNextPower_def DICT_HT_INITIAL_SIZE_def)
qed

lemma dictExpand_incoming_size:
  assumes "dictExpand d sz = Some (st, d')" "dictIsRehashing d'" "\<not> dictIsRehashing d"
    "used (ht0 d) \<le> max_entries"
  shows "used (ht0 d) \<le> size_ht (ht1 d') \<and> ht0 d' = ht0 d"
proof -
  from assms(1,3) have nl: "\<not> sz < used (ht0 d)"
    using assms(2) by (auto simp: dictExpand_def split: if_splits)
  from assms(1,3) nl obtain r where r: "dictNextPower sz = Some r"
    by (auto simp: dictExpand_def split: option.splits)
  from assms(1,2,3) nl r have d': "size_ht (ht1 d') = r" "ht0 d' = ht0 d"
    by (auto simp: dictExpand_def Let_def dictIsRehashing_def split: if_splits)
  have "used (ht0 d) \<le> LONG_MAX"
    using assms(4) by (simp add: word_le_nat_alt max_entries_def LONG_MAX_def)
  then show ?thesis
    using dictNextPower_ge [OF r] nl d' by (auto simp: not_less)
qed


text \<open>
  C4, as amended. Rehashing is entered through \<^verbatim>\<open>dictExpand\<close> only. Whenever a call of
  \<^verbatim>\<open>dictExpand\<close> (explicit resize), \<^verbatim>\<open>dictResize\<close> (resize-to-fit) or
  \<^verbatim>\<open>_dictExpandIfNeeded\<close> (the grow trigger) on a well-formed stable table leaves the
  table rehashing, the primary generation is unchanged and the size of the incoming array
  is at least the primary's occupied count; through the grow trigger it is also at least
  the primary's size.
\<close>

theorem rehash_entry_incoming_size:
  assumes "dict_wf d" "\<not> dictIsRehashing d"
  shows "(\<forall>sz st d'. dictExpand d sz = Some (st, d') \<and> dictIsRehashing d' \<longrightarrow>
            used (ht0 d) \<le> size_ht (ht1 d') \<and> ht0 d' = ht0 d) \<and>
         (\<forall>can_resize st d'. dictResize can_resize d = Some (st, d') \<and> dictIsRehashing d' \<longrightarrow>
            used (ht0 d) \<le> size_ht (ht1 d') \<and> ht0 d' = ht0 d) \<and>
         (\<forall>can_resize st d'. dictExpandIfNeeded can_resize d = Some (st, d') \<and> dictIsRehashing d' \<longrightarrow>
            size_ht (ht0 d) \<le> size_ht (ht1 d') \<and> used (ht0 d) \<le> size_ht (ht1 d') \<and>
            ht0 d' = ht0 d)"
proof (intro conjI allI impI)
  from assms(1) have bound: "used (ht0 d) \<le> max_entries" by (simp add: dict_wf_def)
  {
    fix sz st d'
    assume a: "dictExpand d sz = Some (st, d') \<and> dictIsRehashing d'"
    then have "used (ht0 d) \<le> size_ht (ht1 d') \<and> ht0 d' = ht0 d"
      using dictExpand_incoming_size [of d sz st d'] assms(2) bound by simp
    then show "used (ht0 d) \<le> size_ht (ht1 d')" "ht0 d' = ht0 d" by simp_all
  next
    fix can_resize st d'
    assume a: "dictResize can_resize d = Some (st, d') \<and> dictIsRehashing d'"
    then obtain sz where "dictExpand d sz = Some (st, d')"
      using assms(2) by (auto simp: dictResize_def Let_def split: if_splits)
    then have "used (ht0 d) \<le> size_ht (ht1 d') \<and> ht0 d' = ht0 d"
      using dictExpand_incoming_size [of d sz st d'] a assms(2) bound by simp
    then show "used (ht0 d) \<le> size_ht (ht1 d')" "ht0 d' = ht0 d" by simp_all
  next
    fix can_resize st d'
    assume a: "dictExpandIfNeeded can_resize d = Some (st, d') \<and> dictIsRehashing d'"
    have le: "size_ht (ht0 d) \<le> used (ht0 d)"
      and ex: "\<exists>sz. dictExpand d sz = Some (st, d')"
      using a assms(2) unfolding dictExpandIfNeeded_def
      by (auto split: if_splits)
    then obtain sz where "dictExpand d sz = Some (st, d')" by blast
    then have r: "used (ht0 d) \<le> size_ht (ht1 d') \<and> ht0 d' = ht0 d"
      using dictExpand_incoming_size [of d sz st d'] a assms(2) bound by simp
    then show "used (ht0 d) \<le> size_ht (ht1 d')" "ht0 d' = ht0 d" by simp_all
    from r le show "size_ht (ht0 d) \<le> size_ht (ht1 d')" by auto
  }
qed

theorem rehash_entry_incoming_size_witness:
  "dict_wf ex_stable \<and> \<not> dictIsRehashing ex_stable \<and>
   dictExpand ex_stable 100 = Some (DICT_OK, ex_stable\<lparr>ht1 := fresh_ht 7, rehashidx := 0\<rparr>) \<and>
   dictIsRehashing (ex_stable\<lparr>ht1 := fresh_ht 7, rehashidx := 0\<rparr>) \<and>
   used (ht0 ex_stable) \<le> size_ht (ht1 (ex_stable\<lparr>ht1 := fresh_ht 7, rehashidx := 0\<rparr>)) \<and>
   dictResize True ex_stable = Some (DICT_OK, ex_stable\<lparr>ht1 := fresh_ht 2, rehashidx := 0\<rparr>) \<and>
   dictIsRehashing (ex_stable\<lparr>ht1 := fresh_ht 2, rehashidx := 0\<rparr>) \<and>
   used (ht0 ex_stable) \<le> size_ht (ht1 (ex_stable\<lparr>ht1 := fresh_ht 2, rehashidx := 0\<rparr>)) \<and>
   dictExpandIfNeeded True ex_stable = Some (DICT_OK, ex_stable\<lparr>ht1 := fresh_ht 3, rehashidx := 0\<rparr>) \<and>
   dictIsRehashing (ex_stable\<lparr>ht1 := fresh_ht 3, rehashidx := 0\<rparr>) \<and>
   size_ht (ht0 ex_stable) \<le> size_ht (ht1 (ex_stable\<lparr>ht1 := fresh_ht 3, rehashidx := 0\<rparr>))"
proof -
  have w: "dict_wf ex_stable" "\<not> dictIsRehashing ex_stable" by code_simp+
  have e: "dictExpand ex_stable 100 = Some (DICT_OK, ex_stable\<lparr>ht1 := fresh_ht 7, rehashidx := 0\<rparr>)"
    "dictResize True ex_stable = Some (DICT_OK, ex_stable\<lparr>ht1 := fresh_ht 2, rehashidx := 0\<rparr>)"
    "dictExpandIfNeeded True ex_stable = Some (DICT_OK, ex_stable\<lparr>ht1 := fresh_ht 3, rehashidx := 0\<rparr>)"
  proof -
    have np: "dictNextPower 100 = Some 128" "dictNextPower 4 = Some 4" "dictNextPower 8 = Some 8"
      by code_simp+
    have z: "zcalloc_table 128 = replicate 128 []" "zcalloc_table 4 = replicate 4 []"
      "zcalloc_table 8 = replicate 8 []"
      by (simp_all add: zcalloc_table_def)
    show "dictExpand ex_stable 100 = Some (DICT_OK, ex_stable\<lparr>ht1 := fresh_ht 7, rehashidx := 0\<rparr>)"
      by (simp add: dictExpand_def np z fresh_ht_def dictIsRehashing_def ex_stable_def)
    show "dictResize True ex_stable = Some (DICT_OK, ex_stable\<lparr>ht1 := fresh_ht 2, rehashidx := 0\<rparr>)"
      by (simp add: dictResize_def dictExpand_def np z fresh_ht_def dictIsRehashing_def
          ex_stable_def DICT_HT_INITIAL_SIZE_def word_sless_alt)
    show "dictExpandIfNeeded True ex_stable = Some (DICT_OK, ex_stable\<lparr>ht1 := fresh_ht 3, rehashidx := 0\<rparr>)"
      by (simp add: dictExpandIfNeeded_def dictExpand_def np z fresh_ht_def dictIsRehashing_def
          ex_stable_def DICT_HT_INITIAL_SIZE_def)
  qed
  have r: "dictIsRehashing (ex_stable\<lparr>ht1 := fresh_ht n, rehashidx := 0\<rparr>)" for n
    by (simp add: dictIsRehashing_def)
  note t = rehash_entry_incoming_size [OF w]
  show ?thesis
    using w e r t [THEN conjunct1, rule_format, OF conjI, OF e(1) r]
      t [THEN conjunct2, THEN conjunct1, rule_format, OF conjI, OF e(2) r]
      t [THEN conjunct2, THEN conjunct2, rule_format, OF conjI, OF e(3) r]
    by (intro conjI) simp_all
qed

text \<open>
  C4 as stated fails for resize-to-fit: on the table of eight slots that holds one key,
  \<^verbatim>\<open>dictResize\<close> begins rehashing to an incoming array of 4 slots.
\<close>

theorem resize_shrinks_counterexample:
  "dict_wf ex_sparse \<and> \<not> dictIsRehashing ex_sparse \<and> size_ht (ht0 ex_sparse) = 8 \<and>
   map_option fst (dictResize True ex_sparse) = Some DICT_OK \<and>
   map_option (dictIsRehashing \<circ> snd) (dictResize True ex_sparse) = Some True \<and>
   map_option (size_ht \<circ> ht0 \<circ> snd) (dictResize True ex_sparse) = Some 8 \<and>
   map_option (size_ht \<circ> ht1 \<circ> snd) (dictResize True ex_sparse) = Some 4"
  by code_simp


subsection \<open>The rehash step\<close>

lemma slot_of_update [simp]:
  "slot_of ty (ht\<lparr>table := x\<rparr>) k = slot_of ty ht k"
  "slot_of ty (ht\<lparr>used := y\<rparr>) k = slot_of ty ht k"
  by (simp_all add: slot_of_def)

lemma rehash_chain_frame:
  assumes "rehash_chain d es = Some d'"
  shows "type d' = type d \<and> rehashidx d' = rehashidx d \<and> iterators d' = iterators d \<and>
         table (ht0 d') = table (ht0 d) \<and> size_ht (ht0 d') = size_ht (ht0 d) \<and>
         sizemask (ht0 d') = sizemask (ht0 d) \<and>
         size_ht (ht1 d') = size_ht (ht1 d) \<and> sizemask (ht1 d') = sizemask (ht1 d)"
  using assms
proof (induction es arbitrary: d)
  case Nil
  then show ?case by simp
next
  case (Cons e es)
  from Cons.prems obtain c where
    "rehash_chain
       (d\<lparr>ht0 := (ht0 d)\<lparr>used := used (ht0 d) - 1\<rparr>,
          ht1 := (set_bucket (ht1 d)
                   (unat (dictHashKey d (key e) AND ucast (sizemask (ht1 d)))) (e # c))
                 \<lparr>used := used (ht1 d) + 1\<rparr>\<rparr>) es = Some d'"
    by (auto simp: Let_def split: option.splits)
  from Cons.IH [OF this] show ?case by (simp add: set_bucket_def)
qed

lemma rehash_chain_result:
  assumes "table (ht1 d) = Some t1"
    and "\<forall>e \<in> set es. slot_of (type d) (ht1 d) (key e) < length t1"
  shows "\<exists>t1'. length t1' = length t1 \<and>
           (\<forall>i < length t1. t1' ! i =
              rev (filter (\<lambda>e. slot_of (type d) (ht1 d) (key e) = i) es) @ t1 ! i) \<and>
           rehash_chain d es =
             Some (d\<lparr>ht0 := (ht0 d)\<lparr>used := used (ht0 d) - of_nat (length es)\<rparr>,
                     ht1 := (ht1 d)\<lparr>table := Some t1',
                                    used := used (ht1 d) + of_nat (length es)\<rparr>\<rparr>)"
  using assms
proof (induction es arbitrary: d t1)
  case Nil
  then show ?case by (intro exI [of _ t1]) simp
next
  case (Cons e es)
  define h where "h = slot_of (type d) (ht1 d) (key e)"
  define d1 where "d1 = d\<lparr>ht0 := (ht0 d)\<lparr>used := used (ht0 d) - 1\<rparr>,
      ht1 := (ht1 d)\<lparr>table := Some (t1[h := e # t1 ! h]), used := used (ht1 d) + 1\<rparr>\<rparr>"
  have h: "h < length t1" using Cons.prems(2) by (simp add: h_def)
  have step: "rehash_chain d (e # es) = rehash_chain d1 es"
    using Cons.prems(1) h
    by (simp add: Let_def bucket_def set_bucket_def h_def [symmetric] d1_def
        slot_of_def [symmetric] dictHashKey_def)
  have t: "table (ht1 d1) = Some (t1[h := e # t1 ! h])" by (simp add: d1_def)
  have s: "slot_of (type d1) (ht1 d1) k = slot_of (type d) (ht1 d) k" for k
    by (simp add: d1_def)
  have "\<forall>x \<in> set es. slot_of (type d1) (ht1 d1) (key x) < length (t1[h := e # t1 ! h])"
    using Cons.prems(2) by (simp add: s)
  from Cons.IH [OF t this] obtain t1' where t1':
    "length t1' = length t1"
    "\<forall>i < length t1. t1' ! i =
        rev (filter (\<lambda>e. slot_of (type d) (ht1 d) (key e) = i) es) @ (t1[h := e # t1 ! h]) ! i"
    "rehash_chain d1 es =
       Some (d1\<lparr>ht0 := (ht0 d1)\<lparr>used := used (ht0 d1) - of_nat (length es)\<rparr>,
                ht1 := (ht1 d1)\<lparr>table := Some t1',
                                used := used (ht1 d1) + of_nat (length es)\<rparr>\<rparr>)"
    by (auto simp: s)
  have slots: "\<forall>i < length t1. t1' ! i =
      rev (filter (\<lambda>e. slot_of (type d) (ht1 d) (key e) = i) (e # es)) @ t1 ! i"
  proof (intro allI impI)
    fix i assume i: "i < length t1"
    show "t1' ! i = rev (filter (\<lambda>e. slot_of (type d) (ht1 d) (key e) = i) (e # es)) @ t1 ! i"
    proof (cases "i = h")
      case True
      with t1'(2) i h show ?thesis by (simp add: h_def)
    next
      case False
      with t1'(2) i show ?thesis by (auto simp: h_def)
    qed
  qed
  have "rehash_chain d (e # es) =
      Some (d\<lparr>ht0 := (ht0 d)\<lparr>used := used (ht0 d) - of_nat (length (e # es))\<rparr>,
              ht1 := (ht1 d)\<lparr>table := Some t1',
                             used := used (ht1 d) + of_nat (length (e # es))\<rparr>\<rparr>)"
    unfolding step t1'(3) by (simp add: d1_def algebra_simps)
  with t1'(1) slots show ?case by blast
qed


lemma cint_succ:
  fixes i :: cint
  assumes "0 \<le> sint i" "i \<noteq> INT_MAX"
  shows "0 \<le> sint (i + 1)" "unat (i + 1) = Suc (unat i)"
proof -
  have s: "sint (i + 1) = sint i + 1" using assms(2) by (rule sint_succ)
  with assms(1) show nn: "0 \<le> sint (i + 1)" by simp
  from unat_nonneg [OF nn] unat_nonneg [OF assms(1)] s
  show "unat (i + 1) = Suc (unat i)" by linarith
qed

lemma cint_small:
  fixes i :: cint
  assumes "unat i < 2 ^ 30"
  shows "0 \<le> sint i" "i \<noteq> INT_MAX"
proof -
  have "uint i < 2 ^ 30"
    using assms by (metis of_nat_less_iff of_nat_numeral of_nat_power uint_nat)
  then show "0 \<le> sint i" by (simp add: sint_cases)
  show "i \<noteq> INT_MAX"
  proof
    assume "i = INT_MAX"
    then have "unat i = 2147483647" by (simp add: INT_MAX_def)
    with assms show False by simp
  qed
qed

lemma skip_empty_sound:
  assumes "skip_empty ht i = Some j"
  shows "\<exists>t. table ht = Some t \<and> 0 \<le> sint i \<and> 0 \<le> sint j \<and> unat i \<le> unat j \<and>
           unat j < length t \<and> t ! unat j \<noteq> [] \<and>
           (\<forall>l. unat i \<le> l \<and> l < unat j \<longrightarrow> t ! l = [])"
  using assms
proof (induction ht i rule: skip_empty.induct)
  case (1 ht i)
  from "1.prems" obtain c where c: "bucket_int ht i = Some c"
    by (subst (asm) skip_empty.simps) (auto split: option.splits)
  then have nn: "0 \<le> sint i" and b: "bucket ht (unat i) = Some c"
    by (auto simp: bucket_int_def not_sless_zero split: if_splits)
  from b obtain t where t: "table ht = Some t" "unat i < length t" "t ! unat i = c"
    by (auto simp: bucket_def split: option.splits if_splits)
  show ?case
  proof (cases "c = []")
    case False
    with "1.prems" c have "j = i" by (subst (asm) skip_empty.simps) simp
    with t nn False show ?thesis by auto
  next
    case True
    with "1.prems" c have ne: "i \<noteq> INT_MAX" and r: "skip_empty ht (i + 1) = Some j"
      by (subst (asm) skip_empty.simps, simp split: if_splits)+
    from "1.IH" [OF c True ne r] t(1) have ih: "0 \<le> sint j" "unat (i + 1) \<le> unat j"
      "unat j < length t" "t ! unat j \<noteq> []"
      "\<forall>l. unat (i + 1) \<le> l \<and> l < unat j \<longrightarrow> t ! l = []" by auto
    note su = cint_succ(2) [OF nn ne]
    have "\<forall>l. unat i \<le> l \<and> l < unat j \<longrightarrow> t ! l = []"
    proof (intro allI impI)
      fix l assume l: "unat i \<le> l \<and> l < unat j"
      show "t ! l = []"
      proof (cases "l = unat i")
        case True with t(3) \<open>c = []\<close> show ?thesis by simp
      next
        case False with l ih(5) su show ?thesis by simp
      qed
    qed
    with t(1) nn ih su show ?thesis by auto
  qed
qed

lemma skip_empty_complete:
  assumes "table ht = Some t" "length t \<le> 2 ^ 30" "unat i \<le> l" "l < length t" "t ! l \<noteq> []"
  shows "\<exists>j. skip_empty ht i = Some j"
  using assms(3)
proof (induction "l - unat i" arbitrary: i)
  case 0
  then have "unat i = l" by simp
  moreover have "0 \<le> sint i"
    using assms(2,4) \<open>unat i = l\<close> by (intro cint_small) simp
  ultimately have "bucket_int ht i = Some (t ! l)"
    using assms(1,4) by (simp add: bucket_int_def bucket_def not_sless_zero [symmetric])
  then show ?case using assms(5) by (subst skip_empty.simps) simp
next
  case (Suc x)
  then have lt: "unat i < l" by simp
  then have small: "unat i < 2 ^ 30" using assms(2,4) by simp
  note nn = cint_small [OF small]
  have b: "bucket_int ht i = Some (t ! unat i)"
    using assms(1,4) lt nn(1) by (simp add: bucket_int_def bucket_def not_sless_zero [symmetric])
  show ?case
  proof (cases "t ! unat i = []")
    case False
    with b show ?thesis by (subst skip_empty.simps) simp
  next
    case True
    have su: "unat (i + 1) = Suc (unat i)" by (rule cint_succ(2) [OF nn])
    have "x = l - unat (i + 1)" "unat (i + 1) \<le> l" using Suc.hyps(2) lt su by simp_all
    from Suc.hyps(1) [OF this] obtain j where "skip_empty ht (i + 1) = Some j" by blast
    with b True nn(2) show ?thesis by (subst skip_empty.simps) simp
  qed
qed


lemma nat_sint:
  fixes i :: cint
  assumes "0 \<le> sint i"
  shows "nat (sint i) = unat i"
  using unat_nonneg [OF assms] by linarith

lemma all_empty_take:
  "(\<forall>c \<in> set (take n t). c = []) \<longleftrightarrow> (\<forall>l < n. l < length t \<longrightarrow> t ! l = [])"
proof
  assume a: "\<forall>c \<in> set (take n t). c = []"
  show "\<forall>l < n. l < length t \<longrightarrow> t ! l = []"
  proof (intro allI impI)
    fix l assume l: "l < n" "l < length t"
    then have "take n t ! l \<in> set (take n t)" by (intro nth_mem) simp
    with a l show "t ! l = []" by simp
  qed
next
  assume "\<forall>l < n. l < length t \<longrightarrow> t ! l = []"
  then show "\<forall>c \<in> set (take n t). c = []" by (auto simp: in_set_conv_nth)
qed

lemma slot_in_range:
  assumes "ht_wf ty ht" "table ht = Some t"
  shows "slot_of ty ht k < length t"
proof -
  from wf_ht_alloc [OF assms] obtain n where n: "n \<le> 30" "size_ht ht = 2 ^ n"
    and len: "length t = unat (size_ht ht)" and m: "sizemask ht = size_ht ht - 1" by blast
  have "sizemask ht = mask n" using m n(2) by (simp add: mask_eq_decr_exp)
  then have "(ucast (sizemask ht) :: uint) = mask n"
    using n(1) by (simp add: ucast_mask_eq)
  then have "uint (hashFunction ty k AND ucast (sizemask ht)) < 2 ^ n"
    by (simp add: and_mask_lt_2p)
  then have "slot_of ty ht k < 2 ^ n"
    unfolding slot_of_def by (metis of_nat_less_iff of_nat_numeral of_nat_power uint_nat)
  moreover have "length t = 2 ^ n" using len n by (simp add: unat_pow2)
  ultimately show ?thesis by simp
qed

lemma dictRehash_body_Inl:
  assumes "dictRehash_body d = Some (Inl d')"
  shows "used (ht0 d) = 0 \<and> d' = d\<lparr>ht0 := ht1 d, ht1 := dictReset, rehashidx := - 1\<rparr>"
  using assms by (auto simp: dictRehash_body_def split: if_splits option.splits)

lemma dictRehash_body_Inr:
  assumes "dictRehash_body d = Some (Inr d')"
  shows "\<exists>i t d''. skip_empty (ht0 d) (rehashidx d) = Some i \<and> table (ht0 d) = Some t \<and>
           unat i < length t \<and> 0 \<le> sint i \<and> i \<noteq> INT_MAX \<and>
           rehash_chain (d\<lparr>rehashidx := i\<rparr>) (t ! unat i) = Some d'' \<and>
           d' = d''\<lparr>ht0 := set_bucket (ht0 d'') (unat i) [], rehashidx := i + 1\<rparr> \<and>
           used (ht0 d) \<noteq> 0 \<and> ucast (rehashidx d) < size_ht (ht0 d)"
proof -
  from assms have u: "used (ht0 d) \<noteq> 0" and a: "ucast (rehashidx d) < size_ht (ht0 d)"
    by (auto simp: dictRehash_body_def split: if_splits)
  with assms obtain i de d'' where i: "skip_empty (ht0 d) (rehashidx d) = Some i"
    and de: "bucket_int (ht0 d) i = Some de"
    and r: "rehash_chain (d\<lparr>rehashidx := i\<rparr>) de = Some d''"
    and ne: "i \<noteq> INT_MAX"
    and d': "d' = d''\<lparr>ht0 := set_bucket (ht0 d'') (unat i) [], rehashidx := i + 1\<rparr>"
    by (auto simp: dictRehash_body_def split: if_splits option.splits)
  from skip_empty_sound [OF i] obtain t where t: "table (ht0 d) = Some t" "0 \<le> sint i"
    "unat i < length t" by blast
  with de have "de = t ! unat i"
    by (simp add: bucket_int_def bucket_def not_sless_zero [symmetric])
  with i t r ne d' u a show ?thesis by blast
qed

lemma rehashing_succ:
  fixes i :: cint
  assumes "0 \<le> sint i" "i \<noteq> INT_MAX"
  shows "i + 1 \<noteq> - 1"
proof
  assume "i + 1 = - 1"
  then have "sint (i + 1) = sint (- 1 :: cint)" by (simp only:)
  then have "sint (i + 1) = - 1" by simp
  with cint_succ(1) [OF assms] show False by simp
qed

lemma dictRehash_body_cursor:
  assumes "dictRehash_body d = Some (Inr d')" "cursor_inv d" "dictIsRehashing d"
  shows "cursor_inv d' \<and> dictIsRehashing d'"
proof -
  from dictRehash_body_Inr [OF assms(1)] obtain i t d'' where
    i: "skip_empty (ht0 d) (rehashidx d) = Some i" and t: "table (ht0 d) = Some t"
    and lt: "unat i < length t" and nn: "0 \<le> sint i" and ne: "i \<noteq> INT_MAX"
    and r: "rehash_chain (d\<lparr>rehashidx := i\<rparr>) (t ! unat i) = Some d''"
    and d': "d' = d''\<lparr>ht0 := set_bucket (ht0 d'') (unat i) [], rehashidx := i + 1\<rparr>"
    by blast
  from skip_empty_sound [OF i] t have c0: "0 \<le> sint (rehashidx d)"
    and between: "\<forall>l. unat (rehashidx d) \<le> l \<and> l < unat i \<longrightarrow> t ! l = []" by auto
  from rehash_chain_frame [OF r] t have t': "table (ht0 d') = Some (t[unat i := []])"
    and idx: "rehashidx d' = i + 1"
    by (simp_all add: d' set_bucket_def)
  have reh: "dictIsRehashing d'"
    using rehashing_succ [OF nn ne] by (simp add: dictIsRehashing_def idx)
  have "nat (sint (i + 1)) = unat (i + 1)"
    by (rule nat_sint [OF cint_succ(1) [OF nn ne]])
  then have n: "nat (sint (i + 1)) = Suc (unat i)"
    by (simp only: cint_succ(2) [OF nn ne])
  have below: "\<forall>l < nat (sint (rehashidx d)). l < length t \<longrightarrow> t ! l = []"
    using assms(2,3) t by (simp add: cursor_inv_def all_empty_take)
  have c: "nat (sint (rehashidx d)) = unat (rehashidx d)"
    by (rule nat_sint [OF c0])
  have "\<forall>l < Suc (unat i). l < length (t[unat i := []]) \<longrightarrow> t[unat i := []] ! l = []"
  proof (intro allI impI)
    fix l assume l: "l < Suc (unat i)" "l < length (t[unat i := []])"
    show "t[unat i := []] ! l = []"
    proof (cases "l = unat i")
      case True with lt show ?thesis by simp
    next
      case False
      with l have "l < unat i" by simp
      moreover have "t ! l = []"
      proof (cases "l < unat (rehashidx d)")
        case True with below c l(2) show ?thesis by simp
      next
        case False with between \<open>l < unat i\<close> show ?thesis by simp
      qed
      ultimately show ?thesis using False by simp
    qed
  qed
  then have "cursor_inv d'"
    by (simp add: cursor_inv_def t' idx n all_empty_take del: take_Suc_conv_app_nth)
  with reh show ?thesis by simp
qed

lemma dictRehash_loop_cursor:
  assumes "dictRehash_loop d n = Some (r, d')" "cursor_inv d" "dictIsRehashing d"
  shows "cursor_inv d'"
  using assms
proof (induction d n rule: dictRehash_loop.induct)
  case (1 d n)
  show ?case
  proof (cases "n = 0")
    case True
    with "1.prems" show ?thesis by (subst (asm) dictRehash_loop.simps) simp
  next
    case False
    from "1.prems"(1) False obtain x where x: "dictRehash_body d = Some x"
      by (subst (asm) dictRehash_loop.simps) (auto split: option.splits)
    show ?thesis
    proof (cases x)
      case (Inl d1)
      with "1.prems"(1) False x have "d' = d1"
        by (subst (asm) dictRehash_loop.simps) simp
      moreover have "\<not> dictIsRehashing d1"
        using dictRehash_body_Inl [of d d1] x Inl by (simp add: dictIsRehashing_def)
      ultimately show ?thesis by (simp add: cursor_inv_def)
    next
      case (Inr d1)
      with "1.prems"(1) False x have l: "dictRehash_loop d1 (n - 1) = Some (r, d')"
        by (subst (asm) dictRehash_loop.simps) simp
      from dictRehash_body_cursor [of d d1] x Inr "1.prems"(2,3)
      have "cursor_inv d1" "dictIsRehashing d1" by simp_all
      with "1.IH" [OF False x Inr l] show ?thesis by simp
    qed
  qed
qed

lemma dictRehash_cursor:
  assumes "dictRehash d n = Some (r, d')" "cursor_inv d"
  shows "cursor_inv d'"
  using assms dictRehash_loop_cursor [of d n r d']
  by (auto simp: dictRehash_def split: if_splits)

lemma dictRehashStep_cursor:
  assumes "dictRehashStep d = Some d'" "cursor_inv d"
  shows "cursor_inv d'"
  using assms dictRehash_cursor [of d 1 _ d']
  by (auto simp: dictRehashStep_def split: if_splits)


subsection \<open>C3: the slots below the cursor are empty\<close>

lemma cursor_inv_cong:
  assumes "table (ht0 d') = table (ht0 d)" "rehashidx d' = rehashidx d"
  shows "cursor_inv d' \<longleftrightarrow> cursor_inv d"
  unfolding cursor_inv_def dictIsRehashing_def assms ..

lemma cursor_inv_stable:
  assumes "\<not> dictIsRehashing d"
  shows "cursor_inv d"
  using assms by (simp add: cursor_inv_def)

lemma cursor_inv_zero:
  assumes "rehashidx d = 0"
  shows "cursor_inv d"
  using assms by (simp add: cursor_inv_def split: option.splits)

lemma dictExpand_cursor:
  assumes "dictExpand d sz = Some (st, d')" "cursor_inv d"
  shows "cursor_inv d'"
proof (cases "d' = d")
  case True
  with assms show ?thesis by simp
next
  case False
  with assms(1) have "\<not> dictIsRehashing d' \<or> rehashidx d' = 0"
    by (auto simp: dictExpand_def Let_def dictIsRehashing_def split: if_splits option.splits)
  then show ?thesis using cursor_inv_stable cursor_inv_zero by blast
qed

lemma dictExpandIfNeeded_cursor:
  assumes "dictExpandIfNeeded can d = Some (st, d')" "cursor_inv d"
  shows "cursor_inv d'"
  using assms dictExpand_cursor [of d _ st d']
  by (auto simp: dictExpandIfNeeded_def split: if_splits)

lemma dictKeyIndex_cursor:
  assumes "dictKeyIndex can d k = Some (i, d')" "cursor_inv d"
  shows "cursor_inv d'"
proof -
  from assms(1) obtain st where "dictExpandIfNeeded can d = Some (st, d')"
    by (auto simp: dictKeyIndex_def Let_def split: option.splits status.splits if_splits)
  then show ?thesis using assms(2) by (rule dictExpandIfNeeded_cursor)
qed

lemma step_if_cursor:
  assumes "(if dictIsRehashing d then dictRehashStep d else Some d) = Some d1" "cursor_inv d"
  shows "cursor_inv d1"
  using assms dictRehashStep_cursor [of d d1] by (auto split: if_splits)

lemma dictAddRaw_cursor:
  assumes "dictAddRaw can d k = Some (e, d')" "cursor_inv d"
  shows "cursor_inv d' \<and> (\<forall>i. e = Some (0, i) \<longrightarrow> \<not> dictIsRehashing d')"
proof -
  from assms(1) obtain d1 where d1: "(if dictIsRehashing d then dictRehashStep d else Some d) = Some d1"
    by (auto simp: dictAddRaw_def split: option.splits)
  with assms(1) obtain index d2 where d2: "dictKeyIndex can d1 k = Some (index, d2)"
    by (auto simp: dictAddRaw_def split: option.splits)
  have c2: "cursor_inv d2"
    using dictKeyIndex_cursor [OF d2] step_if_cursor [OF d1 assms(2)] by simp
  show ?thesis
  proof (cases "index = - 1")
    case True
    with assms(1) d1 d2 c2 show ?thesis by (simp add: dictAddRaw_def)
  next
    case False
    show ?thesis
    proof (cases "dictIsRehashing d2")
      case True
      with assms(1) d1 d2 False obtain c where
        "d' = d2\<lparr>ht1 := (set_bucket (ht1 d2) (unat index) (\<lparr>key = k, val = None\<rparr> # c))
                     \<lparr>used := used (ht1 d2) + 1\<rparr>\<rparr>" "e = Some (1, unat index)"
        by (auto simp: dictAddRaw_def split: option.splits)
      then show ?thesis using c2 cursor_inv_cong [of d' d2] by simp
    next
      case nr: False
      with assms(1) d1 d2 False obtain c where
        "d' = d2\<lparr>ht0 := (set_bucket (ht0 d2) (unat index) (\<lparr>key = k, val = None\<rparr> # c))
                     \<lparr>used := used (ht0 d2) + 1\<rparr>\<rparr>"
        by (auto simp: dictAddRaw_def split: option.splits)
      then have "\<not> dictIsRehashing d'" using nr by (simp add: dictIsRehashing_def)
      then show ?thesis using cursor_inv_stable by blast
    qed
  qed
qed

lemma dictAdd_cursor:
  assumes "dictAdd can d k v = Some (st, d')" "cursor_inv d"
  shows "cursor_inv d'"
proof -
  from assms(1) obtain e d2 where r: "dictAddRaw can d k = Some (e, d2)"
    by (auto simp: dictAdd_def split: option.splits)
  note c = dictAddRaw_cursor [OF r assms(2)]
  show ?thesis
  proof (cases e)
    case None
    with assms(1) r c show ?thesis by (simp add: dictAdd_def)
  next
    case (Some p)
    with assms(1) r have s: "dictSetVal d2 p v = Some d'"
      by (auto simp: dictAdd_def)
    show ?thesis
    proof (cases "fst p = 0")
      case True
      with c Some have "\<not> dictIsRehashing d2" by (cases p) simp
      moreover from s have "rehashidx d' = rehashidx d2"
        by (auto simp: dictSetVal_def split: option.splits list.splits if_splits)
      ultimately have "\<not> dictIsRehashing d'" by (simp add: dictIsRehashing_def)
      then show ?thesis by (rule cursor_inv_stable)
    next
      case False
      with s have "table (ht0 d') = table (ht0 d2)" "rehashidx d' = rehashidx d2"
        by (auto simp: dictSetVal_def split: option.splits list.splits)
      then show ?thesis using c cursor_inv_cong [of d' d2] by simp
    qed
  qed
qed

lemma dictFind_cursor:
  assumes "dictFind d k = Some (e, d')" "cursor_inv d"
  shows "cursor_inv d'"
proof (cases "size_ht (ht0 d) = 0")
  case True
  with assms show ?thesis by (simp add: dictFind_def)
next
  case False
  with assms(1) obtain d1 where d1: "(if dictIsRehashing d then dictRehashStep d else Some d) = Some d1"
    by (auto simp: dictFind_def split: option.splits)
  with assms(1) False have "d' = d1"
    by (auto simp: dictFind_def Let_def split: option.splits if_splits)
  with step_if_cursor [OF d1 assms(2)] show ?thesis by simp
qed

lemma chain_unlink_nonempty:
  assumes "chain_unlink d k c = Some c'"
  shows "c \<noteq> []"
  using assms by (cases c) simp_all

lemma cursor_inv_unlink:
  assumes "cursor_inv d" "bucket (ht0 d) i = Some c" "c \<noteq> []"
  shows "cursor_inv (d\<lparr>ht0 := (set_bucket (ht0 d) i c')\<lparr>used := u\<rparr>\<rparr>)"
proof (cases "dictIsRehashing d")
  case False
  then have "\<not> dictIsRehashing (d\<lparr>ht0 := (set_bucket (ht0 d) i c')\<lparr>used := u\<rparr>\<rparr>)"
    by (simp add: dictIsRehashing_def)
  then show ?thesis by (rule cursor_inv_stable)
next
  case True
  from assms(2) obtain t where t: "table (ht0 d) = Some t" "i < length t" "t ! i = c"
    by (auto simp: bucket_def split: option.splits if_splits)
  have below: "\<forall>l < nat (sint (rehashidx d)). l < length t \<longrightarrow> t ! l = []"
    using assms(1) True t by (simp add: cursor_inv_def all_empty_take)
  with t assms(3) have "\<not> i < nat (sint (rehashidx d))" by auto
  with below have "\<forall>l < nat (sint (rehashidx d)). l < length (t[i := c']) \<longrightarrow> t[i := c'] ! l = []"
    by auto
  then show ?thesis
    using True t by (simp add: cursor_inv_def all_empty_take set_bucket_def dictIsRehashing_def)
qed

lemma dictGenericDelete_cursor:
  assumes "dictGenericDelete d k nofree = Some (st, d')" "cursor_inv d"
  shows "cursor_inv d'"
proof (cases "size_ht (ht0 d) = 0")
  case True
  with assms show ?thesis by (simp add: dictGenericDelete_def)
next
  case False
  with assms(1) obtain d1 where d1: "(if dictIsRehashing d then dictRehashStep d else Some d) = Some d1"
    by (auto simp: dictGenericDelete_def split: option.splits)
  note c1 = step_if_cursor [OF d1 assms(2)]
  define idx0 where "idx0 = unat (dictHashKey d1 k AND ucast (sizemask (ht0 d1)))"
  define idx1 where "idx1 = unat (dictHashKey d1 k AND ucast (sizemask (ht1 d1)))"
  from assms(1) False d1 obtain he0 where he0: "bucket (ht0 d1) idx0 = Some he0"
    by (auto simp: dictGenericDelete_def Let_def idx0_def split: option.splits)
  show ?thesis
  proof (cases "chain_unlink d1 k he0")
    case (Some c)
    with assms(1) False d1 he0 have
      "d' = d1\<lparr>ht0 := (set_bucket (ht0 d1) idx0 c)\<lparr>used := used (ht0 d1) - 1\<rparr>\<rparr>"
      by (auto simp: dictGenericDelete_def Let_def idx0_def)
    then show ?thesis
      using cursor_inv_unlink [OF c1 he0 chain_unlink_nonempty [OF Some]] by simp
  next
    case None
    show ?thesis
    proof (cases "dictIsRehashing d1")
      case nr: False
      with assms(1) False d1 he0 None have "d' = d1"
        by (auto simp: dictGenericDelete_def Let_def idx0_def)
      with c1 show ?thesis by simp
    next
      case True
      with assms(1) False d1 he0 None obtain he1 where he1: "bucket (ht1 d1) idx1 = Some he1"
        by (auto simp: dictGenericDelete_def Let_def idx0_def idx1_def split: option.splits)
      with assms(1) False d1 he0 None True
      have "d' = d1 \<or> (\<exists>c. d' = d1\<lparr>ht1 := (set_bucket (ht1 d1) idx1 c)\<lparr>used := used (ht1 d1) - 1\<rparr>\<rparr>)"
        by (auto simp: dictGenericDelete_def Let_def idx0_def idx1_def split: option.splits)
      then show ?thesis using c1 cursor_inv_cong [of d' d1] by auto
    qed
  qed
qed

lemma dictNext_step_frame:
  assumes "dictNext_step d it = Some x"
  shows "(case x of Inl (d', it') \<Rightarrow> d' = d \<or> d' = d\<lparr>iterators := iterators d + 1\<rparr>
                  | Inr (d', it') \<Rightarrow> d' = d \<or> d' = d\<lparr>iterators := iterators d + 1\<rparr>)"
  using assms
  by (auto simp: dictNext_step_def Let_def split: if_splits option.splits)

lemma dictNext_frame:
  assumes "dictNext d it = Some (e, d', it')"
  shows "type d' = type d \<and> ht0 d' = ht0 d \<and> ht1 d' = ht1 d \<and> rehashidx d' = rehashidx d"
  using assms
proof (induction d it rule: dictNext.induct)
  case (1 d iter)
  from "1.prems" obtain x where x: "dictNext_step d iter = Some x"
    by (subst (asm) dictNext.simps) (auto split: option.splits)
  note f = dictNext_step_frame [OF x]
  show ?case
  proof (cases x)
    case (Inl p)
    with "1.prems" x f show ?thesis
      by (subst (asm) dictNext.simps) (auto split: prod.splits)
  next
    case (Inr p)
    obtain d1 it1 where p: "p = (d1, it1)" by (cases p)
    from f Inr p have f1: "type d1 = type d \<and> ht0 d1 = ht0 d \<and> ht1 d1 = ht1 d \<and> rehashidx d1 = rehashidx d"
      by auto
    show ?thesis
    proof (cases "entry it1")
      case Nil
      with "1.prems" x Inr p have "dictNext d1 it1 = Some (e, d', it')"
        by (subst (asm) dictNext.simps) simp
      from "1.IH" [OF x Inr p [symmetric] Nil this] f1 show ?thesis by simp
    next
      case (Cons he nxt)
      with "1.prems" x Inr p have "d' = d1"
        by (subst (asm) dictNext.simps) simp
      with f1 show ?thesis by simp
    qed
  qed
qed

lemma dictNext_cursor:
  assumes "dictNext d it = Some (e, d', it')" "cursor_inv d"
  shows "cursor_inv d'"
  using dictNext_frame [OF assms(1)] assms(2) cursor_inv_cong [of d' d] by simp

lemma dictGetRandomKey_cursor:
  assumes "dictGetRandomKey d rs = Some (e, d', rs')" "cursor_inv d"
  shows "cursor_inv d'"
proof (cases "dictSize d = 0")
  case True
  with assms show ?thesis by (simp add: dictGetRandomKey_def)
next
  case False
  with assms(1) obtain d1 where d1: "(if dictIsRehashing d then dictRehashStep d else Some d) = Some d1"
    by (auto simp: dictGetRandomKey_def split: option.splits)
  with assms(1) False have "d' = d1"
    by (auto simp: dictGetRandomKey_def split: option.splits list.splits if_splits)
  with step_if_cursor [OF d1 assms(2)] show ?thesis by simp
qed

lemma Some_the:
  assumes "map_option (\<lambda>_. ()) x = Some ()"
  shows "x = Some (the x)"
  using assms by (cases x) simp_all

text \<open>
  C3. The cursor invariant (while rehashing is active, every primary slot below the cursor
  has an empty chain) is preserved by every operation: whenever \<^verbatim>\<open>dictAdd\<close>,
  \<^verbatim>\<open>dictFind\<close>, \<^verbatim>\<open>dictGenericDelete\<close>, \<^verbatim>\<open>dictRehash\<close>, \<^verbatim>\<open>dictNext\<close> or
  \<^verbatim>\<open>dictGetRandomKey\<close> returns from a table that satisfies it, the table it leaves
  satisfies it. No other assumption on the table is made.
\<close>

theorem cursor_invariant_preserved:
  assumes "cursor_inv d"
  shows "(\<forall>can_resize k v st d'. dictAdd can_resize d k v = Some (st, d') \<longrightarrow> cursor_inv d') \<and>
         (\<forall>k e d'. dictFind d k = Some (e, d') \<longrightarrow> cursor_inv d') \<and>
         (\<forall>k nofree st d'. dictGenericDelete d k nofree = Some (st, d') \<longrightarrow> cursor_inv d') \<and>
         (\<forall>n r d'. dictRehash d n = Some (r, d') \<longrightarrow> cursor_inv d') \<and>
         (\<forall>iter e d' iter'. dictNext d iter = Some (e, d', iter') \<longrightarrow> cursor_inv d') \<and>
         (\<forall>rs e d' rs'. dictGetRandomKey d rs = Some (e, d', rs') \<longrightarrow> cursor_inv d')"
proof (intro conjI allI impI)
  fix can_resize k v st d'
  assume "dictAdd can_resize d k v = Some (st, d')"
  then show "cursor_inv d'" using assms by (rule dictAdd_cursor)
next
  fix k e d'
  assume "dictFind d k = Some (e, d')"
  then show "cursor_inv d'" using assms by (rule dictFind_cursor)
next
  fix k nofree st d'
  assume "dictGenericDelete d k nofree = Some (st, d')"
  then show "cursor_inv d'" using assms by (rule dictGenericDelete_cursor)
next
  fix n r d'
  assume "dictRehash d n = Some (r, d')"
  then show "cursor_inv d'" using assms by (rule dictRehash_cursor)
next
  fix iter e d' iter'
  assume "dictNext d iter = Some (e, d', iter')"
  then show "cursor_inv d'" using assms by (rule dictNext_cursor)
next
  fix rs e d' rs'
  assume "dictGetRandomKey d rs = Some (e, d', rs')"
  then show "cursor_inv d'" using assms by (rule dictGetRandomKey_cursor)
qed


theorem cursor_invariant_preserved_witness:
  "cursor_inv ex_rehashing \<and> dictIsRehashing ex_rehashing \<and>
   dictAdd True ex_rehashing 5 50 = Some (the (dictAdd True ex_rehashing 5 50)) \<and>
   dictIsRehashing (snd (the (dictAdd True ex_rehashing 5 50))) \<and>
   cursor_inv (snd (the (dictAdd True ex_rehashing 5 50))) \<and>
   dictFind ex_rehashing 7 = Some (the (dictFind ex_rehashing 7)) \<and>
   dictIsRehashing (snd (the (dictFind ex_rehashing 7))) \<and>
   cursor_inv (snd (the (dictFind ex_rehashing 7))) \<and>
   dictGenericDelete ex_rehashing 7 False = Some (the (dictGenericDelete ex_rehashing 7 False)) \<and>
   dictIsRehashing (snd (the (dictGenericDelete ex_rehashing 7 False))) \<and>
   cursor_inv (snd (the (dictGenericDelete ex_rehashing 7 False))) \<and>
   dictRehash ex_rehashing 1 = Some (the (dictRehash ex_rehashing 1)) \<and>
   dictIsRehashing (snd (the (dictRehash ex_rehashing 1))) \<and>
   cursor_inv (snd (the (dictRehash ex_rehashing 1))) \<and>
   dictNext ex_rehashing dictGetSafeIterator = Some (the (dictNext ex_rehashing dictGetSafeIterator)) \<and>
   dictIsRehashing (fst (snd (the (dictNext ex_rehashing dictGetSafeIterator)))) \<and>
   cursor_inv (fst (snd (the (dictNext ex_rehashing dictGetSafeIterator)))) \<and>
   dictGetRandomKey ex_rehashing [3, 0] = Some (the (dictGetRandomKey ex_rehashing [3, 0])) \<and>
   dictIsRehashing (fst (snd (the (dictGetRandomKey ex_rehashing [3, 0])))) \<and>
   cursor_inv (fst (snd (the (dictGetRandomKey ex_rehashing [3, 0]))))"
proof -
  let ?A = "dictAdd True ex_rehashing 5 50"
  let ?F = "dictFind ex_rehashing 7"
  let ?D = "dictGenericDelete ex_rehashing 7 False"
  let ?R = "dictRehash ex_rehashing 1"
  let ?N = "dictNext ex_rehashing dictGetSafeIterator"
  let ?K = "dictGetRandomKey ex_rehashing [3, 0]"
  have h: "cursor_inv ex_rehashing" and r: "dictIsRehashing ex_rehashing" by code_simp+
  note t = cursor_invariant_preserved [OF h]
  have a: "?A = Some (the ?A)" by (rule Some_the) code_simp
  have f: "?F = Some (the ?F)" by (rule Some_the) code_simp
  have d: "?D = Some (the ?D)" by (rule Some_the) code_simp
  have s: "?R = Some (the ?R)" by (rule Some_the) code_simp
  have n: "?N = Some (the ?N)" by (rule Some_the) code_simp
  have k: "?K = Some (the ?K)" by (rule Some_the) code_simp
  have ra: "dictIsRehashing (snd (the ?A))" by code_simp
  have rf: "dictIsRehashing (snd (the ?F))" by code_simp
  have rd: "dictIsRehashing (snd (the ?D))" by code_simp
  have rs: "dictIsRehashing (snd (the ?R))" by code_simp
  have rn: "dictIsRehashing (fst (snd (the ?N)))" by code_simp
  have rk: "dictIsRehashing (fst (snd (the ?K)))" by code_simp
  have ca: "cursor_inv (snd (the ?A))"
    using t a by (metis prod.collapse)
  have cf: "cursor_inv (snd (the ?F))"
    using t f by (metis prod.collapse)
  have cd: "cursor_inv (snd (the ?D))"
    using t d by (metis prod.collapse)
  have cs: "cursor_inv (snd (the ?R))"
    using t s by (metis prod.collapse)
  have cn: "cursor_inv (fst (snd (the ?N)))"
    using t n by (metis prod.collapse)
  have ck: "cursor_inv (fst (snd (the ?K)))"
    using t k by (metis prod.collapse)
  show ?thesis
    using h r a ra ca f rf cf d rd cd s rs cs n rn cn k rk ck by (intro conjI)
qed


subsection \<open>C10: the counter of safe iterators\<close>

lemma dictNext_step_counter:
  assumes "dictNext_step d iter = Some x" "it_ok iter"
  shows "case (case x of Inl p \<Rightarrow> p | Inr p \<Rightarrow> p) of (d', iter') \<Rightarrow>
           it_ok iter' \<and> \<not> it_fresh iter' \<and> safe iter' = safe iter \<and>
           iterators d' = iterators d + (if safe iter \<noteq> 0 \<and> it_fresh iter then 1 else 0)"
proof (cases "entry iter = []")
  case False
  with assms(2) have "it_index iter \<noteq> - 1" by (auto simp: it_ok_def)
  with assms False show ?thesis
    by (auto simp: dictNext_step_def it_ok_def it_fresh_def)
next
  case True
  from assms(1) True have ne: "it_index iter \<noteq> INT_MAX"
    by (auto simp: dictNext_step_def Let_def split: if_splits)
  have s: "sint (it_index iter + 1) = sint (it_index iter) + 1" by (rule sint_succ [OF ne])
  have nn: "0 \<le> sint (it_index iter + 1)" using s assms(2) by (simp add: it_ok_def)
  have n1: "it_index iter + 1 \<noteq> - 1"
  proof
    assume "it_index iter + 1 = - 1"
    then have "sint (it_index iter + 1) = sint (- 1 :: cint)" by (simp only:)
    with nn show False by simp
  qed
  from assms(1) True n1 nn show ?thesis
    by (auto simp: dictNext_step_def Let_def it_ok_def it_fresh_def
        split: if_splits option.splits)
qed

lemma dictNext_counter:
  assumes "dictNext d iter = Some (e, d', iter')" "it_ok iter"
  shows "it_ok iter' \<and> \<not> it_fresh iter' \<and> safe iter' = safe iter \<and>
         iterators d' = iterators d + (if safe iter \<noteq> 0 \<and> it_fresh iter then 1 else 0)"
  using assms
proof (induction d iter rule: dictNext.induct)
  case (1 d iter)
  from "1.prems"(1) obtain x where x: "dictNext_step d iter = Some x"
    by (subst (asm) dictNext.simps) (auto split: option.splits)
  note st = dictNext_step_counter [OF x "1.prems"(2)]
  show ?case
  proof (cases x)
    case (Inl p)
    with "1.prems"(1) x have "p = (d', iter')"
      by (subst (asm) dictNext.simps) (auto split: prod.splits)
    with st Inl show ?thesis by simp
  next
    case (Inr p)
    obtain d1 it1 where p: "p = (d1, it1)" by (cases p)
    from st Inr p have s1: "it_ok it1" "\<not> it_fresh it1" "safe it1 = safe iter"
      "iterators d1 = iterators d + (if safe iter \<noteq> 0 \<and> it_fresh iter then 1 else 0)"
      by simp_all
    show ?thesis
    proof (cases "entry it1")
      case Nil
      with "1.prems"(1) x Inr p have r: "dictNext d1 it1 = Some (e, d', iter')"
        by (subst (asm) dictNext.simps) simp
      from "1.IH" [OF x Inr p [symmetric] Nil r s1(1)] s1 show ?thesis by simp
    next
      case (Cons he nxt)
      with "1.prems"(1) x Inr p have "d' = d1" "iter' = it1\<lparr>nextEntry := nxt\<rparr>"
        by (subst (asm) dictNext.simps, simp)+
      with s1 show ?thesis by (simp add: it_ok_def it_fresh_def)
    qed
  qed
qed

lemma dictReleaseIterator_counter:
  assumes "dictReleaseIterator d iter = Some d'"
  shows "iterators d' = iterators d - (if safe iter \<noteq> 0 \<and> \<not> it_fresh iter then 1 else 0)"
  using assms by (auto simp: dictReleaseIterator_def it_fresh_def split: if_splits)

lemma sum_list_update_ring:
  fixes f :: "'a \<Rightarrow> cint"
  assumes "i < length xs"
  shows "sum_list (map f (xs[i := y])) = sum_list (map f xs) - f (xs ! i) + f y"
  using assms
proof (induction xs arbitrary: i)
  case Nil
  then show ?case by simp
next
  case (Cons x xs)
  then show ?case by (cases i) simp_all
qed

lemma fresh_iterators:
  "it_ok dictGetIterator" "it_ok dictGetSafeIterator"
  "holds_claim (Some dictGetIterator) = 0" "holds_claim (Some dictGetSafeIterator) = 0"
  by (simp_all add: it_ok_def dictGetIterator_def dictGetSafeIterator_def holds_claim_def
      it_fresh_def)

lemma exec_it_inv:
  assumes "exec_it s x = Some s'" "it_inv c s"
  shows "it_inv c s'"
proof -
  obtain d its where s: "s = (d, its)" by (cases s)
  from assms(2) s have cnt: "iterators d = c + sum_list (map holds_claim its)"
    and ok: "\<And>iter. Some iter \<in> set its \<Longrightarrow> it_ok iter"
    by (simp_all add: it_inv_def)
  show ?thesis
  proof (cases x)
    case GetIterator
    with assms(1) s cnt ok fresh_iterators show ?thesis by (auto simp: it_inv_def)
  next
    case GetSafeIterator
    with assms(1) s cnt ok fresh_iterators show ?thesis by (auto simp: it_inv_def)
  next
    case (Next i)
    with assms(1) s obtain iter e d' iter' where i: "i < length its" "its ! i = Some iter"
      and n: "dictNext d iter = Some (e, d', iter')" and s': "s' = (d', its[i := Some iter'])"
      by (auto split: if_splits option.splits)
    from i have mem: "Some iter \<in> set its" by (metis nth_mem)
    note c1 = dictNext_counter [OF n ok [OF mem]]
    have "holds_claim (Some iter') = holds_claim (Some iter)
            + (if safe iter \<noteq> 0 \<and> it_fresh iter then 1 else 0)"
      using c1 by (simp add: holds_claim_def)
    then have "iterators d' = c + sum_list (map holds_claim (its[i := Some iter']))"
      using c1 cnt i by (simp add: sum_list_update_ring)
    moreover have "\<And>it. Some it \<in> set (its[i := Some iter']) \<Longrightarrow> it_ok it"
      using ok c1 by (auto dest!: set_update_subset_insert [THEN subsetD])
    ultimately show ?thesis by (simp add: it_inv_def s')
  next
    case (Release i)
    with assms(1) s obtain iter d' where i: "i < length its" "its ! i = Some iter"
      and n: "dictReleaseIterator d iter = Some d'" and s': "s' = (d', its[i := None])"
      by (auto split: if_splits option.splits)
    note c1 = dictReleaseIterator_counter [OF n]
    have "iterators d' = c + sum_list (map holds_claim (its[i := None]))"
      using c1 cnt i by (simp add: sum_list_update_ring holds_claim_def)
    moreover have "\<And>it. Some it \<in> set (its[i := None]) \<Longrightarrow> it_ok it"
      using ok by (auto dest!: set_update_subset_insert [THEN subsetD])
    ultimately show ?thesis by (simp add: it_inv_def s')
  qed
qed

lemma run_it_inv:
  assumes "run_it s xs = Some s'" "it_inv c s"
  shows "it_inv c s'"
  using assms
proof (induction xs arbitrary: s)
  case Nil
  then show ?case by simp
next
  case (Cons x xs)
  from Cons.prems(1) obtain s1 where s1: "exec_it s x = Some s1" "run_it s1 xs = Some s'"
    by (auto split: option.splits)
  from Cons.IH [OF s1(2) exec_it_inv [OF s1(1) Cons.prems(2)]] show ?case .
qed

text \<open>
  C10. \<^verbatim>\<open>dictNext\<close> increments the counter by one exactly when the iterator is safe and
  fresh, and never otherwise (so never for an unsafe iterator, and never on a later
  advance, since the iterator it returns is not fresh); \<^verbatim>\<open>dictReleaseIterator\<close>
  decrements it by one exactly when the iterator is safe and not fresh; releasing an
  iterator that was never advanced leaves the table unchanged; and after every sequence
  of creations, advances and releases, started without iterators, that leaves no iterator
  unreleased, the counter has its initial value.
\<close>

theorem safe_iterator_counter_balanced:
  "(\<forall>e d' iter'. it_ok iter \<and> dictNext d iter = Some (e, d', iter') \<longrightarrow>
      iterators d' = iterators d + (if safe iter \<noteq> 0 \<and> it_fresh iter then 1 else 0) \<and>
      \<not> it_fresh iter' \<and> it_ok iter' \<and> safe iter' = safe iter) \<and>
   (\<forall>d'. dictReleaseIterator d iter = Some d' \<longrightarrow>
      iterators d' = iterators d - (if safe iter \<noteq> 0 \<and> \<not> it_fresh iter then 1 else 0)) \<and>
   dictReleaseIterator d dictGetSafeIterator = Some d \<and>
   dictReleaseIterator d dictGetIterator = Some d \<and>
   (\<forall>ops d' its'. run_it (d, []) ops = Some (d', its') \<and> (\<forall>x \<in> set its'. x = None) \<longrightarrow>
      iterators d' = iterators d)"
proof (intro conjI allI impI)
  fix e d' iter'
  assume a: "it_ok iter \<and> dictNext d iter = Some (e, d', iter')"
  then have n: "dictNext d iter = Some (e, d', iter')" and ok: "it_ok iter" by simp_all
  from dictNext_counter [OF n ok]
  show "iterators d' = iterators d + (if safe iter \<noteq> 0 \<and> it_fresh iter then 1 else 0)"
    "\<not> it_fresh iter'" "it_ok iter'" "safe iter' = safe iter" by simp_all
next
  fix d'
  assume "dictReleaseIterator d iter = Some d'"
  then show "iterators d' = iterators d - (if safe iter \<noteq> 0 \<and> \<not> it_fresh iter then 1 else 0)"
    by (rule dictReleaseIterator_counter)
next
  show "dictReleaseIterator d dictGetSafeIterator = Some d"
    by (simp add: dictReleaseIterator_def dictGetSafeIterator_def dictGetIterator_def)
  show "dictReleaseIterator d dictGetIterator = Some d"
    by (simp add: dictReleaseIterator_def dictGetIterator_def)
next
  fix ops d' its'
  assume a: "run_it (d, []) ops = Some (d', its') \<and> (\<forall>x \<in> set its'. x = None)"
  have "it_inv (iterators d) (d, [])" by (simp add: it_inv_def)
  with a have "it_inv (iterators d) (d', its')" using run_it_inv by blast
  then have "iterators d' = iterators d + sum_list (map holds_claim its')"
    by (simp add: it_inv_def)
  moreover have "map holds_claim its' = map (\<lambda>_. 0) its'"
    using a by (intro map_cong) (auto simp: holds_claim_def)
  ultimately show "iterators d' = iterators d" by simp
qed


theorem safe_iterator_counter_balanced_witness:
  "it_ok (dictGetSafeIterator :: (nat, nat) dictIterator) \<and>
   dictNext ex_stable dictGetSafeIterator = Some (the (dictNext ex_stable dictGetSafeIterator)) \<and>
   iterators (fst (snd (the (dictNext ex_stable dictGetSafeIterator)))) = iterators ex_stable + 1 \<and>
   dictReleaseIterator (fst (snd (the (dictNext ex_stable dictGetSafeIterator))))
       (snd (snd (the (dictNext ex_stable dictGetSafeIterator))))
     = Some (the (dictReleaseIterator (fst (snd (the (dictNext ex_stable dictGetSafeIterator))))
                    (snd (snd (the (dictNext ex_stable dictGetSafeIterator)))))) \<and>
   iterators (the (dictReleaseIterator (fst (snd (the (dictNext ex_stable dictGetSafeIterator))))
                    (snd (snd (the (dictNext ex_stable dictGetSafeIterator))))))
     = iterators (fst (snd (the (dictNext ex_stable dictGetSafeIterator)))) - 1 \<and>
   run_it (ex_stable, [])
       [GetSafeIterator, Next 0, GetIterator, Next 1, GetSafeIterator, Next 0, Release 0,
        Release 2, Release 1]
     = Some (the (run_it (ex_stable, [])
         [GetSafeIterator, Next 0, GetIterator, Next 1, GetSafeIterator, Next 0, Release 0,
          Release 2, Release 1])) \<and>
   snd (the (run_it (ex_stable, [])
         [GetSafeIterator, Next 0, GetIterator, Next 1, GetSafeIterator, Next 0, Release 0,
          Release 2, Release 1])) = [None, None, None] \<and>
   iterators (fst (the (run_it (ex_stable, [])
         [GetSafeIterator, Next 0, GetIterator, Next 1, GetSafeIterator, Next 0, Release 0,
          Release 2, Release 1]))) = iterators ex_stable"
proof -
  let ?N = "dictNext ex_stable (dictGetSafeIterator :: (nat, nat) dictIterator)"
  let ?d1 = "fst (snd (the ?N))"
  let ?i1 = "snd (snd (the ?N))"
  let ?R = "dictReleaseIterator ?d1 ?i1"
  let ?S = "run_it (ex_stable, [])
         [GetSafeIterator, Next 0, GetIterator, Next 1, GetSafeIterator, Next 0, Release 0,
          Release 2, Release 1]"
  have ok: "it_ok (dictGetSafeIterator :: (nat, nat) dictIterator)" by code_simp
  have fr: "safe (dictGetSafeIterator :: (nat, nat) dictIterator) \<noteq> 0 \<and>
      it_fresh (dictGetSafeIterator :: (nat, nat) dictIterator)" by code_simp
  have n: "?N = Some (the ?N)" by (rule Some_the) code_simp
  then have n': "?N = Some (fst (the ?N), ?d1, ?i1)" by simp
  note t = safe_iterator_counter_balanced [where d = ex_stable and iter = dictGetSafeIterator]
  have 1: "iterators ?d1 = iterators ex_stable + 1"
    using t [THEN conjunct1, rule_format, OF conjI, OF ok n'] fr by simp
  have r: "?R = Some (the ?R)" by (rule Some_the) code_simp
  have adv: "safe ?i1 \<noteq> 0 \<and> \<not> it_fresh ?i1" by code_simp
  have 2: "iterators (the ?R) = iterators ?d1 - 1"
    using safe_iterator_counter_balanced [where d = ?d1 and iter = ?i1,
        THEN conjunct2, THEN conjunct1, rule_format, OF r] adv
    by simp
  have s: "?S = Some (the ?S)" by (rule Some_the) code_simp
  then have s': "?S = Some (fst (the ?S), snd (the ?S))" by simp
  have rel: "snd (the ?S) = [None, None, None]" by code_simp
  then have all: "\<forall>x \<in> set (snd (the ?S)). x = None" by simp
  have 3: "iterators (fst (the ?S)) = iterators ex_stable"
    using t [THEN conjunct2, THEN conjunct2, THEN conjunct2, THEN conjunct2, rule_format,
        OF conjI, OF s' all] .
  show ?thesis using ok n 1 r 2 s rel 3 by (intro conjI)
qed


subsection \<open>One call of the rehash engine\<close>

lemma unat_ucast_cint:
  fixes i :: cint
  shows "unat (ucast i :: ulong) = unat i"
proof -
  have "unat i < 2 ^ 32" using unsigned_less [of i] by simp
  also have "(2::nat) ^ 32 \<le> 2 ^ 64" by simp
  finally have "unat i < 2 ^ 64" .
  then show ?thesis by (simp add: unsigned_ucast_eq take_bit_nat_eq_self)
qed

lemma wf_length_bound:
  assumes "ht_wf ty ht" "table ht = Some t"
  shows "length t \<le> 2 ^ 30" "0 < length t"
proof -
  from wf_ht_alloc [OF assms] obtain n where n: "n \<le> 30" "size_ht ht = 2 ^ n"
    and len: "length t = unat (size_ht ht)" by blast
  then have l: "length t = 2 ^ n" by (simp add: unat_pow2)
  have "(2::nat) ^ n \<le> 2 ^ 30" using n(1) by (intro power_increasing) simp_all
  with l show "length t \<le> 2 ^ 30" by simp
  from l show "0 < length t" by simp
qed

lemma dictRehash_one:
  assumes "dictIsRehashing d"
  shows "dictRehash d 1 =
           (case dictRehash_body d of None \<Rightarrow> None
            | Some (Inl d') \<Rightarrow> Some (0, d') | Some (Inr d') \<Rightarrow> Some (1, d'))"
proof -
  have "dictRehash d 1 = dictRehash_loop d 1" using assms by (simp add: dictRehash_def)
  also have "\<dots> = (case dictRehash_body d of None \<Rightarrow> None
            | Some (Inl d') \<Rightarrow> Some (0, d') | Some (Inr d') \<Rightarrow> dictRehash_loop d' 0)"
    by (subst dictRehash_loop.simps) (simp split: option.splits sum.splits)
  also have "\<dots> = (case dictRehash_body d of None \<Rightarrow> None
            | Some (Inl d') \<Rightarrow> Some (0, d') | Some (Inr d') \<Rightarrow> Some (1, d'))"
    by (simp add: dictRehash_loop.simps [of _ 0] split: option.splits sum.splits)
  finally show ?thesis .
qed

lemma dictRehash_body_drain:
  assumes "dict_wf d" "dictIsRehashing d" "used (ht0 d) \<noteq> 0"
  shows "\<exists>j t0 t1 t1'. table (ht0 d) = Some t0 \<and> table (ht1 d) = Some t1 \<and>
           unat (rehashidx d) \<le> j \<and> j < length t0 \<and> t0 ! j \<noteq> [] \<and>
           (\<forall>l. unat (rehashidx d) \<le> l \<and> l < j \<longrightarrow> t0 ! l = []) \<and>
           length t1' = length t1 \<and>
           (\<forall>i < length t1. t1' ! i =
              rev (filter (\<lambda>e. slot_of (type d) (ht1 d) (key e) = i) (t0 ! j)) @ t1 ! i) \<and>
           dictRehash_body d =
             Some (Inr (d\<lparr>ht0 := (ht0 d)\<lparr>table := Some (t0[j := []]),
                                        used := used (ht0 d) - of_nat (length (t0 ! j))\<rparr>,
                         ht1 := (ht1 d)\<lparr>table := Some t1',
                                        used := used (ht1 d) + of_nat (length (t0 ! j))\<rparr>,
                         rehashidx := of_nat (Suc j)\<rparr>))"
proof -
  from assms(1,2) have wf0: "ht_wf (type d) (ht0 d)" and wf1: "ht_wf (type d) (ht1 d)"
    and al: "table (ht0 d) \<noteq> None" "table (ht1 d) \<noteq> None"
    and c0: "0 \<le> sint (rehashidx d)" and ci: "cursor_inv d"
    by (simp_all add: dict_wf_def)
  from al obtain t0 t1 where t0: "table (ht0 d) = Some t0" and t1: "table (ht1 d) = Some t1"
    by auto
  note len0 = wf_ht_alloc(2) [OF wf0 t0] and cnt0 = wf_ht_alloc(4) [OF wf0 t0]
    and b0 = wf_length_bound(1) [OF wf0 t0]
  have "unat (used (ht0 d)) \<noteq> 0" using assms(3) by (simp add: unat_eq_zero)
  with cnt0 have "concat t0 \<noteq> []" by simp
  then obtain c where "c \<in> set t0" "c \<noteq> []" by auto
  then obtain l where l: "l < length t0" "t0 ! l \<noteq> []" by (auto simp: in_set_conv_nth)
  have below: "\<forall>m < nat (sint (rehashidx d)). m < length t0 \<longrightarrow> t0 ! m = []"
    using ci assms(2) t0 by (simp add: cursor_inv_def all_empty_take)
  have cur: "nat (sint (rehashidx d)) = unat (rehashidx d)" by (rule nat_sint [OF c0])
  have cl: "unat (rehashidx d) \<le> l"
  proof (rule ccontr)
    assume "\<not> unat (rehashidx d) \<le> l"
    with below cur l show False by simp
  qed
  from skip_empty_complete [OF t0 b0 cl l] obtain i where i: "skip_empty (ht0 d) (rehashidx d) = Some i"
    by blast
  from skip_empty_sound [OF i] t0 have s: "0 \<le> sint i" "unat (rehashidx d) \<le> unat i"
    "unat i < length t0" "t0 ! unat i \<noteq> []"
    "\<forall>l. unat (rehashidx d) \<le> l \<and> l < unat i \<longrightarrow> t0 ! l = []" by auto
  have small: "unat i < 2 ^ 30" using s(3) b0 by simp
  have ne: "i \<noteq> INT_MAX" by (rule cint_small(2) [OF small])
  have asrt: "ucast (rehashidx d) < size_ht (ht0 d)"
    using cl l(1) len0 by (simp add: word_less_nat_alt unat_ucast_cint)
  have bi: "bucket_int (ht0 d) i = Some (t0 ! unat i)"
    using t0 s(1,3) by (simp add: bucket_int_def bucket_def not_sless_zero [symmetric])
  have rng: "\<forall>e \<in> set (t0 ! unat i). slot_of (type (d\<lparr>rehashidx := i\<rparr>)) (ht1 (d\<lparr>rehashidx := i\<rparr>)) (key e) < length t1"
    using slot_in_range [OF wf1 t1] by simp
  have t1': "table (ht1 (d\<lparr>rehashidx := i\<rparr>)) = Some t1" using t1 by simp
  from rehash_chain_result [OF t1' rng] obtain t1n where t1n: "length t1n = length t1"
    "\<forall>m < length t1. t1n ! m =
        rev (filter (\<lambda>e. slot_of (type d) (ht1 d) (key e) = m) (t0 ! unat i)) @ t1 ! m"
    "rehash_chain (d\<lparr>rehashidx := i\<rparr>) (t0 ! unat i) =
       Some (d\<lparr>rehashidx := i,
               ht0 := (ht0 d)\<lparr>used := used (ht0 d) - of_nat (length (t0 ! unat i))\<rparr>,
               ht1 := (ht1 d)\<lparr>table := Some t1n,
                              used := used (ht1 d) + of_nat (length (t0 ! unat i))\<rparr>\<rparr>)"
    by auto
  have idx: "(of_nat (Suc (unat i)) :: cint) = i + 1" by simp
  have "dictRehash_body d =
      Some (Inr (d\<lparr>ht0 := (ht0 d)\<lparr>table := Some (t0[unat i := []]),
                                 used := used (ht0 d) - of_nat (length (t0 ! unat i))\<rparr>,
                  ht1 := (ht1 d)\<lparr>table := Some t1n,
                                 used := used (ht1 d) + of_nat (length (t0 ! unat i))\<rparr>,
                  rehashidx := of_nat (Suc (unat i))\<rparr>))"
    unfolding idx using assms(3) asrt i bi t1n(3) ne t0
    by (simp add: dictRehash_body_def set_bucket_def)
  with t0 t1 s(2,3,4,5) t1n(1,2) show ?thesis by blast
qed


lemma dictRehash_body_rehashing:
  assumes "dictRehash_body d = Some (Inr d')"
  shows "dictIsRehashing d'"
proof -
  from dictRehash_body_Inr [OF assms] obtain i d'' where "0 \<le> sint i" "i \<noteq> INT_MAX"
    "d' = d''\<lparr>ht0 := set_bucket (ht0 d'') (unat i) [], rehashidx := i + 1\<rparr>" by blast
  then show ?thesis using rehashing_succ [of i] by (simp add: dictIsRehashing_def)
qed

lemma dictClear_chain_frame:
  "table (dictClear_chain ht c) = table ht \<and> size_ht (dictClear_chain ht c) = size_ht ht"
  by (induction c arbitrary: ht) simp_all

lemma dictClear_loop_returns:
  assumes "table ht = Some t" "length t = unat (size_ht ht)"
  shows "\<exists>ht'. dictClear_loop ht i = Some ht'"
  using assms
proof (induction ht i rule: dictClear_loop.induct)
  case (1 ht i)
  show ?case
  proof (cases "i < size_ht ht \<and> 0 < used ht")
    case False
    then show ?thesis by (subst dictClear_loop.simps) auto
  next
    case True
    then have "unat i < length t" using "1.prems"(2) by (simp add: word_less_nat_alt)
    then have b: "bucket ht (unat i) = Some (t ! unat i)"
      using "1.prems"(1) by (simp add: bucket_def)
    have "table (dictClear_chain ht (t ! unat i)) = Some t"
      "length t = unat (size_ht (dictClear_chain ht (t ! unat i)))"
      using "1.prems" by (simp_all add: dictClear_chain_frame)
    from "1.IH" [OF True b this] obtain ht' where
      "dictClear_loop (dictClear_chain ht (t ! unat i)) (i + 1) = Some ht'" by blast
    with True b show ?thesis by (subst dictClear_loop.simps) simp
  qed
qed

lemma dictClear_wf:
  assumes "ht_wf ty ht"
  shows "dictClear ht = Some dictReset"
proof (cases "table ht")
  case None
  from wf_ht_unalloc(1) [OF assms None] have "dictClear_loop ht 0 = Some ht"
    by (subst dictClear_loop.simps) simp
  then show ?thesis by (simp add: dictClear_def)
next
  case (Some t)
  from dictClear_loop_returns [OF Some wf_ht_alloc(2) [OF assms Some]]
  obtain ht' where "dictClear_loop ht 0 = Some ht'" by blast
  then show ?thesis by (simp add: dictClear_def)
qed

subsection \<open>Entries as multisets, and keys that occur once\<close>

lemma mset_concat_update:
  assumes "i < length t"
  shows "mset (concat (t[i := c])) + mset (t ! i) = mset (concat t) + mset c"
  using assms
proof (induction t arbitrary: i)
  case Nil
  then show ?case by simp
next
  case (Cons x t)
  show ?case
  proof (cases i)
    case 0
    then show ?thesis by simp
  next
    case (Suc m)
    with Cons.prems have "m < length t" by simp
    from Cons.IH [OF this] Suc show ?thesis by (simp add: ac_simps)
  qed
qed

lemma length_concat_update:
  assumes "i < length t"
  shows "length (concat (t[i := c])) + length (t ! i) = length (concat t) + length c"
proof -
  have "size (mset (concat (t[i := c])) + mset (t ! i)) = size (mset (concat t) + mset c)"
    by (simp only: mset_concat_update [OF assms])
  then show ?thesis by simp
qed

lemma keys_unique_mset:
  assumes "mset es = mset es'"
  shows "keys_unique ty es \<longleftrightarrow> keys_unique ty es'"
proof -
  have s: "set es = set es'" using assms by (rule mset_eq_setD)
  have "length (filter P es) = length (filter P es')" for P :: "('a, 'b) dictEntry \<Rightarrow> bool"
  proof -
    have "mset (filter P es) = mset (filter P es')" using assms by (simp only: mset_filter)
    then show ?thesis by (rule mset_eq_length)
  qed
  with s show ?thesis by (simp add: keys_unique_def)
qed

lemma type_ok_refl: "type_ok ty \<Longrightarrow> keyCompare ty k k"
  unfolding type_ok_def by blast

lemma type_ok_sym: "type_ok ty \<Longrightarrow> keyCompare ty k k' \<Longrightarrow> keyCompare ty k' k"
  unfolding type_ok_def by blast

lemma type_ok_trans:
  "type_ok ty \<Longrightarrow> keyCompare ty k k' \<Longrightarrow> keyCompare ty k' k'' \<Longrightarrow> keyCompare ty k k''"
  unfolding type_ok_def by blast

lemma type_ok_hash:
  "type_ok ty \<Longrightarrow> keyCompare ty k k' \<Longrightarrow> hashFunction ty k = hashFunction ty k'"
  unfolding type_ok_def by blast

lemma keys_unique_sub:
  assumes "keys_unique ty es" "mset es' \<subseteq># mset es" "type_ok ty"
  shows "keys_unique ty es'"
  unfolding keys_unique_def
proof
  fix e assume e: "e \<in> set es'"
  let ?P = "\<lambda>e'. keyCompare ty (key e) (key e')"
  from e assms(2) have "e \<in> set es" by (metis mset_subset_eqD set_mset_mset)
  with assms(1) have one: "length (filter ?P es) = 1" by (simp add: keys_unique_def)
  have "mset (filter ?P es') \<subseteq># mset (filter ?P es)"
    using assms(2) by (simp only: mset_filter multiset_filter_mono)
  then have "length (filter ?P es') \<le> length (filter ?P es)"
    by (metis size_mset size_mset_mono)
  moreover have "e \<in> set (filter ?P es')" using e type_ok_refl [OF assms(3)] by simp
  then have "0 < length (filter ?P es')" by (metis length_pos_if_in_set)
  ultimately show "length (filter ?P es') = 1" using one by linarith
qed

lemma keys_unique_Cons:
  assumes "keys_unique ty es" "\<forall>e' \<in> set es. \<not> keyCompare ty (key e) (key e')" "type_ok ty"
  shows "keys_unique ty (e # es)"
  unfolding keys_unique_def
proof
  fix x assume x: "x \<in> set (e # es)"
  show "length (filter (\<lambda>e'. keyCompare ty (key x) (key e')) (e # es)) = 1"
  proof (cases "x = e")
    case True
    have "filter (\<lambda>e'. keyCompare ty (key e) (key e')) es = []"
      using assms(2) by (simp add: filter_empty_conv)
    with True type_ok_refl [OF assms(3)] show ?thesis by simp
  next
    case False
    with x have xs: "x \<in> set es" by simp
    with assms(2) have "\<not> keyCompare ty (key e) (key x)" by simp
    then have "\<not> keyCompare ty (key x) (key e)" using type_ok_sym [OF assms(3)] by blast
    moreover from assms(1) xs have
      "length (filter (\<lambda>e'. keyCompare ty (key x) (key e')) es) = 1"
      by (simp add: keys_unique_def)
    ultimately show ?thesis by simp
  qed
qed

lemma keys_unique_match_once:
  assumes "keys_unique ty es" "type_ok ty" "mset es = add_mset e (mset es')"
    "keyCompare ty k (key e)" "e' \<in> set es'"
  shows "\<not> keyCompare ty k (key e')"
proof
  assume m: "keyCompare ty k (key e')"
  let ?P = "\<lambda>x. keyCompare ty (key e) (key x)"
  have c: "?P e'" "?P e"
    using type_ok_trans [OF assms(2) type_ok_sym [OF assms(2) assms(4)] m]
      type_ok_refl [OF assms(2)] by simp_all
  have "e \<in># mset es" by (simp only: assms(3)) simp
  then have "e \<in> set es" by simp
  with assms(1) have "length (filter ?P es) = 1" by (simp add: keys_unique_def)
  moreover have "mset (filter ?P es) = add_mset e (mset (filter ?P es'))"
    using assms(3) c(2) by (metis filter_mset_add_mset mset_filter)
  then have "length (filter ?P es) = Suc (length (filter ?P es'))"
    by (metis size_add_mset size_mset)
  moreover have "e' \<in> set (filter ?P es')" using assms(5) c(1) by simp
  then have "0 < length (filter ?P es')" by (metis length_pos_if_in_set)
  ultimately show False by linarith
qed

lemma bound_nat:
  fixes u0 u1 :: ulong
  shows "u0 \<le> max_entries \<and> u1 \<le> max_entries - u0 \<longleftrightarrow> unat u0 + unat u1 \<le> 2 ^ 29"
proof -
  have m: "unat max_entries = 2 ^ 29" by (simp add: max_entries_def)
  show ?thesis
  proof (cases "u0 \<le> max_entries")
    case True
    then have "unat (max_entries - u0) = unat max_entries - unat u0" by (rule unat_sub)
    with True show ?thesis unfolding word_le_nat_alt m by linarith
  next
    case False
    then show ?thesis unfolding word_le_nat_alt m by linarith
  qed
qed


subsection \<open>C8: no entry moves while a safe iterator is live\<close>

lemma entries_set_bucket:
  assumes "bucket ht i = Some c"
  shows "mset (entries (set_bucket ht i c')) + mset c = mset (entries ht) + mset c'"
proof -
  from assms obtain t where t: "table ht = Some t" "i < length t" "t ! i = c"
    by (auto simp: bucket_def split: option.splits if_splits)
  with mset_concat_update [OF t(2), of c'] show ?thesis
    by (simp add: entries_def set_bucket_def)
qed

lemma entries_used [simp]: "entries (ht\<lparr>used := u\<rparr>) = entries ht"
  by (simp add: entries_def)

lemma entries_zcalloc [simp]:
  "entries \<lparr>table = Some (zcalloc_table r), size_ht = a, sizemask = b, used = c\<rparr> = []"
  by (simp add: entries_def zcalloc_table_def)

lemma dictExpand_cases:
  assumes "dictExpand d sz = Some (st, d')"
  shows "d' = d \<or>
         (\<exists>r. table (ht0 d) = None \<and>
              d' = d\<lparr>ht0 := \<lparr>table = Some (zcalloc_table r), size_ht = r,
                              sizemask = r - 1, used = 0\<rparr>\<rparr>) \<or>
         (\<exists>r. d' = d\<lparr>ht1 := \<lparr>table = Some (zcalloc_table r), size_ht = r,
                              sizemask = r - 1, used = 0\<rparr>, rehashidx := 0\<rparr>)"
  using assms
  by (auto simp: dictExpand_def Let_def split: if_splits option.splits)

lemma dictExpand_entries:
  assumes "dictExpand d sz = Some (st, d')"
  shows "entries (ht0 d') = entries (ht0 d) \<and>
         (entries (ht1 d') = entries (ht1 d) \<or> entries (ht1 d') = []) \<and>
         iterators d' = iterators d \<and> type d' = type d"
proof -
  from dictExpand_cases [OF assms] consider "d' = d"
    | r where "table (ht0 d) = None"
        "d' = d\<lparr>ht0 := \<lparr>table = Some (zcalloc_table r), size_ht = r,
                        sizemask = r - 1, used = 0\<rparr>\<rparr>"
    | r where "d' = d\<lparr>ht1 := \<lparr>table = Some (zcalloc_table r), size_ht = r,
                        sizemask = r - 1, used = 0\<rparr>, rehashidx := 0\<rparr>"
    by blast
  then show ?thesis
  proof cases
    case 1
    then show ?thesis by simp
  next
    case 2
    from 2(1) have "entries (ht0 d) = []" by (simp add: entries_def)
    with 2(2) show ?thesis by simp
  next
    case 3
    then show ?thesis by simp
  qed
qed

lemma dictExpandIfNeeded_entries:
  assumes "dictExpandIfNeeded can d = Some (st, d')"
  shows "entries (ht0 d') = entries (ht0 d) \<and>
         (entries (ht1 d') = entries (ht1 d) \<or> entries (ht1 d') = []) \<and>
         iterators d' = iterators d \<and> type d' = type d"
  using assms dictExpand_entries [of d _ st d']
  by (auto simp: dictExpandIfNeeded_def split: if_splits)

lemma chain_unlink_mset:
  assumes "chain_unlink d k c = Some c'"
  shows "\<exists>e. dictCompareKeys d k (key e) \<and> mset c = add_mset e (mset c')"
  using assms
proof (induction c arbitrary: c')
  case Nil
  then show ?case by simp
next
  case (Cons he nxt)
  show ?case
  proof (cases "dictCompareKeys d k (key he)")
    case True
    with Cons.prems show ?thesis by auto
  next
    case False
    with Cons.prems obtain c'' where c: "chain_unlink d k nxt = Some c''" "c' = he # c''"
      by auto
    from Cons.IH [OF c(1)] c(2) show ?thesis by auto
  qed
qed

lemma chain_unlink_None:
  "chain_unlink d k c = None \<longleftrightarrow> (\<forall>e \<in> set c. \<not> dictCompareKeys d k (key e))"
  by (induction c) auto

lemma chain_lookup_None:
  "chain_lookup d k c = None \<longleftrightarrow> (\<forall>e \<in> set c. \<not> dictCompareKeys d k (key e))"
  by (induction c) auto

lemma chain_lookup_Some:
  assumes "chain_lookup d k c = Some e"
  shows "e \<in> set c \<and> dictCompareKeys d k (key e)"
  using assms by (induction c) (auto split: if_splits)

lemma step_suppressed:
  assumes "iterators d \<noteq> 0"
  shows "(if dictIsRehashing d then dictRehashStep d else Some d) = Some d"
  using assms by (simp add: dictRehashStep_def)


lemma dictKeyIndex_expand:
  assumes "dictKeyIndex can d k = Some (index, d')"
  shows "\<exists>st. dictExpandIfNeeded can d = Some (st, d')"
  using assms
  by (auto simp: dictKeyIndex_def Let_def split: option.splits status.splits if_splits)

lemma bucket_int_Some:
  assumes "bucket_int ht i = Some c"
  shows "bucket ht (unat i) = Some c"
  using assms by (simp add: bucket_int_def split: if_splits)

lemma dictAddRaw_cases:
  assumes "dictAddRaw can d k = Some (r, d')"
  shows "\<exists>d1 d2 st. (if dictIsRehashing d then dictRehashStep d else Some d) = Some d1 \<and>
           dictExpandIfNeeded can d1 = Some (st, d2) \<and>
           ((r = None \<and> d' = d2) \<or>
            (\<exists>i c. dictIsRehashing d2 \<and> bucket (ht1 d2) i = Some c \<and> r = Some (1, i) \<and>
                   d' = d2\<lparr>ht1 := (set_bucket (ht1 d2) i (\<lparr>key = k, val = None\<rparr> # c))
                                \<lparr>used := used (ht1 d2) + 1\<rparr>\<rparr>) \<or>
            (\<exists>i c. \<not> dictIsRehashing d2 \<and> bucket (ht0 d2) i = Some c \<and> r = Some (0, i) \<and>
                   d' = d2\<lparr>ht0 := (set_bucket (ht0 d2) i (\<lparr>key = k, val = None\<rparr> # c))
                                \<lparr>used := used (ht0 d2) + 1\<rparr>\<rparr>))"
proof -
  from assms obtain d1 where d1: "(if dictIsRehashing d then dictRehashStep d else Some d) = Some d1"
    by (auto simp: dictAddRaw_def split: option.splits)
  with assms obtain index d2 where d2: "dictKeyIndex can d1 k = Some (index, d2)"
    by (auto simp: dictAddRaw_def split: option.splits)
  from dictKeyIndex_expand [OF d2] obtain st where st: "dictExpandIfNeeded can d1 = Some (st, d2)"
    by blast
  have "(r = None \<and> d' = d2) \<or>
            (\<exists>i c. dictIsRehashing d2 \<and> bucket (ht1 d2) i = Some c \<and> r = Some (1, i) \<and>
                   d' = d2\<lparr>ht1 := (set_bucket (ht1 d2) i (\<lparr>key = k, val = None\<rparr> # c))
                                \<lparr>used := used (ht1 d2) + 1\<rparr>\<rparr>) \<or>
            (\<exists>i c. \<not> dictIsRehashing d2 \<and> bucket (ht0 d2) i = Some c \<and> r = Some (0, i) \<and>
                   d' = d2\<lparr>ht0 := (set_bucket (ht0 d2) i (\<lparr>key = k, val = None\<rparr> # c))
                                \<lparr>used := used (ht0 d2) + 1\<rparr>\<rparr>)"
    using assms d1 d2
    by (auto simp: dictAddRaw_def dest!: bucket_int_Some split: option.splits if_splits)
  with d1 st show ?thesis by blast
qed

lemma bucket_set_bucket:
  assumes "bucket ht i = Some c"
  shows "bucket ((set_bucket ht i c')\<lparr>used := u\<rparr>) i = Some c'"
  using assms by (auto simp: bucket_def set_bucket_def split: option.splits if_splits)

lemma set_bucket_twice:
  "set_bucket ((set_bucket ht i a)\<lparr>used := u\<rparr>) i b = (set_bucket ht i b)\<lparr>used := u\<rparr>"
  by (cases "table ht") (simp_all add: set_bucket_def)

lemma dictAdd_cases:
  assumes "dictAdd can d k v = Some (st, d')"
  shows "\<exists>d1 d2 s. (if dictIsRehashing d then dictRehashStep d else Some d) = Some d1 \<and>
           dictExpandIfNeeded can d1 = Some (s, d2) \<and>
           ((st = DICT_ERR \<and> d' = d2 \<and> dictAddRaw can d k = Some (None, d2)) \<or>
            (\<exists>i c. st = DICT_OK \<and> dictIsRehashing d2 \<and> bucket (ht1 d2) i = Some c \<and>
                   d' = d2\<lparr>ht1 := (set_bucket (ht1 d2) i (\<lparr>key = k, val = Some v\<rparr> # c))
                                \<lparr>used := used (ht1 d2) + 1\<rparr>\<rparr>) \<or>
            (\<exists>i c. st = DICT_OK \<and> \<not> dictIsRehashing d2 \<and> bucket (ht0 d2) i = Some c \<and>
                   d' = d2\<lparr>ht0 := (set_bucket (ht0 d2) i (\<lparr>key = k, val = Some v\<rparr> # c))
                                \<lparr>used := used (ht0 d2) + 1\<rparr>\<rparr>))"
proof -
  from assms obtain r dr where raw: "dictAddRaw can d k = Some (r, dr)"
    by (auto simp: dictAdd_def split: option.splits)
  from dictAddRaw_cases [OF raw] obtain d1 d2 s where
    d1: "(if dictIsRehashing d then dictRehashStep d else Some d) = Some d1"
    and d2: "dictExpandIfNeeded can d1 = Some (s, d2)"
    and c: "(r = None \<and> dr = d2) \<or>
            (\<exists>i c. dictIsRehashing d2 \<and> bucket (ht1 d2) i = Some c \<and> r = Some (1, i) \<and>
                   dr = d2\<lparr>ht1 := (set_bucket (ht1 d2) i (\<lparr>key = k, val = None\<rparr> # c))
                                \<lparr>used := used (ht1 d2) + 1\<rparr>\<rparr>) \<or>
            (\<exists>i c. \<not> dictIsRehashing d2 \<and> bucket (ht0 d2) i = Some c \<and> r = Some (0, i) \<and>
                   dr = d2\<lparr>ht0 := (set_bucket (ht0 d2) i (\<lparr>key = k, val = None\<rparr> # c))
                                \<lparr>used := used (ht0 d2) + 1\<rparr>\<rparr>)"
    by blast
  from c consider (err) "r = None" "dr = d2"
    | (inc) i c where "dictIsRehashing d2" "bucket (ht1 d2) i = Some c" "r = Some (1, i)"
        "dr = d2\<lparr>ht1 := (set_bucket (ht1 d2) i (\<lparr>key = k, val = None\<rparr> # c))
                     \<lparr>used := used (ht1 d2) + 1\<rparr>\<rparr>"
    | (pri) i c where "\<not> dictIsRehashing d2" "bucket (ht0 d2) i = Some c" "r = Some (0, i)"
        "dr = d2\<lparr>ht0 := (set_bucket (ht0 d2) i (\<lparr>key = k, val = None\<rparr> # c))
                     \<lparr>used := used (ht0 d2) + 1\<rparr>\<rparr>"
    by blast
  then show ?thesis
  proof cases
    case err
    with assms raw have "st = DICT_ERR" "d' = d2" by (simp_all add: dictAdd_def)
    with d1 d2 raw err show ?thesis by blast
  next
    case inc
    note b = bucket_set_bucket [OF inc(2), where c' = "\<lparr>key = k, val = None\<rparr> # c"
        and u = "used (ht1 d2) + 1"]
    from assms raw inc(3,4) b have "st = DICT_OK"
      "d' = d2\<lparr>ht1 := (set_bucket (ht1 d2) i (\<lparr>key = k, val = Some v\<rparr> # c))
                   \<lparr>used := used (ht1 d2) + 1\<rparr>\<rparr>"
      by (auto simp: dictAdd_def dictSetVal_def set_bucket_twice)
    with d1 d2 inc(1,2) show ?thesis by blast
  next
    case pri
    note b = bucket_set_bucket [OF pri(2), where c' = "\<lparr>key = k, val = None\<rparr> # c"
        and u = "used (ht0 d2) + 1"]
    from assms raw pri(3,4) b have "st = DICT_OK"
      "d' = d2\<lparr>ht0 := (set_bucket (ht0 d2) i (\<lparr>key = k, val = Some v\<rparr> # c))
                   \<lparr>used := used (ht0 d2) + 1\<rparr>\<rparr>"
      by (auto simp: dictAdd_def dictSetVal_def set_bucket_twice)
    with d1 d2 pri(1,2) show ?thesis by blast
  qed
qed


lemma dictGenericDelete_cases:
  assumes "dictGenericDelete d k nofree = Some (st, d')"
  shows "(size_ht (ht0 d) = 0 \<and> st = DICT_ERR \<and> d' = d) \<or>
         (size_ht (ht0 d) \<noteq> 0 \<and>
          (\<exists>d1. (if dictIsRehashing d then dictRehashStep d else Some d) = Some d1 \<and>
             ((st = DICT_ERR \<and> d' = d1) \<or>
              (\<exists>i c c'. st = DICT_OK \<and> bucket (ht0 d1) i = Some c \<and>
                  chain_unlink d1 k c = Some c' \<and>
                  d' = d1\<lparr>ht0 := (set_bucket (ht0 d1) i c')\<lparr>used := used (ht0 d1) - 1\<rparr>\<rparr>) \<or>
              (\<exists>i c c'. st = DICT_OK \<and> dictIsRehashing d1 \<and> bucket (ht1 d1) i = Some c \<and>
                  chain_unlink d1 k c = Some c' \<and>
                  d' = d1\<lparr>ht1 := (set_bucket (ht1 d1) i c')\<lparr>used := used (ht1 d1) - 1\<rparr>\<rparr>))))"
proof (cases "size_ht (ht0 d) = 0")
  case True
  with assms show ?thesis by (simp add: dictGenericDelete_def)
next
  case False
  with assms obtain d1 where d1: "(if dictIsRehashing d then dictRehashStep d else Some d) = Some d1"
    by (auto simp: dictGenericDelete_def split: option.splits)
  define idx0 where "idx0 = unat (dictHashKey d1 k AND ucast (sizemask (ht0 d1)))"
  define idx1 where "idx1 = unat (dictHashKey d1 k AND ucast (sizemask (ht1 d1)))"
  from assms False d1 obtain he0 where he0: "bucket (ht0 d1) idx0 = Some he0"
    by (auto simp: dictGenericDelete_def Let_def idx0_def split: option.splits)
  have "(st = DICT_ERR \<and> d' = d1) \<or>
              (\<exists>i c c'. st = DICT_OK \<and> bucket (ht0 d1) i = Some c \<and>
                  chain_unlink d1 k c = Some c' \<and>
                  d' = d1\<lparr>ht0 := (set_bucket (ht0 d1) i c')\<lparr>used := used (ht0 d1) - 1\<rparr>\<rparr>) \<or>
              (\<exists>i c c'. st = DICT_OK \<and> dictIsRehashing d1 \<and> bucket (ht1 d1) i = Some c \<and>
                  chain_unlink d1 k c = Some c' \<and>
                  d' = d1\<lparr>ht1 := (set_bucket (ht1 d1) i c')\<lparr>used := used (ht1 d1) - 1\<rparr>\<rparr>)"
  proof (cases "chain_unlink d1 k he0")
    case (Some c')
    with assms False d1 he0 have "st = DICT_OK"
      "d' = d1\<lparr>ht0 := (set_bucket (ht0 d1) idx0 c')\<lparr>used := used (ht0 d1) - 1\<rparr>\<rparr>"
      by (simp_all add: dictGenericDelete_def Let_def idx0_def)
    with he0 Some show ?thesis by blast
  next
    case None
    show ?thesis
    proof (cases "dictIsRehashing d1")
      case nr: False
      with assms False d1 he0 None have "st = DICT_ERR" "d' = d1"
        by (simp_all add: dictGenericDelete_def Let_def idx0_def)
      then show ?thesis by blast
    next
      case True
      with assms False d1 he0 None obtain he1 where he1: "bucket (ht1 d1) idx1 = Some he1"
        by (auto simp: dictGenericDelete_def Let_def idx0_def idx1_def split: option.splits)
      show ?thesis
      proof (cases "chain_unlink d1 k he1")
        case n1: None
        with assms False d1 he0 None True he1 have "st = DICT_ERR" "d' = d1"
          by (simp_all add: dictGenericDelete_def Let_def idx0_def idx1_def)
        then show ?thesis by blast
      next
        case (Some c')
        with assms False d1 he0 None True he1 have "st = DICT_OK"
          "d' = d1\<lparr>ht1 := (set_bucket (ht1 d1) idx1 c')\<lparr>used := used (ht1 d1) - 1\<rparr>\<rparr>"
          by (simp_all add: dictGenericDelete_def Let_def idx0_def idx1_def)
        with he1 Some True show ?thesis by blast
      qed
    qed
  qed
  with False d1 show ?thesis by blast
qed

lemma dictFind_cases:
  assumes "dictFind d k = Some (r, d')"
  shows "(size_ht (ht0 d) = 0 \<and> d' = d) \<or>
         (if dictIsRehashing d then dictRehashStep d else Some d) = Some d'"
  using assms
  by (auto simp: dictFind_def Let_def split: option.splits if_splits)

lemma sub_add_mset: "A \<subseteq># B \<Longrightarrow> A \<subseteq># add_mset e B"
  by (metis add_mset_add_single mset_subset_eq_add_left subset_mset.order_trans)

lemma sub_add_right: "A \<subseteq># B \<Longrightarrow> A \<subseteq># B + C"
  by (metis mset_subset_eq_add_left subset_mset.order_trans)

lemma sub_sum: "A \<subseteq># B + X \<Longrightarrow> C \<subseteq># D \<Longrightarrow> A + C \<subseteq># B + D + X"
  by (metis subset_mset.add_mono add.assoc add.commute)

lemma sub_sum2: "A \<subseteq># B \<Longrightarrow> C \<subseteq># D + X \<Longrightarrow> A + C \<subseteq># B + D + X"
  by (metis subset_mset.add_mono add.assoc)

lemma sub_of_add: "add_mset e A = B \<Longrightarrow> A \<subseteq># B"
  by (metis add_mset_add_single mset_subset_eq_add_left)

lemma no_move_primary:
  assumes "mset (entries (ht0 d')) \<subseteq># mset (entries (ht0 d)) + added_by x"
    and "mset (entries (ht1 d')) \<subseteq># mset (entries (ht1 d))"
  shows "no_move x d d'"
  unfolding no_move_def
proof (intro conjI)
  show "mset (entries (ht0 d')) \<subseteq># mset (entries (ht0 d)) + added_by x" by (rule assms(1))
  show "mset (entries (ht1 d')) \<subseteq># mset (entries (ht1 d)) + added_by x"
    using assms(2) by (rule sub_add_right)
  show "mset (entries (ht0 d')) + mset (entries (ht1 d'))
       \<subseteq># mset (entries (ht0 d)) + mset (entries (ht1 d)) + added_by x"
    using assms by (rule sub_sum)
qed

lemma no_move_incoming:
  assumes "mset (entries (ht0 d')) \<subseteq># mset (entries (ht0 d))"
    and "mset (entries (ht1 d')) \<subseteq># mset (entries (ht1 d)) + added_by x"
  shows "no_move x d d'"
  unfolding no_move_def
proof (intro conjI)
  show "mset (entries (ht0 d')) \<subseteq># mset (entries (ht0 d)) + added_by x"
    using assms(1) by (rule sub_add_right)
  show "mset (entries (ht1 d')) \<subseteq># mset (entries (ht1 d)) + added_by x" by (rule assms(2))
  show "mset (entries (ht0 d')) + mset (entries (ht1 d'))
       \<subseteq># mset (entries (ht0 d)) + mset (entries (ht1 d)) + added_by x"
    using assms by (rule sub_sum2)
qed

lemma unlink_entries:
  assumes "bucket ht i = Some c" "chain_unlink d k c = Some c'"
  shows "mset (entries ((set_bucket ht i c')\<lparr>used := u\<rparr>)) \<subseteq># mset (entries ht)"
proof -
  from chain_unlink_mset [OF assms(2)] obtain e where e: "mset c = add_mset e (mset c')" by blast
  from entries_set_bucket [OF assms(1), of c'] e
  have "add_mset e (mset (entries (set_bucket ht i c'))) = mset (entries ht)" by simp
  then have "mset (entries (set_bucket ht i c')) \<subseteq># mset (entries ht)"
    by (rule sub_of_add)
  then show ?thesis by simp
qed

lemma link_entries:
  assumes "bucket ht i = Some c"
  shows "mset (entries ((set_bucket ht i (e # c))\<lparr>used := u\<rparr>)) = add_mset e (mset (entries ht))"
proof -
  from entries_set_bucket [OF assms, of "e # c"]
  have "mset (entries (set_bucket ht i (e # c))) + mset c = add_mset e (mset (entries ht)) + mset c"
    by simp
  then show ?thesis by simp
qed

lemma no_move_add:
  assumes "dictAdd can d k v = Some (st, d')" "iterators d \<noteq> 0"
  shows "no_move (Add k v) d d' \<and> iterators d' = iterators d"
proof -
  from dictAdd_cases [OF assms(1)]
  obtain d1 d2 s where d1: "(if dictIsRehashing d then dictRehashStep d else Some d) = Some d1"
    and d2': "dictExpandIfNeeded can d1 = Some (s, d2)"
    and c: "(st = DICT_ERR \<and> d' = d2 \<and> dictAddRaw can d k = Some (None, d2)) \<or>
            (\<exists>i c. st = DICT_OK \<and> dictIsRehashing d2 \<and> bucket (ht1 d2) i = Some c \<and>
                   d' = d2\<lparr>ht1 := (set_bucket (ht1 d2) i (\<lparr>key = k, val = Some v\<rparr> # c))
                                \<lparr>used := used (ht1 d2) + 1\<rparr>\<rparr>) \<or>
            (\<exists>i c. st = DICT_OK \<and> \<not> dictIsRehashing d2 \<and> bucket (ht0 d2) i = Some c \<and>
                   d' = d2\<lparr>ht0 := (set_bucket (ht0 d2) i (\<lparr>key = k, val = Some v\<rparr> # c))
                                \<lparr>used := used (ht0 d2) + 1\<rparr>\<rparr>)"
    by blast
  from d1 step_suppressed [OF assms(2)] have "d1 = d" by simp
  with d2' have d2: "dictExpandIfNeeded can d = Some (s, d2)" by simp
  from dictExpandIfNeeded_entries [OF d2] have e0: "entries (ht0 d2) = entries (ht0 d)"
    and e1: "mset (entries (ht1 d2)) \<subseteq># mset (entries (ht1 d))"
    and it: "iterators d2 = iterators d" by auto
  from c consider (err) "d' = d2"
    | (inc) i c where "bucket (ht1 d2) i = Some c"
        "d' = d2\<lparr>ht1 := (set_bucket (ht1 d2) i (\<lparr>key = k, val = Some v\<rparr> # c))
                     \<lparr>used := used (ht1 d2) + 1\<rparr>\<rparr>"
    | (pri) i c where "bucket (ht0 d2) i = Some c"
        "d' = d2\<lparr>ht0 := (set_bucket (ht0 d2) i (\<lparr>key = k, val = Some v\<rparr> # c))
                     \<lparr>used := used (ht0 d2) + 1\<rparr>\<rparr>"
    by blast
  then show ?thesis
  proof cases
    case err
    have "no_move (Add k v) d d'"
    proof (rule no_move_primary)
      show "mset (entries (ht0 d')) \<subseteq># mset (entries (ht0 d)) + added_by (Add k v)"
        using err e0 by simp
      show "mset (entries (ht1 d')) \<subseteq># mset (entries (ht1 d))" using err e1 by simp
    qed
    with err it show ?thesis by simp
  next
    case inc
    have "no_move (Add k v) d d'"
    proof (rule no_move_incoming)
      show "mset (entries (ht0 d')) \<subseteq># mset (entries (ht0 d))" using inc(2) e0 by simp
      have "mset (entries (ht1 d')) = add_mset \<lparr>key = k, val = Some v\<rparr> (mset (entries (ht1 d2)))"
        using link_entries [OF inc(1)] inc(2) by simp
      with e1 show "mset (entries (ht1 d')) \<subseteq># mset (entries (ht1 d)) + added_by (Add k v)"
        by simp
    qed
    with inc(2) it show ?thesis by simp
  next
    case pri
    have "no_move (Add k v) d d'"
    proof (rule no_move_primary)
      have "mset (entries (ht0 d')) = add_mset \<lparr>key = k, val = Some v\<rparr> (mset (entries (ht0 d2)))"
        using link_entries [OF pri(1)] pri(2) by simp
      with e0 show "mset (entries (ht0 d')) \<subseteq># mset (entries (ht0 d)) + added_by (Add k v)"
        by simp
      show "mset (entries (ht1 d')) \<subseteq># mset (entries (ht1 d))" using pri(2) e1 by simp
    qed
    with pri(2) it show ?thesis by simp
  qed
qed

lemma no_move_find:
  assumes "dictFind d k = Some (r, d')" "iterators d \<noteq> 0"
  shows "no_move (Find k) d d' \<and> iterators d' = iterators d"
proof -
  from dictFind_cases [OF assms(1)] step_suppressed [OF assms(2)] have "d' = d" by auto
  then show ?thesis by (simp add: no_move_def)
qed

lemma no_move_delete:
  assumes "dictGenericDelete d k nofree = Some (st, d')" "iterators d \<noteq> 0"
  shows "no_move (Delete k) d d' \<and> iterators d' = iterators d"
proof -
  have sup: "(if dictIsRehashing d then dictRehashStep d else Some d) = Some d1 \<Longrightarrow> d1 = d" for d1
    using step_suppressed [OF assms(2)] by simp
  from dictGenericDelete_cases [OF assms(1)]
  have "d' = d \<or>
      (\<exists>i c c'. bucket (ht0 d) i = Some c \<and> chain_unlink d k c = Some c' \<and>
        d' = d\<lparr>ht0 := (set_bucket (ht0 d) i c')\<lparr>used := used (ht0 d) - 1\<rparr>\<rparr>) \<or>
      (\<exists>i c c'. bucket (ht1 d) i = Some c \<and> chain_unlink d k c = Some c' \<and>
        d' = d\<lparr>ht1 := (set_bucket (ht1 d) i c')\<lparr>used := used (ht1 d) - 1\<rparr>\<rparr>)"
  proof (elim disjE conjE exE)
    assume "d' = d" then show ?thesis by simp
  next
    fix d1 assume "(if dictIsRehashing d then dictRehashStep d else Some d) = Some d1" "d' = d1"
    with sup show ?thesis by simp
  next
    fix d1 i c c'
    assume "(if dictIsRehashing d then dictRehashStep d else Some d) = Some d1"
      "bucket (ht0 d1) i = Some c" "chain_unlink d1 k c = Some c'"
      "d' = d1\<lparr>ht0 := (set_bucket (ht0 d1) i c')\<lparr>used := used (ht0 d1) - 1\<rparr>\<rparr>"
    with sup [of d1] show ?thesis by blast
  next
    fix d1 i c c'
    assume "(if dictIsRehashing d then dictRehashStep d else Some d) = Some d1"
      "bucket (ht1 d1) i = Some c" "chain_unlink d1 k c = Some c'"
      "d' = d1\<lparr>ht1 := (set_bucket (ht1 d1) i c')\<lparr>used := used (ht1 d1) - 1\<rparr>\<rparr>"
    with sup [of d1] show ?thesis by blast
  qed
  then consider "d' = d"
    | i c c' where "bucket (ht0 d) i = Some c" "chain_unlink d k c = Some c'"
        "d' = d\<lparr>ht0 := (set_bucket (ht0 d) i c')\<lparr>used := used (ht0 d) - 1\<rparr>\<rparr>"
    | i c c' where "bucket (ht1 d) i = Some c" "chain_unlink d k c = Some c'"
        "d' = d\<lparr>ht1 := (set_bucket (ht1 d) i c')\<lparr>used := used (ht1 d) - 1\<rparr>\<rparr>"
    by blast
  then show ?thesis
  proof cases
    case 1
    then show ?thesis by (simp add: no_move_def)
  next
    case 2
    have "no_move (Delete k) d d'"
    proof (rule no_move_primary)
      show "mset (entries (ht0 d')) \<subseteq># mset (entries (ht0 d)) + added_by (Delete k)"
        using unlink_entries [OF 2(1,2)] 2(3) by simp
      show "mset (entries (ht1 d')) \<subseteq># mset (entries (ht1 d))" using 2(3) by simp
    qed
    with 2(3) show ?thesis by simp
  next
    case 3
    have "no_move (Delete k) d d'"
    proof (rule no_move_primary)
      show "mset (entries (ht0 d')) \<subseteq># mset (entries (ht0 d)) + added_by (Delete k)"
        using 3(3) by simp
      show "mset (entries (ht1 d')) \<subseteq># mset (entries (ht1 d))"
        using unlink_entries [OF 3(1,2)] 3(3) by simp
    qed
    with 3(3) show ?thesis by simp
  qed
qed

lemma no_move_exec:
  assumes "exec_op can d x = Some d'" "iterators d \<noteq> 0"
  shows "no_move x d d' \<and> iterators d' = iterators d"
proof (cases x)
  case (Add k v)
  with assms(1) obtain st where "dictAdd can d k v = Some (st, d')" by auto
  from no_move_add [OF this assms(2)] Add show ?thesis by simp
next
  case (Find k)
  with assms(1) obtain r where "dictFind d k = Some (r, d')" by auto
  from no_move_find [OF this assms(2)] Find show ?thesis by simp
next
  case (Delete k)
  with assms(1) obtain st where "dictGenericDelete d k False = Some (st, d')"
    by (auto simp: dictDelete_def)
  from no_move_delete [OF this assms(2)] Delete show ?thesis by simp
qed

lemma steps_ok_all:
  assumes "iterators d \<noteq> 0"
  shows "steps_ok can d xs"
  using assms
proof (induction xs arbitrary: d)
  case Nil
  then show ?case by simp
next
  case (Cons x xs)
  show ?case
  proof (cases "exec_op can d x")
    case None
    then show ?thesis by simp
  next
    case (Some d')
    from no_move_exec [OF Some Cons.prems] have n: "no_move x d d'" "iterators d' = iterators d"
      by simp_all
    with Cons.prems have "iterators d' \<noteq> 0" by simp
    from Cons.IH [OF this] n Some show ?thesis by simp
  qed
qed

text \<open>
  C8. While the counter of live safe iterators is nonzero, the amortized rehash step
  \<^verbatim>\<open>_dictRehashStep\<close> leaves the table as it is, and every \<^verbatim>\<open>dictAdd\<close>, \<^verbatim>\<open>dictFind\<close> and
  \<^verbatim>\<open>dictDelete\<close> that returns leaves the counter unchanged and moves no entry between
  the primary and the incoming array: each array holds afterwards only entries it held
  before, and the entry the operation added. Hence the same holds at every step of every
  sequence of these operations.
\<close>

theorem no_move_while_iterating:
  assumes "iterators d \<noteq> 0"
  shows "dictRehashStep d = Some d \<and>
         (\<forall>x d'. exec_op can_resize d x = Some d' \<longrightarrow>
            no_move x d d' \<and> iterators d' = iterators d) \<and>
         (\<forall>xs. steps_ok can_resize d xs)"
proof (intro conjI allI impI)
  show "dictRehashStep d = Some d" using assms by (simp add: dictRehashStep_def)
next
  fix x d'
  assume "exec_op can_resize d x = Some d'"
  from no_move_exec [OF this assms]
  show "no_move x d d'" "iterators d' = iterators d" by simp_all
next
  fix xs
  show "steps_ok can_resize d xs" using assms by (rule steps_ok_all)
qed

theorem no_move_while_iterating_witness:
  "iterators ex_iterating \<noteq> 0 \<and>
   dictRehashStep ex_iterating = Some ex_iterating \<and>
   map_option (\<lambda>d. (map key (entries (ht0 d)), map key (entries (ht1 d))))
     (exec_op True ex_iterating (Add 9 90)) = Some ([1, 7], [8, 9, 4]) \<and>
   no_move (Add 9 90) ex_iterating (the (exec_op True ex_iterating (Add 9 90))) \<and>
   map_option (\<lambda>d. (map key (entries (ht0 d)), map key (entries (ht1 d))))
     (exec_op True ex_iterating (Find 4)) = Some ([1, 7], [8, 4]) \<and>
   no_move (Find 4) ex_iterating (the (exec_op True ex_iterating (Find 4))) \<and>
   map_option (\<lambda>d. (map key (entries (ht0 d)), map key (entries (ht1 d))))
     (exec_op True ex_iterating (Delete 1)) = Some ([7], [8, 4]) \<and>
   no_move (Delete 1) ex_iterating (the (exec_op True ex_iterating (Delete 1))) \<and>
   steps_ok True ex_iterating [Add 9 90, Find 4, Delete 1, Add 1 11] \<and>
   map_option (\<lambda>d. (map key (entries (ht0 d)), map key (entries (ht1 d))))
     (exec_op True ex_rehashing (Find 4)) = Some ([7], [8, 1, 4])"
proof -
  have n: "iterators ex_iterating \<noteq> 0" by (simp add: ex_iterating_def)
  note t = no_move_while_iterating [OF n, of True]
  have a: "map_option (\<lambda>d. (map key (entries (ht0 d)), map key (entries (ht1 d))))
     (exec_op True ex_iterating (Add 9 90)) = Some ([1, 7], [8, 9, 4])" by code_simp
  have f: "map_option (\<lambda>d. (map key (entries (ht0 d)), map key (entries (ht1 d))))
     (exec_op True ex_iterating (Find 4)) = Some ([1, 7], [8, 4])" by code_simp
  have d: "map_option (\<lambda>d. (map key (entries (ht0 d)), map key (entries (ht1 d))))
     (exec_op True ex_iterating (Delete 1)) = Some ([7], [8, 4])" by code_simp
  have c: "map_option (\<lambda>d. (map key (entries (ht0 d)), map key (entries (ht1 d))))
     (exec_op True ex_rehashing (Find 4)) = Some ([7], [8, 1, 4])" by code_simp
  from a obtain da where da: "exec_op True ex_iterating (Add 9 90) = Some da" by blast
  from f obtain df where df: "exec_op True ex_iterating (Find 4) = Some df" by blast
  from d obtain dd where dd: "exec_op True ex_iterating (Delete 1) = Some dd" by blast
  have na: "no_move (Add 9 90) ex_iterating (the (exec_op True ex_iterating (Add 9 90)))"
    unfolding da option.sel
    using t [THEN conjunct2, THEN conjunct1, rule_format, OF da] by (rule conjunct1)
  have nf: "no_move (Find 4) ex_iterating (the (exec_op True ex_iterating (Find 4)))"
    unfolding df option.sel
    using t [THEN conjunct2, THEN conjunct1, rule_format, OF df] by (rule conjunct1)
  have nd: "no_move (Delete 1) ex_iterating (the (exec_op True ex_iterating (Delete 1)))"
    unfolding dd option.sel
    using t [THEN conjunct2, THEN conjunct1, rule_format, OF dd] by (rule conjunct1)
  have s: "steps_ok True ex_iterating [Add 9 90, Find 4, Delete 1, Add 1 11]"
    by (rule t [THEN conjunct2, THEN conjunct2, rule_format])
  show ?thesis using n t [THEN conjunct1] a na f nf d nd s c by (intro conjI)
qed


subsection \<open>The rehash engine preserves the representation invariant\<close>

lemma unat_used_succ:
  fixes u :: ulong
  assumes "unat u < 2 ^ 30"
  shows "unat (u + 1) = Suc (unat u)"
proof -
  have "unat u + unat (1 :: ulong) < 2 ^ LENGTH(64)"
    using assms by simp
  then have "unat (u + 1) = unat u + unat (1 :: ulong)"
    by (simp only: unat_add_lem)
  then show ?thesis by simp
qed

lemma unat_used_minus:
  fixes u :: ulong
  assumes "n \<le> unat u"
  shows "unat (u - of_nat n) = unat u - n"
proof -
  have lt: "unat u < 2 ^ 64" using unsigned_less [of u, where 'a = nat] by simp
  with assms have n: "n < 2 ^ 64" by simp
  then have un: "unat (of_nat n :: ulong) = n" by (simp add: unat_of_nat)
  with assms have "(of_nat n :: ulong) \<le> u" by (simp add: word_le_nat_alt)
  then have "unat (u - of_nat n) = unat u - unat (of_nat n :: ulong)" by (rule unat_sub)
  with un show ?thesis by simp
qed

lemma bucket_Some:
  "bucket ht i = Some c \<longleftrightarrow> (\<exists>t. table ht = Some t \<and> i < length t \<and> c = t ! i)"
  by (auto simp: bucket_def split: option.splits)

lemma ht_wf_link:
  assumes "ht_wf ty ht" "bucket ht i = Some c" "slot_of ty ht (key e) = i"
    "unat (used ht) < 2 ^ 30"
  shows "ht_wf ty ((set_bucket ht i (e # c))\<lparr>used := used ht + 1\<rparr>)"
proof -
  from assms(2) obtain t where t: "table ht = Some t" "i < length t" "c = t ! i"
    by (auto simp: bucket_Some)
  note w = wf_ht_alloc [OF assms(1) t(1)]
  have p: "\<exists>n \<in> {2..30}. size_ht ht = 2 ^ n" using assms(1) t(1) by (simp add: ht_wf_def)
  have len: "length (concat (t[i := e # c])) = Suc (length (concat t))"
    using length_concat_update [OF t(2), of "e # c"] t(3) by simp
  have slot: "slot_of ty ht (key x) = l" if "l < length t" "x \<in> set (t[i := e # c] ! l)" for l x
  proof (cases "l = i")
    case True
    with that t have "x = e \<or> x \<in> set (t ! i)" by simp
    with True assms(3) w(5) [OF t(2)] show ?thesis by blast
  next
    case False
    with that have "x \<in> set (t ! l)" by simp
    with w(5) [OF that(1)] show ?thesis by blast
  qed
  show ?thesis
    unfolding ht_wf_def
    using t p w(2,3,4) len unat_used_succ [OF assms(4)] slot
    by (simp add: set_bucket_def)
qed

lemma ht_wf_shrink:
  assumes "ht_wf ty ht" "bucket ht i = Some c" "set c' \<subseteq> set c" "length c' \<le> length c"
  shows "ht_wf ty ((set_bucket ht i c')\<lparr>used := used ht - of_nat (length c - length c')\<rparr>)"
proof -
  from assms(2) obtain t where t: "table ht = Some t" "i < length t" "c = t ! i"
    by (auto simp: bucket_Some)
  note w = wf_ht_alloc [OF assms(1) t(1)]
  have p: "\<exists>n \<in> {2..30}. size_ht ht = 2 ^ n" using assms(1) t(1) by (simp add: ht_wf_def)
  have lc: "length (concat (t[i := c'])) + length c = length (concat t) + length c'"
    using length_concat_update [OF t(2), of c'] t(3) by simp
  then have le: "length c - length c' \<le> unat (used ht)" using w(4) assms(4) by linarith
  have len: "unat (used ht - of_nat (length c - length c')) = length (concat (t[i := c']))"
    using unat_used_minus [OF le] lc w(4) assms(4) by linarith
  have slot: "slot_of ty ht (key x) = l" if "l < length t" "x \<in> set (t[i := c'] ! l)" for l x
  proof (cases "l = i")
    case True
    with that t assms(3) have "x \<in> set (t ! i)" by auto
    with True w(5) [OF t(2)] show ?thesis by blast
  next
    case False
    with that have "x \<in> set (t ! l)" by simp
    with w(5) [OF that(1)] show ?thesis by blast
  qed
  show ?thesis
    unfolding ht_wf_def
    using t p w(2,3) len slot
    by (simp add: set_bucket_def)
qed

lemma set_bucket_used:
  "set_bucket (ht\<lparr>used := u\<rparr>) i c = (set_bucket ht i c)\<lparr>used := u\<rparr>"
  by (simp add: set_bucket_def)

lemma bucket_used [simp]: "bucket (ht\<lparr>used := u\<rparr>) i = bucket ht i"
  by (simp add: bucket_def)

lemma wf_used_entries:
  assumes "ht_wf ty ht"
  shows "unat (used ht) = length (entries ht)"
  using assms by (auto simp: ht_wf_def entries_def split: option.splits)

lemma wf_bucket_slot:
  assumes "ht_wf ty ht" "table ht \<noteq> None"
  shows "\<exists>c. bucket ht (slot_of ty ht k) = Some c"
proof -
  from assms(2) obtain t where t: "table ht = Some t" by blast
  from slot_in_range [OF assms(1) t] t show ?thesis by (simp add: bucket_def)
qed

lemma chain_le_concat:
  assumes "i < length t"
  shows "length (t ! i) \<le> length (concat t)"
  using length_concat_update [OF assms, of "[]"] by simp

lemma dict_wf_lengths:
  assumes "dict_wf d"
  shows "length (entries (ht0 d)) + length (entries (ht1 d)) \<le> 2 ^ 29"
proof -
  from assms have w: "ht_wf (type d) (ht0 d)" "ht_wf (type d) (ht1 d)"
    and b: "used (ht0 d) \<le> max_entries \<and> used (ht1 d) \<le> max_entries - used (ht0 d)"
    by (simp_all add: dict_wf_def)
  from b have "unat (used (ht0 d)) + unat (used (ht1 d)) \<le> 2 ^ 29" by (simp only: bound_nat)
  with wf_used_entries [OF w(1)] wf_used_entries [OF w(2)] show ?thesis by simp
qed

lemma dict_wfI:
  assumes "ht_wf (type d) (ht0 d)" "ht_wf (type d) (ht1 d)"
    and "if dictIsRehashing d
      then table (ht0 d) \<noteq> None \<and> table (ht1 d) \<noteq> None \<and>
           0 \<le> sint (rehashidx d) \<and> sint (rehashidx d) \<le> int (unat (size_ht (ht0 d))) \<and>
           cursor_inv d
      else ht1 d = dictReset"
    and "keys_unique (type d) (entries (ht0 d) @ entries (ht1 d))"
    and "length (entries (ht0 d)) + length (entries (ht1 d)) \<le> 2 ^ 29"
  shows "dict_wf d"
proof -
  from assms(5) wf_used_entries [OF assms(1)] wf_used_entries [OF assms(2)]
  have "unat (used (ht0 d)) + unat (used (ht1 d)) \<le> 2 ^ 29" by simp
  then have "used (ht0 d) \<le> max_entries \<and> used (ht1 d) \<le> max_entries - used (ht0 d)"
    by (simp only: bound_nat)
  with assms(1-4) show ?thesis unfolding dict_wf_def by blast
qed

lemma rehash_chain_wf:
  assumes "ht_wf (type d) (ht1 d)" "table (ht1 d) \<noteq> None"
    "unat (used (ht1 d)) + length es \<le> 2 ^ 29"
  shows "\<exists>d'. rehash_chain d es = Some d' \<and> ht_wf (type d) (ht1 d') \<and>
           table (ht1 d') \<noteq> None \<and>
           mset (entries (ht1 d')) = mset (entries (ht1 d)) + mset es \<and>
           ht0 d' = (ht0 d)\<lparr>used := used (ht0 d) - of_nat (length es)\<rparr> \<and>
           type d' = type d \<and> rehashidx d' = rehashidx d \<and> iterators d' = iterators d"
  using assms
proof (induction es arbitrary: d)
  case Nil
  then show ?case by simp
next
  case (Cons de nextde)
  define i where "i = slot_of (type d) (ht1 d) (key de)"
  have h: "unat (dictHashKey d (key de) AND ucast (sizemask (ht1 d))) = i"
    by (simp add: i_def slot_of_def dictHashKey_def)
  from wf_bucket_slot [OF Cons.prems(1,2)] obtain c where c: "bucket (ht1 d) i = Some c"
    unfolding i_def by blast
  define d2 where "d2 = d\<lparr>ht0 := (ht0 d)\<lparr>used := used (ht0 d) - 1\<rparr>,
                  ht1 := (set_bucket (ht1 d) i (de # c))\<lparr>used := used (ht1 d) + 1\<rparr>\<rparr>"
  have step: "rehash_chain d (de # nextde) = rehash_chain d2 nextde"
    using c h by (simp add: d2_def Let_def)
  from Cons.prems(3) have small: "unat (used (ht1 d)) < 2 ^ 30" by simp
  have w2: "ht_wf (type d2) (ht1 d2)"
    using ht_wf_link [OF Cons.prems(1) c _ small, where e = de] by (simp add: d2_def i_def)
  from c have t2: "table (ht1 d2) \<noteq> None"
    by (auto simp: d2_def set_bucket_def bucket_Some)
  have u2: "unat (used (ht1 d2)) + length nextde \<le> 2 ^ 29"
    using unat_used_succ [OF small] Cons.prems(3) by (simp add: d2_def)
  from Cons.IH [OF w2 t2 u2] obtain d' where d': "rehash_chain d2 nextde = Some d'"
    "ht_wf (type d2) (ht1 d')" "table (ht1 d') \<noteq> None"
    "mset (entries (ht1 d')) = mset (entries (ht1 d2)) + mset nextde"
    "ht0 d' = (ht0 d2)\<lparr>used := used (ht0 d2) - of_nat (length nextde)\<rparr>"
    "type d' = type d2" "rehashidx d' = rehashidx d2" "iterators d' = iterators d2"
    by blast
  have e2: "mset (entries (ht1 d2)) = add_mset de (mset (entries (ht1 d)))"
    using link_entries [OF c, where e = de] by (simp add: d2_def)
  have "ht0 d' = (ht0 d)\<lparr>used := used (ht0 d) - of_nat (length (de # nextde))\<rparr>"
    using d'(5) by (simp add: d2_def algebra_simps)
  moreover have "mset (entries (ht1 d')) = mset (entries (ht1 d)) + mset (de # nextde)"
    using d'(4) e2 by simp
  ultimately show ?case using step d'(1,2,3,6,7,8) by (simp add: d2_def)
qed

lemma dict_wfD:
  assumes "dict_wf d"
  shows "ht_wf (type d) (ht0 d)" "ht_wf (type d) (ht1 d)"
    "keys_unique (type d) (entries (ht0 d) @ entries (ht1 d))"
    "dictIsRehashing d \<Longrightarrow> table (ht0 d) \<noteq> None"
    "dictIsRehashing d \<Longrightarrow> table (ht1 d) \<noteq> None"
    "dictIsRehashing d \<Longrightarrow> cursor_inv d"
    "\<not> dictIsRehashing d \<Longrightarrow> ht1 d = dictReset"
  using assms by (simp_all add: dict_wf_def)

lemma entries_dictReset [simp]: "entries dictReset = []"
  by (simp add: entries_def dictReset_def)

lemma ht_wf_dictReset [simp]: "ht_wf ty dictReset"
  by (simp add: ht_wf_def dictReset_def)

lemma dictRehash_body_wf:
  assumes "dict_wf d" "dictIsRehashing d"
  shows "\<exists>r d'. dictRehash_body d = Some r \<and> (r = Inl d' \<or> r = Inr d') \<and> dict_wf d' \<and>
           type d' = type d \<and> iterators d' = iterators d \<and>
           mset (entries (ht0 d')) + mset (entries (ht1 d'))
             = mset (entries (ht0 d)) + mset (entries (ht1 d)) \<and>
           table (ht0 d') \<noteq> None"
proof (cases "used (ht0 d) = 0")
  case True
  note w = dict_wfD [OF assms(1)]
  define d' where "d' = d\<lparr>ht0 := ht1 d, ht1 := dictReset, rehashidx := - 1\<rparr>"
  have b: "dictRehash_body d = Some (Inl d')" using True by (simp add: dictRehash_body_def d'_def)
  have e0: "entries (ht0 d) = []" using wf_used_entries [OF w(1)] True by simp
  have "dict_wf d'"
  proof (rule dict_wfI)
    show "ht_wf (type d') (ht0 d')" using w(2) by (simp add: d'_def)
    show "ht_wf (type d') (ht1 d')" by (simp add: d'_def)
    show "if dictIsRehashing d'
      then table (ht0 d') \<noteq> None \<and> table (ht1 d') \<noteq> None \<and>
           0 \<le> sint (rehashidx d') \<and> sint (rehashidx d') \<le> int (unat (size_ht (ht0 d'))) \<and>
           cursor_inv d'
      else ht1 d' = dictReset"
      by (simp add: d'_def dictIsRehashing_def)
    show "keys_unique (type d') (entries (ht0 d') @ entries (ht1 d'))"
      using w(3) e0 by (simp add: d'_def)
    show "length (entries (ht0 d')) + length (entries (ht1 d')) \<le> 2 ^ 29"
      using dict_wf_lengths [OF assms(1)] by (simp add: d'_def)
  qed
  moreover have "table (ht0 d') \<noteq> None" using w(5) [OF assms(2)] by (simp add: d'_def)
  moreover have "mset (entries (ht0 d')) + mset (entries (ht1 d'))
             = mset (entries (ht0 d)) + mset (entries (ht1 d))"
    using e0 by (simp add: d'_def)
  moreover have "type d' = type d" "iterators d' = iterators d" by (simp_all add: d'_def)
  ultimately show ?thesis using b by blast
next
  case False
  note w = dict_wfD [OF assms(1)]
  from dictRehash_body_drain [OF assms False] obtain D where D: "dictRehash_body d = Some (Inr D)"
    by blast
  from dictRehash_body_Inr [OF D] obtain i t d'' where
    sk: "skip_empty (ht0 d) (rehashidx d) = Some i" and t: "table (ht0 d) = Some t"
    and i: "unat i < length t" "0 \<le> sint i" "i \<noteq> INT_MAX"
    and rc: "rehash_chain (d\<lparr>rehashidx := i\<rparr>) (t ! unat i) = Some d''"
    and De: "D = d''\<lparr>ht0 := set_bucket (ht0 d'') (unat i) [], rehashidx := i + 1\<rparr>"
    by blast
  define es where "es = t ! unat i"
  have bk: "bucket (ht0 d) (unat i) = Some es" using t i(1) by (simp add: bucket_def es_def)
  have les: "length es \<le> length (entries (ht0 d))"
    using chain_le_concat [OF i(1)] t by (simp add: entries_def es_def)
  have bnd: "unat (used (ht1 (d\<lparr>rehashidx := i\<rparr>))) + length es \<le> 2 ^ 29"
    using les dict_wf_lengths [OF assms(1)] wf_used_entries [OF w(2)] by simp
  have "\<exists>d'. rehash_chain (d\<lparr>rehashidx := i\<rparr>) es = Some d' \<and>
           ht_wf (type (d\<lparr>rehashidx := i\<rparr>)) (ht1 d') \<and>
           table (ht1 d') \<noteq> None \<and>
           mset (entries (ht1 d')) = mset (entries (ht1 (d\<lparr>rehashidx := i\<rparr>))) + mset es \<and>
           ht0 d' = (ht0 (d\<lparr>rehashidx := i\<rparr>))
                      \<lparr>used := used (ht0 (d\<lparr>rehashidx := i\<rparr>)) - of_nat (length es)\<rparr> \<and>
           type d' = type (d\<lparr>rehashidx := i\<rparr>) \<and>
           rehashidx d' = rehashidx (d\<lparr>rehashidx := i\<rparr>) \<and>
           iterators d' = iterators (d\<lparr>rehashidx := i\<rparr>)"
  proof (rule rehash_chain_wf)
    show "ht_wf (type (d\<lparr>rehashidx := i\<rparr>)) (ht1 (d\<lparr>rehashidx := i\<rparr>))" using w(2) by simp
    show "table (ht1 (d\<lparr>rehashidx := i\<rparr>)) \<noteq> None" using w(5) [OF assms(2)] by simp
    show "unat (used (ht1 (d\<lparr>rehashidx := i\<rparr>))) + length es \<le> 2 ^ 29" by (rule bnd)
  qed
  with rc have r: "ht_wf (type d) (ht1 d'')" "table (ht1 d'') \<noteq> None"
    "mset (entries (ht1 d'')) = mset (entries (ht1 d)) + mset es"
    "ht0 d'' = (ht0 d)\<lparr>used := used (ht0 d) - of_nat (length es)\<rparr>"
    "type d'' = type d" "iterators d'' = iterators d"
    by (auto simp: es_def)
  have h0: "ht0 D = (set_bucket (ht0 d) (unat i) [])\<lparr>used := used (ht0 d) - of_nat (length es)\<rparr>"
    using r(4) by (simp add: De set_bucket_used)
  have h1: "ht1 D = ht1 d''" "type D = type d" "iterators D = iterators d" "rehashidx D = i + 1"
    using r(5,6) by (simp_all add: De)
  have w0': "ht_wf (type D) (ht0 D)"
    using ht_wf_shrink [OF w(1) bk, of "[]"] by (simp add: h0 h1)
  have e0': "mset (entries (ht0 D)) + mset es = mset (entries (ht0 d))"
    using entries_set_bucket [OF bk, of "[]"] by (simp add: h0)
  have tot: "mset (entries (ht0 D)) + mset (entries (ht1 D))
             = mset (entries (ht0 d)) + mset (entries (ht1 d))"
    using e0' r(3) by (simp add: h1 ac_simps)
  then have mtot: "mset (entries (ht0 D) @ entries (ht1 D)) = mset (entries (ht0 d) @ entries (ht1 d))"
    by simp
  from dictRehash_body_cursor [OF D w(6) [OF assms(2)] assms(2)]
  have cur: "cursor_inv D" "dictIsRehashing D" by simp_all
  have t0': "table (ht0 D) \<noteq> None" using t by (simp add: h0 set_bucket_def)
  have sz: "size_ht (ht0 D) = size_ht (ht0 d)" by (simp add: h0 set_bucket_def)
  have lt: "length t = unat (size_ht (ht0 d))" using wf_ht_alloc(2) [OF w(1) t] .
  note s = cint_succ [OF i(2,3)]
  have "int (unat (i + 1)) = sint (i + 1)" by (rule unat_nonneg [OF s(1)])
  moreover have "unat (i + 1) \<le> unat (size_ht (ht0 d))" using s(2) i(1) lt by linarith
  ultimately have "sint (i + 1) \<le> int (unat (size_ht (ht0 d)))" by linarith
  then have idx: "0 \<le> sint (rehashidx D)" "sint (rehashidx D) \<le> int (unat (size_ht (ht0 D)))"
    using s(1) unfolding h1 sz by blast+
  have "dict_wf D"
  proof (rule dict_wfI)
    show "ht_wf (type D) (ht0 D)" by (rule w0')
    show "ht_wf (type D) (ht1 D)" using r(1) by (simp add: h1)
    show "if dictIsRehashing D
      then table (ht0 D) \<noteq> None \<and> table (ht1 D) \<noteq> None \<and>
           0 \<le> sint (rehashidx D) \<and> sint (rehashidx D) \<le> int (unat (size_ht (ht0 D))) \<and>
           cursor_inv D
      else ht1 D = dictReset"
      using cur t0' r(2) idx by (simp add: h1)
    show "keys_unique (type D) (entries (ht0 D) @ entries (ht1 D))"
      using w(3) keys_unique_mset [OF mtot, of "type d"] by (simp add: h1)
    have "length (entries (ht0 D) @ entries (ht1 D)) = length (entries (ht0 d) @ entries (ht1 d))"
      using mtot by (rule mset_eq_length)
    then show "length (entries (ht0 D)) + length (entries (ht1 D)) \<le> 2 ^ 29"
      using dict_wf_lengths [OF assms(1)] by simp
  qed
  with D tot t0' h1(2,3) show ?thesis by blast
qed

lemma step_wf:
  assumes "dict_wf d"
  shows "\<exists>d'. (if dictIsRehashing d then dictRehashStep d else Some d) = Some d' \<and> dict_wf d' \<and>
           type d' = type d \<and> iterators d' = iterators d \<and>
           mset (entries (ht0 d')) + mset (entries (ht1 d'))
             = mset (entries (ht0 d)) + mset (entries (ht1 d)) \<and>
           (size_ht (ht0 d) \<noteq> 0 \<longrightarrow> table (ht0 d') \<noteq> None)"
proof (cases "dictIsRehashing d \<and> iterators d = 0")
  case True
  from dictRehash_body_wf [OF assms] True obtain r d' where
    r: "dictRehash_body d = Some r" "r = Inl d' \<or> r = Inr d'" "dict_wf d'"
    "type d' = type d" "iterators d' = iterators d"
    "mset (entries (ht0 d')) + mset (entries (ht1 d'))
             = mset (entries (ht0 d)) + mset (entries (ht1 d))"
    "table (ht0 d') \<noteq> None"
    by blast
  from r(1,2) True have "dictRehashStep d = Some d'"
    by (auto simp: dictRehashStep_def dictRehash_one)
  with True r(3-7) show ?thesis by simp
next
  case False
  have "(if dictIsRehashing d then dictRehashStep d else Some d) = Some d"
    using False by (auto simp: dictRehashStep_def)
  moreover have "size_ht (ht0 d) \<noteq> 0 \<longrightarrow> table (ht0 d) \<noteq> None"
    using wf_size_zero_iff [OF dict_wfD(1) [OF assms]] by simp
  ultimately show ?thesis using assms by simp
qed

lemma dictRehash_loop_wf:
  assumes "dict_wf d" "dictIsRehashing d"
  shows "\<exists>r d'. dictRehash_loop d n = Some (r, d') \<and> dict_wf d' \<and>
           mset (entries (ht0 d')) + mset (entries (ht1 d'))
             = mset (entries (ht0 d)) + mset (entries (ht1 d)) \<and>
           (if dictIsRehashing d' then r = 1 \<and> rtranclp drain_step d d'
            else r = 0 \<and>
              (\<exists>d''. rtranclp drain_step d d'' \<and> dictIsRehashing d'' \<and> used (ht0 d'') = 0 \<and>
                     d' = d''\<lparr>ht0 := ht1 d'', ht1 := dictReset, rehashidx := - 1\<rparr>))"
  using assms
proof (induction d n rule: dictRehash_loop.induct)
  case (1 d n)
  show ?case
  proof (cases "n = 0")
    case True
    then have "dictRehash_loop d n = Some (1, d)" by (subst dictRehash_loop.simps) simp
    with "1.prems" show ?thesis by simp
  next
    case False
    from dictRehash_body_wf [OF "1.prems"] obtain x d1 where
      x: "dictRehash_body d = Some x" "x = Inl d1 \<or> x = Inr d1" "dict_wf d1"
        "mset (entries (ht0 d1)) + mset (entries (ht1 d1))
             = mset (entries (ht0 d)) + mset (entries (ht1 d))"
      by blast
    from x(2) show ?thesis
    proof
      assume l: "x = Inl d1"
      with x(1) have b: "dictRehash_body d = Some (Inl d1)" by simp
      from dictRehash_body_Inl [OF b]
      have u: "used (ht0 d) = 0" "d1 = d\<lparr>ht0 := ht1 d, ht1 := dictReset, rehashidx := - 1\<rparr>"
        by simp_all
      have r: "dictRehash_loop d n = Some (0, d1)"
        using False b by (subst dictRehash_loop.simps) simp
      have nr: "\<not> dictIsRehashing d1" by (simp add: u(2) dictIsRehashing_def)
      have "\<exists>d''. rtranclp drain_step d d'' \<and> dictIsRehashing d'' \<and> used (ht0 d'') = 0 \<and>
                     d1 = d''\<lparr>ht0 := ht1 d'', ht1 := dictReset, rehashidx := - 1\<rparr>"
        using "1.prems"(2) u by blast
      with r nr x(3,4) show ?thesis by simp
    next
      assume i: "x = Inr d1"
      with x(1) have b: "dictRehash_body d = Some (Inr d1)" by simp
      have r1: "dictIsRehashing d1" by (rule dictRehash_body_rehashing [OF b])
      from dictRehash_body_Inr [OF b] have nz: "used (ht0 d) \<noteq> 0" by blast
      have "dictRehash d 1 = Some (1, d1)"
        by (simp only: dictRehash_one [OF "1.prems"(2)] b option.case sum.case)
      with "1.prems" nz have ds: "drain_step d d1" by (simp add: drain_step_def)
      have unf: "dictRehash_loop d n = dictRehash_loop d1 (n - 1)"
        using False b by (subst dictRehash_loop.simps) simp
      from "1.IH" [OF False x(1) i x(3) r1] obtain r d' where
        ih: "dictRehash_loop d1 (n - 1) = Some (r, d')" "dict_wf d'"
          "mset (entries (ht0 d')) + mset (entries (ht1 d'))
             = mset (entries (ht0 d1)) + mset (entries (ht1 d1))"
          "if dictIsRehashing d' then r = 1 \<and> rtranclp drain_step d1 d'
            else r = 0 \<and>
              (\<exists>d''. rtranclp drain_step d1 d'' \<and> dictIsRehashing d'' \<and> used (ht0 d'') = 0 \<and>
                     d' = d''\<lparr>ht0 := ht1 d'', ht1 := dictReset, rehashidx := - 1\<rparr>)"
        by blast
      have up: "rtranclp drain_step d y" if "rtranclp drain_step d1 y" for y
        using ds that by (rule converse_rtranclp_into_rtranclp)
      have "if dictIsRehashing d' then r = 1 \<and> rtranclp drain_step d d'
            else r = 0 \<and>
              (\<exists>d''. rtranclp drain_step d d'' \<and> dictIsRehashing d'' \<and> used (ht0 d'') = 0 \<and>
                     d' = d''\<lparr>ht0 := ht1 d'', ht1 := dictReset, rehashidx := - 1\<rparr>)"
      proof (cases "dictIsRehashing d'")
        case True
        with ih(4) up show ?thesis by simp
      next
        case nr: False
        with ih(4) obtain d'' where "r = 0" "rtranclp drain_step d1 d''" "dictIsRehashing d''"
          "used (ht0 d'') = 0" "d' = d''\<lparr>ht0 := ht1 d'', ht1 := dictReset, rehashidx := - 1\<rparr>"
          by auto
        with up [of d''] nr show ?thesis by auto
      qed
      with unf ih(1,2,3) x(4) show ?thesis by simp
    qed
  qed
qed

subsection \<open>C1: one rehash step\<close>

text \<open>
  C1, as amended. On a well-formed rehashing table, \<^verbatim>\<open>dictRehash(d, 1)\<close> behaves as
  follows. If the primary count is 0 it returns 0, having promoted the incoming generation
  to primary, reset the incoming generation and set the cursor to \<open>-1\<close>. Otherwise it
  returns 1, and there is a slot \<open>j\<close> at or after the cursor, the first one whose chain is
  not empty, such that afterwards slot \<open>j\<close> of the primary array is empty, every chain
  of the incoming array is the reversed list of the entries of the drained chain whose
  hash, masked with the incoming mask, is its index, followed by the chain it held before,
  the primary count has gone down and the incoming count has gone up by the length of the
  drained chain, and the cursor is \<open>j + 1\<close>. A call of \<^verbatim>\<open>dictRehash\<close> with a step count
  that is not negative returns; whatever the step count, the table it returns is well
  formed and holds the entries the table held before, with their multiplicities. If that
  table is still rehashing, the call returned 1 and the table was reached from the
  initial one by a sequence of such migrating steps. If it is stable, the call returned 0
  and the table is the completion (promotion of the incoming generation, reset of the
  incoming generation, cursor \<open>-1\<close>) of a rehashing table whose primary count is 0 and
  that was reached from the initial one by a sequence of migrating steps: the rehash
  engine leaves the rehashing state in no other way, and it drops no entry. Completion
  is not the only transition back to the stable state: \<^verbatim>\<open>dictEmpty\<close> resets both
  generations and sets the cursor to \<open>-1\<close> as well.
\<close>

theorem dictRehash_step_spec:
  assumes "dict_wf d" "dictIsRehashing d"
  shows "(used (ht0 d) = 0 \<longrightarrow>
            dictRehash d 1 = Some (0, d\<lparr>ht0 := ht1 d, ht1 := dictReset, rehashidx := - 1\<rparr>)) \<and>
         (used (ht0 d) \<noteq> 0 \<longrightarrow>
            (\<exists>j t0 t1 t1'. table (ht0 d) = Some t0 \<and> table (ht1 d) = Some t1 \<and>
               unat (rehashidx d) \<le> j \<and> j < length t0 \<and> t0 ! j \<noteq> [] \<and>
               (\<forall>l. unat (rehashidx d) \<le> l \<and> l < j \<longrightarrow> t0 ! l = []) \<and>
               length t1' = length t1 \<and>
               (\<forall>i < length t1. t1' ! i =
                  rev (filter (\<lambda>e. slot_of (type d) (ht1 d) (key e) = i) (t0 ! j)) @ t1 ! i) \<and>
               dictRehash d 1 =
                 Some (1, d\<lparr>ht0 := (ht0 d)\<lparr>table := Some (t0[j := []]),
                                           used := used (ht0 d) - of_nat (length (t0 ! j))\<rparr>,
                            ht1 := (ht1 d)\<lparr>table := Some t1',
                                           used := used (ht1 d) + of_nat (length (t0 ! j))\<rparr>,
                            rehashidx := of_nat (Suc j)\<rparr>))) \<and>
         (\<forall>n r d'. dictRehash d n = Some (r, d') \<longrightarrow>
            dict_wf d' \<and>
            mset (entries (ht0 d')) + mset (entries (ht1 d'))
              = mset (entries (ht0 d)) + mset (entries (ht1 d)) \<and>
            (if dictIsRehashing d' then r = 1 \<and> rtranclp drain_step d d'
             else r = 0 \<and>
               (\<exists>d''. rtranclp drain_step d d'' \<and> dictIsRehashing d'' \<and> used (ht0 d'') = 0 \<and>
                      d' = d''\<lparr>ht0 := ht1 d'', ht1 := dictReset, rehashidx := - 1\<rparr>))) \<and>
         (\<forall>n. 0 \<le> sint n \<longrightarrow> (\<exists>r d'. dictRehash d n = Some (r, d'))) \<and>
         dictEmpty d = Some (d\<lparr>ht0 := dictReset, ht1 := dictReset, rehashidx := - 1, iterators := 0\<rparr>)"
proof (intro conjI allI impI)
  assume "used (ht0 d) = 0"
  then show "dictRehash d 1 = Some (0, d\<lparr>ht0 := ht1 d, ht1 := dictReset, rehashidx := - 1\<rparr>)"
    by (simp add: dictRehash_one [OF assms(2)] dictRehash_body_def)
next
  assume u: "used (ht0 d) \<noteq> 0"
  from dictRehash_body_drain [OF assms u] obtain j t0 t1 t1' where
    p: "table (ht0 d) = Some t0" "table (ht1 d) = Some t1"
      "unat (rehashidx d) \<le> j" "j < length t0" "t0 ! j \<noteq> []"
      "\<forall>l. unat (rehashidx d) \<le> l \<and> l < j \<longrightarrow> t0 ! l = []"
      "length t1' = length t1"
      "\<forall>i < length t1. t1' ! i =
          rev (filter (\<lambda>e. slot_of (type d) (ht1 d) (key e) = i) (t0 ! j)) @ t1 ! i"
    and b: "dictRehash_body d =
             Some (Inr (d\<lparr>ht0 := (ht0 d)\<lparr>table := Some (t0[j := []]),
                                        used := used (ht0 d) - of_nat (length (t0 ! j))\<rparr>,
                         ht1 := (ht1 d)\<lparr>table := Some t1',
                                        used := used (ht1 d) + of_nat (length (t0 ! j))\<rparr>,
                         rehashidx := of_nat (Suc j)\<rparr>))"
    by blast
  have "dictRehash d 1 =
      Some (1, d\<lparr>ht0 := (ht0 d)\<lparr>table := Some (t0[j := []]),
                                used := used (ht0 d) - of_nat (length (t0 ! j))\<rparr>,
                 ht1 := (ht1 d)\<lparr>table := Some t1',
                                used := used (ht1 d) + of_nat (length (t0 ! j))\<rparr>,
                 rehashidx := of_nat (Suc j)\<rparr>)"
    by (simp only: dictRehash_one [OF assms(2)] b option.case sum.case)
  with p show "\<exists>j t0 t1 t1'. table (ht0 d) = Some t0 \<and> table (ht1 d) = Some t1 \<and>
               unat (rehashidx d) \<le> j \<and> j < length t0 \<and> t0 ! j \<noteq> [] \<and>
               (\<forall>l. unat (rehashidx d) \<le> l \<and> l < j \<longrightarrow> t0 ! l = []) \<and>
               length t1' = length t1 \<and>
               (\<forall>i < length t1. t1' ! i =
                  rev (filter (\<lambda>e. slot_of (type d) (ht1 d) (key e) = i) (t0 ! j)) @ t1 ! i) \<and>
               dictRehash d 1 =
                 Some (1, d\<lparr>ht0 := (ht0 d)\<lparr>table := Some (t0[j := []]),
                                           used := used (ht0 d) - of_nat (length (t0 ! j))\<rparr>,
                            ht1 := (ht1 d)\<lparr>table := Some t1',
                                           used := used (ht1 d) + of_nat (length (t0 ! j))\<rparr>,
                            rehashidx := of_nat (Suc j)\<rparr>)"
    by blast
next
  fix n r d'
  assume a: "dictRehash d n = Some (r, d')"
  then have l: "dictRehash_loop d n = Some (r, d')" using assms(2) by (simp add: dictRehash_def)
  from dictRehash_loop_wf [OF assms, of n] l
  show "dict_wf d'" "mset (entries (ht0 d')) + mset (entries (ht1 d'))
              = mset (entries (ht0 d)) + mset (entries (ht1 d))"
    "if dictIsRehashing d' then r = 1 \<and> rtranclp drain_step d d'
             else r = 0 \<and>
               (\<exists>d''. rtranclp drain_step d d'' \<and> dictIsRehashing d'' \<and> used (ht0 d'') = 0 \<and>
                      d' = d''\<lparr>ht0 := ht1 d'', ht1 := dictReset, rehashidx := - 1\<rparr>)"
    by auto
next
  fix n :: cint
  from dictRehash_loop_wf [OF assms, of n] show "\<exists>r d'. dictRehash d n = Some (r, d')"
    using assms(2) by (auto simp: dictRehash_def)
next
  from assms(1) have "ht_wf (type d) (ht0 d)" "ht_wf (type d) (ht1 d)"
    by (simp_all add: dict_wf_def)
  then show "dictEmpty d =
      Some (d\<lparr>ht0 := dictReset, ht1 := dictReset, rehashidx := - 1, iterators := 0\<rparr>)"
    by (simp add: dictEmpty_def dictClear_wf)
qed


theorem dictRehash_step_spec_witness:
  "dict_wf ex_drained \<and> dictIsRehashing ex_drained \<and> used (ht0 ex_drained) = 0 \<and>
   dictRehash ex_drained 1
     = Some (0, ex_drained\<lparr>ht0 := ht1 ex_drained, ht1 := dictReset, rehashidx := - 1\<rparr>) \<and>
   \<not> dictIsRehashing (ex_drained\<lparr>ht0 := ht1 ex_drained, ht1 := dictReset, rehashidx := - 1\<rparr>) \<and>
   dict_wf ex_rehashing \<and> dictIsRehashing ex_rehashing \<and> used (ht0 ex_rehashing) \<noteq> 0 \<and>
   (\<exists>j t0 t1 t1'. table (ht0 ex_rehashing) = Some t0 \<and> table (ht1 ex_rehashing) = Some t1 \<and>
      unat (rehashidx ex_rehashing) \<le> j \<and> j < length t0 \<and> t0 ! j \<noteq> [] \<and>
      (\<forall>l. unat (rehashidx ex_rehashing) \<le> l \<and> l < j \<longrightarrow> t0 ! l = []) \<and>
      length t1' = length t1 \<and>
      (\<forall>i < length t1. t1' ! i =
         rev (filter (\<lambda>e. slot_of (type ex_rehashing) (ht1 ex_rehashing) (key e) = i) (t0 ! j))
           @ t1 ! i) \<and>
      dictRehash ex_rehashing 1 =
        Some (1, ex_rehashing
          \<lparr>ht0 := (ht0 ex_rehashing)\<lparr>table := Some (t0[j := []]),
                     used := used (ht0 ex_rehashing) - of_nat (length (t0 ! j))\<rparr>,
           ht1 := (ht1 ex_rehashing)\<lparr>table := Some t1',
                     used := used (ht1 ex_rehashing) + of_nat (length (t0 ! j))\<rparr>,
           rehashidx := of_nat (Suc j)\<rparr>)) \<and>
   map_option fst (dictRehash ex_rehashing 5) = Some 0 \<and>
   map_option (dictIsRehashing \<circ> snd) (dictRehash ex_rehashing 5) = Some False \<and>
   map_option (\<lambda>x. (map key (entries (ht0 (snd x))), map key (entries (ht1 (snd x)))))
     (dictRehash ex_rehashing 5) = Some ([8, 1, 4, 7], []) \<and>
   dict_wf (snd (the (dictRehash ex_rehashing 5))) \<and>
   mset (entries (ht0 (snd (the (dictRehash ex_rehashing 5))))) +
     mset (entries (ht1 (snd (the (dictRehash ex_rehashing 5)))))
     = mset (entries (ht0 ex_rehashing)) + mset (entries (ht1 ex_rehashing)) \<and>
   (\<exists>d''. rtranclp drain_step ex_rehashing d'' \<and> dictIsRehashing d'' \<and> used (ht0 d'') = 0 \<and>
      snd (the (dictRehash ex_rehashing 5))
        = d''\<lparr>ht0 := ht1 d'', ht1 := dictReset, rehashidx := - 1\<rparr>) \<and>
   map_option fst (dictRehash ex_rehashing 1) = Some 1 \<and>
   map_option (dictIsRehashing \<circ> snd) (dictRehash ex_rehashing 1) = Some True \<and>
   rtranclp drain_step ex_rehashing (snd (the (dictRehash ex_rehashing 1))) \<and>
   (0::int) \<le> sint (5 :: cint) \<and> (\<exists>r d'. dictRehash ex_rehashing 5 = Some (r, d')) \<and>
   dictEmpty ex_rehashing
     = Some (ex_rehashing\<lparr>ht0 := dictReset, ht1 := dictReset, rehashidx := - 1, iterators := 0\<rparr>)"
proof -
  have w1: "dict_wf ex_drained" "dictIsRehashing ex_drained" and u1: "used (ht0 ex_drained) = 0"
    by code_simp+
  have w2: "dict_wf ex_rehashing" "dictIsRehashing ex_rehashing"
    and u2: "used (ht0 ex_rehashing) \<noteq> 0"
    by code_simp+
  note t1 = dictRehash_step_spec [OF w1]
  note t2 = dictRehash_step_spec [OF w2]
  have a: "dictRehash ex_drained 1
     = Some (0, ex_drained\<lparr>ht0 := ht1 ex_drained, ht1 := dictReset, rehashidx := - 1\<rparr>)"
    using t1 [THEN conjunct1] u1 by (simp only: simp_thms)
  have n: "\<not> dictIsRehashing (ex_drained\<lparr>ht0 := ht1 ex_drained, ht1 := dictReset, rehashidx := - 1\<rparr>)"
    by (simp add: dictIsRehashing_def)
  have f5: "map_option fst (dictRehash ex_rehashing 5) = Some 0" by code_simp
  have s5: "map_option (dictIsRehashing \<circ> snd) (dictRehash ex_rehashing 5) = Some False"
    by code_simp
  have e5: "map_option (\<lambda>x. (map key (entries (ht0 (snd x))), map key (entries (ht1 (snd x)))))
     (dictRehash ex_rehashing 5) = Some ([8, 1, 4, 7], [])" by code_simp
  have f1: "map_option fst (dictRehash ex_rehashing 1) = Some 1" by code_simp
  have s1: "map_option (dictIsRehashing \<circ> snd) (dictRehash ex_rehashing 1) = Some True"
    by code_simp
  from f5 obtain x5 where x5: "dictRehash ex_rehashing 5 = Some x5" by blast
  from f1 obtain x1 where x1: "dictRehash ex_rehashing 1 = Some x1" by blast
  have p5: "dictRehash ex_rehashing 5 = Some (fst x5, snd x5)" using x5 by simp
  have p1: "dictRehash ex_rehashing 1 = Some (fst x1, snd x1)" using x1 by simp
  have n5: "\<not> dictIsRehashing (snd x5)" using s5 x5 by simp
  have r1: "dictIsRehashing (snd x1)" using s1 x1 by simp
  note c5 = t2 [THEN conjunct2, THEN conjunct2, THEN conjunct1, rule_format, OF p5]
  note c1 = t2 [THEN conjunct2, THEN conjunct2, THEN conjunct1, rule_format, OF p1]
  have sel5: "snd (the (dictRehash ex_rehashing 5)) = snd x5" using x5 by simp
  have sel1: "snd (the (dictRehash ex_rehashing 1)) = snd x1" using x1 by simp
  have w5: "dict_wf (snd (the (dictRehash ex_rehashing 5)))"
    unfolding sel5 using c5 by (rule conjunct1)
  have m5: "mset (entries (ht0 (snd (the (dictRehash ex_rehashing 5))))) +
     mset (entries (ht1 (snd (the (dictRehash ex_rehashing 5)))))
     = mset (entries (ht0 ex_rehashing)) + mset (entries (ht1 ex_rehashing))"
    unfolding sel5 using c5 [THEN conjunct2] by (rule conjunct1)
  have b5: "\<exists>d''. rtranclp drain_step ex_rehashing d'' \<and> dictIsRehashing d'' \<and> used (ht0 d'') = 0 \<and>
      snd (the (dictRehash ex_rehashing 5))
        = d''\<lparr>ht0 := ht1 d'', ht1 := dictReset, rehashidx := - 1\<rparr>"
    unfolding sel5 using c5 [THEN conjunct2, THEN conjunct2] n5 by simp
  have b1: "rtranclp drain_step ex_rehashing (snd (the (dictRehash ex_rehashing 1)))"
    unfolding sel1 using c1 [THEN conjunct2, THEN conjunct2] r1 by simp
  have nn: "(0::int) \<le> sint (5 :: cint)" by simp
  have tot: "\<exists>r d'. dictRehash ex_rehashing 5 = Some (r, d')"
    using t2 [THEN conjunct2, THEN conjunct2, THEN conjunct2, THEN conjunct1, rule_format, OF nn] .
  show ?thesis
    using w1 u1 a n w2 u2 t2 [THEN conjunct2, THEN conjunct1, rule_format, OF u2]
      f5 s5 e5 w5 m5 b5 f1 s1 b1 nn tot
      t2 [THEN conjunct2, THEN conjunct2, THEN conjunct2, THEN conjunct2]
    by (intro conjI)
qed

text \<open>
  C1 as stated fails in its last part: \<^verbatim>\<open>dictEmpty\<close> takes a rehashing table whose primary
  generation still holds two entries to the stable state, and the incoming generation is
  not promoted.
\<close>

theorem dictEmpty_stable_counterexample:
  "dict_wf ex_rehashing \<and> dictIsRehashing ex_rehashing \<and> used (ht0 ex_rehashing) = 2 \<and>
   used (ht1 ex_rehashing) = 2 \<and>
   map_option dictIsRehashing (dictEmpty ex_rehashing) = Some False \<and>
   map_option (used \<circ> ht0) (dictEmpty ex_rehashing) = Some 0 \<and>
   map_option (table \<circ> ht0) (dictEmpty ex_rehashing) = Some None"
  by code_simp

subsection \<open>Growth, lookup, deletion and insertion in a well-formed table\<close>

lemma entries_fresh [simp]: "entries (fresh_ht n) = []"
  by (simp add: entries_def fresh_ht_def)

lemma ht_wf_fresh:
  assumes "2 \<le> n" "n \<le> 30"
  shows "ht_wf ty (fresh_ht n)"
proof -
  have "n < 64" using assms(2) by simp
  then have "unat ((2::ulong) ^ n) = 2 ^ n" by (rule unat_pow2)
  moreover have "\<exists>m \<in> {2..30}. (2::ulong) ^ n = 2 ^ m" using assms by auto
  ultimately show ?thesis unfolding ht_wf_def fresh_ht_def by simp
qed

lemma dictExpandIfNeeded_shape:
  assumes "dict_wf d"
  shows "(dictExpandIfNeeded can d = Some (DICT_OK, d) \<and>
          (dictIsRehashing d \<or> table (ht0 d) \<noteq> None)) \<or>
         (\<exists>n. 2 \<le> n \<and> n \<le> 30 \<and> \<not> dictIsRehashing d \<and>
            ((table (ht0 d) = None \<and>
              dictExpandIfNeeded can d = Some (DICT_OK, d\<lparr>ht0 := fresh_ht n\<rparr>)) \<or>
             (table (ht0 d) \<noteq> None \<and>
              dictExpandIfNeeded can d = Some (DICT_OK, d\<lparr>ht1 := fresh_ht n, rehashidx := 0\<rparr>))))"
proof (cases "dictIsRehashing d")
  case True
  then show ?thesis by (simp add: dictExpandIfNeeded_def)
next
  case nr: False
  from assms have wf0: "ht_wf (type d) (ht0 d)" and bound: "used (ht0 d) \<le> max_entries"
    by (simp_all add: dict_wf_def)
  note z = wf_size_zero_iff [OF wf0]
  show ?thesis
  proof (cases "table (ht0 d) = None")
    case none: True
    have u: "used (ht0 d) \<le> 4" using wf_ht_unalloc(3) [OF wf0 none] by simp
    have "\<exists>n. 2 \<le> n \<and> n \<le> 2 \<and> (4::ulong) \<le> 2 ^ n \<and> (\<forall>m < n. 2 \<le> m \<longrightarrow> 2 ^ m < (4::ulong)) \<and>
           dictExpand d 4 =
             Some (DICT_OK, if table (ht0 d) = None then d\<lparr>ht0 := fresh_ht n\<rparr>
                            else d\<lparr>ht1 := fresh_ht n, rehashidx := 0\<rparr>)"
      using nr u by (rule dictExpand_ok) simp_all
    then obtain n where n: "2 \<le> n" "n \<le> 2" and
      e: "dictExpand d 4 =
             Some (DICT_OK, if table (ht0 d) = None then d\<lparr>ht0 := fresh_ht n\<rparr>
                            else d\<lparr>ht1 := fresh_ht n, rehashidx := 0\<rparr>)" by blast
    from e none have "dictExpand d 4 = Some (DICT_OK, d\<lparr>ht0 := fresh_ht n\<rparr>)" by simp
    then have "dictExpandIfNeeded can d = Some (DICT_OK, d\<lparr>ht0 := fresh_ht n\<rparr>)"
      using nr none z by (simp add: dictExpandIfNeeded_def DICT_HT_INITIAL_SIZE_def)
    moreover from n have "n \<le> 30" by simp
    ultimately show ?thesis using n(1) nr none by blast
  next
    case some: False
    then have nz: "size_ht (ht0 d) \<noteq> 0" using z by simp
    show ?thesis
    proof (cases "size_ht (ht0 d) \<le> used (ht0 d) \<and>
              (can \<or> dict_force_resize_ratio < used (ht0 d) div size_ht (ht0 d))")
      case False
      then have "dictExpandIfNeeded can d = Some (DICT_OK, d)"
        using nr nz by (auto simp: dictExpandIfNeeded_def)
      with some show ?thesis by blast
    next
      case True
      define u where "u = used (ht0 d)"
      have dbl: "unat (u * 2) = 2 * unat u" "u * 2 \<le> 2 ^ 30"
        using double_bounded [OF bound] by (simp_all add: u_def)
      have uu: "u \<le> u * 2" by (simp add: word_le_nat_alt dbl)
      have nl: "\<not> used (ht0 d) < size_ht (ht0 d)" using True by (simp add: not_less)
      have call: "dictExpandIfNeeded can d = dictExpand d (u * 2)"
        using nr nz nl True by (auto simp: dictExpandIfNeeded_def u_def)
      have "\<exists>n. 2 \<le> n \<and> n \<le> 30 \<and> u * 2 \<le> 2 ^ n \<and> (\<forall>m < n. 2 \<le> m \<longrightarrow> 2 ^ m < u * 2) \<and>
           dictExpand d (u * 2) =
             Some (DICT_OK, if table (ht0 d) = None then d\<lparr>ht0 := fresh_ht n\<rparr>
                            else d\<lparr>ht1 := fresh_ht n, rehashidx := 0\<rparr>)"
        using nr uu [unfolded u_def] dbl(2) unfolding u_def by (rule dictExpand_ok) simp_all
      then obtain n where n: "2 \<le> n" "n \<le> 30"
        and e: "dictExpand d (u * 2) =
             Some (DICT_OK, if table (ht0 d) = None then d\<lparr>ht0 := fresh_ht n\<rparr>
                            else d\<lparr>ht1 := fresh_ht n, rehashidx := 0\<rparr>)" by blast
      from e some call
      have "dictExpandIfNeeded can d = Some (DICT_OK, d\<lparr>ht1 := fresh_ht n, rehashidx := 0\<rparr>)"
        by simp
      with n nr some show ?thesis by blast
    qed
  qed
qed

lemma dictExpandIfNeeded_wf:
  assumes "dict_wf d"
  shows "\<exists>d'. dictExpandIfNeeded can d = Some (DICT_OK, d') \<and> dict_wf d' \<and>
           entries (ht0 d') = entries (ht0 d) \<and> entries (ht1 d') = entries (ht1 d) \<and>
           type d' = type d \<and> iterators d' = iterators d \<and> table (ht0 d') \<noteq> None"
proof -
  note w = dict_wfD [OF assms]
  from dictExpandIfNeeded_shape [OF assms, of can]
  consider (same) "dictExpandIfNeeded can d = Some (DICT_OK, d)"
      "dictIsRehashing d \<or> table (ht0 d) \<noteq> None"
    | (init) n where "2 \<le> n" "n \<le> 30" "\<not> dictIsRehashing d" "table (ht0 d) = None"
      "dictExpandIfNeeded can d = Some (DICT_OK, d\<lparr>ht0 := fresh_ht n\<rparr>)"
    | (grow) n where "2 \<le> n" "n \<le> 30" "\<not> dictIsRehashing d" "table (ht0 d) \<noteq> None"
      "dictExpandIfNeeded can d = Some (DICT_OK, d\<lparr>ht1 := fresh_ht n, rehashidx := 0\<rparr>)"
    by blast
  then show ?thesis
  proof cases
    case same
    from same(2) w(4) have "table (ht0 d) \<noteq> None" by blast
    with same(1) assms show ?thesis by simp
  next
    case init
    define d' where "d' = d\<lparr>ht0 := fresh_ht n\<rparr>"
    have e0: "entries (ht0 d) = []" using init(4) by (simp add: entries_def)
    have r: "\<not> dictIsRehashing d'" using init(3) by (simp add: d'_def dictIsRehashing_def)
    have "dict_wf d'"
    proof (rule dict_wfI)
      show "ht_wf (type d') (ht0 d')" using ht_wf_fresh [OF init(1,2)] by (simp add: d'_def)
      show "ht_wf (type d') (ht1 d')" using w(2) by (simp add: d'_def)
      show "if dictIsRehashing d'
        then table (ht0 d') \<noteq> None \<and> table (ht1 d') \<noteq> None \<and>
             0 \<le> sint (rehashidx d') \<and> sint (rehashidx d') \<le> int (unat (size_ht (ht0 d'))) \<and>
             cursor_inv d'
        else ht1 d' = dictReset"
        using r w(7) [OF init(3)] by (simp add: d'_def)
      show "keys_unique (type d') (entries (ht0 d') @ entries (ht1 d'))"
        using w(3) e0 by (simp add: d'_def)
      show "length (entries (ht0 d')) + length (entries (ht1 d')) \<le> 2 ^ 29"
        using dict_wf_lengths [OF assms] by (simp add: d'_def)
    qed
    moreover have "table (ht0 d') \<noteq> None" by (simp add: d'_def fresh_ht_def)
    moreover have "entries (ht0 d') = entries (ht0 d)" "entries (ht1 d') = entries (ht1 d)"
      "type d' = type d" "iterators d' = iterators d"
      using e0 by (simp_all add: d'_def)
    ultimately show ?thesis using init(5) unfolding d'_def by blast
  next
    case grow
    define d' where "d' = d\<lparr>ht1 := fresh_ht n, rehashidx := 0\<rparr>"
    have e1: "entries (ht1 d) = []" using w(7) [OF grow(3)] by simp
    have r: "dictIsRehashing d'" by (simp add: d'_def dictIsRehashing_def)
    have c: "cursor_inv d'" by (rule cursor_inv_zero) (simp add: d'_def)
    have "dict_wf d'"
    proof (rule dict_wfI)
      show "ht_wf (type d') (ht0 d')" using w(1) by (simp add: d'_def)
      show "ht_wf (type d') (ht1 d')" using ht_wf_fresh [OF grow(1,2)] by (simp add: d'_def)
      show "if dictIsRehashing d'
        then table (ht0 d') \<noteq> None \<and> table (ht1 d') \<noteq> None \<and>
             0 \<le> sint (rehashidx d') \<and> sint (rehashidx d') \<le> int (unat (size_ht (ht0 d'))) \<and>
             cursor_inv d'
        else ht1 d' = dictReset"
        using r c grow(4) by (simp add: d'_def fresh_ht_def)
      show "keys_unique (type d') (entries (ht0 d') @ entries (ht1 d'))"
        using w(3) e1 by (simp add: d'_def)
      show "length (entries (ht0 d')) + length (entries (ht1 d')) \<le> 2 ^ 29"
        using dict_wf_lengths [OF assms] by (simp add: d'_def)
    qed
    moreover have "table (ht0 d') \<noteq> None" using grow(4) by (simp add: d'_def)
    moreover have "entries (ht0 d') = entries (ht0 d)" "entries (ht1 d') = entries (ht1 d)"
      "type d' = type d" "iterators d' = iterators d"
      using e1 by (simp_all add: d'_def)
    ultimately show ?thesis using grow(5) unfolding d'_def by blast
  qed
qed

lemma wf_lookup:
  assumes "ht_wf (type d) ht" "type_ok (type d)" "table ht \<noteq> None"
  shows "\<exists>c. bucket ht (unat (dictHashKey d k AND ucast (sizemask ht))) = Some c \<and>
           set c \<subseteq> set (entries ht) \<and>
           (\<forall>e \<in> set (entries ht). dictCompareKeys d k (key e) \<longrightarrow> e \<in> set c)"
proof -
  from assms(3) obtain t where t: "table ht = Some t" by blast
  define i where "i = slot_of (type d) ht k"
  have h: "unat (dictHashKey d k AND ucast (sizemask ht)) = i"
    by (simp add: i_def slot_of_def dictHashKey_def)
  have i: "i < length t" unfolding i_def by (rule slot_in_range [OF assms(1) t])
  then have b: "bucket ht i = Some (t ! i)" using t by (simp add: bucket_def)
  have "t ! i \<in> set t" using i by (rule nth_mem)
  then have sub: "set (t ! i) \<subseteq> set (entries ht)" using t by (auto simp: entries_def)
  have "e \<in> set (t ! i)" if e: "e \<in> set (entries ht)" and c: "dictCompareKeys d k (key e)" for e
  proof -
    from e t obtain c where "c \<in> set t" "e \<in> set c" by (auto simp: entries_def)
    then obtain j where j: "j < length t" "e \<in> set (t ! j)"
      by (metis in_set_conv_nth)
    from wf_ht_alloc(5) [OF assms(1) t j] have "slot_of (type d) ht (key e) = j" .
    moreover from c have "hashFunction (type d) k = hashFunction (type d) (key e)"
      using type_ok_hash [OF assms(2)] by (simp add: dictCompareKeys_def)
    ultimately have "i = j" by (simp add: i_def slot_of_def)
    with j(2) show ?thesis by simp
  qed
  with b sub show ?thesis unfolding h by blast
qed

lemma key_present_iff:
  "key_present d k \<longleftrightarrow> (\<exists>e. e \<in># contents d \<and> keyCompare (type d) k (key e))"
  by (auto simp: key_present_def key_in_def contents_def dictCompareKeys_def)

lemma key_present_cong:
  assumes "contents d' = contents d" "type d' = type d"
  shows "key_present d' k \<longleftrightarrow> key_present d k"
  unfolding key_present_iff assms ..

lemma chain_lookup_type:
  assumes "type d' = type d"
  shows "chain_lookup d' k c = chain_lookup d k c"
  using assms by (induction c) (simp_all add: dictCompareKeys_def)

lemma chain_unlink_type:
  assumes "type d' = type d"
  shows "chain_unlink d' k c = chain_unlink d k c"
  using assms by (induction c) (simp_all add: dictCompareKeys_def)

lemma contents_length:
  "size (contents d) = length (entries (ht0 d)) + length (entries (ht1 d))"
  by (simp add: contents_def)

lemma keys_unique_contents:
  assumes "dict_wf d"
  shows "keys_unique (type d) (entries (ht0 d) @ entries (ht1 d))"
    "mset (entries (ht0 d) @ entries (ht1 d)) = contents d"
  using dict_wfD(3) [OF assms] by (simp_all add: contents_def)

lemma step_contents:
  assumes "dict_wf d"
  shows "\<exists>d'. (if dictIsRehashing d then dictRehashStep d else Some d) = Some d' \<and> dict_wf d' \<and>
           type d' = type d \<and> iterators d' = iterators d \<and> contents d' = contents d \<and>
           (size_ht (ht0 d) \<noteq> 0 \<longrightarrow> table (ht0 d') \<noteq> None)"
  using step_wf [OF assms] unfolding contents_def .

lemma wf_unallocated_empty:
  assumes "dict_wf d" "size_ht (ht0 d) = 0"
  shows "contents d = {#}"
proof -
  note w = dict_wfD [OF assms(1)]
  from wf_size_zero_iff [OF w(1)] assms(2) have n: "table (ht0 d) = None" by simp
  with w(4) have "\<not> dictIsRehashing d" by blast
  with w(7) have "ht1 d = dictReset" by blast
  then have "entries (ht1 d) = []" by simp
  moreover from n have "entries (ht0 d) = []" by (simp add: entries_def)
  ultimately show ?thesis by (simp add: contents_def)
qed

text \<open>What the two chain walks of a lookup see, in a well-formed table.\<close>

lemma wf_walk:
  assumes "dict_wf d" "type_ok (type d)" "table (ht0 d) \<noteq> None"
  shows "\<exists>c0. bucket (ht0 d) (unat (dictHashKey d k AND ucast (sizemask (ht0 d)))) = Some c0 \<and>
           set c0 \<subseteq> set (entries (ht0 d)) \<and>
           (\<forall>e \<in> set (entries (ht0 d)). dictCompareKeys d k (key e) \<longrightarrow> e \<in> set c0) \<and>
           (if dictIsRehashing d
            then \<exists>c1. bucket (ht1 d) (unat (dictHashKey d k AND ucast (sizemask (ht1 d)))) = Some c1 \<and>
                   set c1 \<subseteq> set (entries (ht1 d)) \<and>
                   (\<forall>e \<in> set (entries (ht1 d)). dictCompareKeys d k (key e) \<longrightarrow> e \<in> set c1)
            else entries (ht1 d) = [])"
proof -
  note w = dict_wfD [OF assms(1)]
  from wf_lookup [OF w(1) assms(2,3), of k] obtain c0 where
    c0: "bucket (ht0 d) (unat (dictHashKey d k AND ucast (sizemask (ht0 d)))) = Some c0"
      "set c0 \<subseteq> set (entries (ht0 d))"
      "\<forall>e \<in> set (entries (ht0 d)). dictCompareKeys d k (key e) \<longrightarrow> e \<in> set c0"
    by blast
  show ?thesis
  proof (cases "dictIsRehashing d")
    case True
    from wf_lookup [OF w(2) assms(2) w(5) [OF True], of k] True c0 show ?thesis by simp
  next
    case False
    from w(7) [OF False] have "entries (ht1 d) = []" by simp
    with False c0 show ?thesis by simp
  qed
qed

lemma dictFind_wf:
  assumes "dict_wf d" "type_ok (type d)"
  shows "\<exists>r d'. dictFind d k = Some (r, d') \<and> dict_wf d' \<and> type d' = type d \<and>
           contents d' = contents d \<and>
           (case r of
              None \<Rightarrow> \<not> key_present d k
            | Some e \<Rightarrow> e \<in># contents d \<and> dictCompareKeys d k (key e))"
proof (cases "size_ht (ht0 d) = 0")
  case True
  from wf_unallocated_empty [OF assms(1) True] have "\<not> key_present d k"
    by (simp add: key_present_iff)
  with True assms(1) show ?thesis by (simp add: dictFind_def)
next
  case False
  from step_contents [OF assms(1)] False obtain d1 where
    d1: "(if dictIsRehashing d then dictRehashStep d else Some d) = Some d1" "dict_wf d1"
      "type d1 = type d" "contents d1 = contents d" "table (ht0 d1) \<noteq> None"
    by blast
  have ty: "type_ok (type d1)" using assms(2) d1(3) by simp
  have cmp: "dictCompareKeys d1 = dictCompareKeys d"
    using d1(3) by (intro ext) (simp add: dictCompareKeys_def)
  from wf_walk [OF d1(2) ty d1(5), of k] obtain c0 where
    c0: "bucket (ht0 d1) (unat (dictHashKey d1 k AND ucast (sizemask (ht0 d1)))) = Some c0"
      "set c0 \<subseteq> set (entries (ht0 d1))"
      "\<forall>e \<in> set (entries (ht0 d1)). dictCompareKeys d1 k (key e) \<longrightarrow> e \<in> set c0"
    and rest: "if dictIsRehashing d1
            then \<exists>c1. bucket (ht1 d1) (unat (dictHashKey d1 k AND ucast (sizemask (ht1 d1)))) = Some c1 \<and>
                   set c1 \<subseteq> set (entries (ht1 d1)) \<and>
                   (\<forall>e \<in> set (entries (ht1 d1)). dictCompareKeys d1 k (key e) \<longrightarrow> e \<in> set c1)
            else entries (ht1 d1) = []"
    by blast
  have pres: "key_present d k \<longleftrightarrow> key_present d1 k"
    using key_present_cong [OF d1(4,3)] by simp
  show ?thesis
  proof (cases "chain_lookup d1 k c0")
    case (Some he)
    from chain_lookup_Some [OF Some] c0(2) have "he \<in># contents d1" "dictCompareKeys d1 k (key he)"
      by (auto simp: contents_def)
    moreover have "dictFind d k = Some (Some he, d1)"
      using False d1(1) c0(1) Some by (simp add: dictFind_def Let_def)
    ultimately show ?thesis using d1(2,3,4) cmp by simp
  next
    case None
    then have n0: "\<forall>e \<in> set (entries (ht0 d1)). \<not> dictCompareKeys d1 k (key e)"
      using c0(3) by (auto simp: chain_lookup_None)
    show ?thesis
    proof (cases "dictIsRehashing d1")
      case False
      with rest have "entries (ht1 d1) = []" by simp
      with n0 have "\<not> key_present d1 k" by (simp add: key_present_def key_in_def)
      moreover have "dictFind d k = Some (None, d1)"
        using \<open>size_ht (ht0 d) \<noteq> 0\<close> d1(1) c0(1) None False by (simp add: dictFind_def Let_def)
      ultimately show ?thesis using d1(2,3,4) pres by simp
    next
      case True
      with rest obtain c1 where
        c1: "bucket (ht1 d1) (unat (dictHashKey d1 k AND ucast (sizemask (ht1 d1)))) = Some c1"
          "set c1 \<subseteq> set (entries (ht1 d1))"
          "\<forall>e \<in> set (entries (ht1 d1)). dictCompareKeys d1 k (key e) \<longrightarrow> e \<in> set c1"
        by auto
      have f: "dictFind d k = Some (chain_lookup d1 k c1, d1)"
        using \<open>size_ht (ht0 d) \<noteq> 0\<close> d1(1) c0(1) None True c1(1)
        by (simp add: dictFind_def Let_def)
      show ?thesis
      proof (cases "chain_lookup d1 k c1")
        case n1: None
        then have "\<forall>e \<in> set (entries (ht1 d1)). \<not> dictCompareKeys d1 k (key e)"
          using c1(3) by (auto simp: chain_lookup_None)
        with n0 have "\<not> key_present d1 k" by (simp add: key_present_def key_in_def)
        with f n1 d1(2,3,4) pres show ?thesis by simp
      next
        case (Some he)
        from chain_lookup_Some [OF Some] c1(2)
        have "he \<in># contents d1" "dictCompareKeys d1 k (key he)"
          by (auto simp: contents_def)
        with f Some d1(2,3,4) cmp show ?thesis by simp
      qed
    qed
  qed
qed

lemma dict_wf_idx:
  assumes "dict_wf d" "dictIsRehashing d"
  shows "0 \<le> sint (rehashidx d)" "sint (rehashidx d) \<le> int (unat (size_ht (ht0 d)))"
  using assms by (simp_all add: dict_wf_def)

lemma dict_wf_cursor:
  assumes "dict_wf d"
  shows "cursor_inv d"
  using dict_wfD(6) [OF assms] cursor_inv_stable [of d] by blast

lemma chain_unlink_facts:
  assumes "chain_unlink d k c = Some c'"
  shows "set c' \<subseteq> set c" "length c = Suc (length c')" "c \<noteq> []"
proof -
  from chain_unlink_mset [OF assms] obtain e where e: "mset c = add_mset e (mset c')" by blast
  from e have "set_mset (mset c) = set_mset (add_mset e (mset c'))" by simp
  then show "set c' \<subseteq> set c" by auto
  from e have "size (mset c) = size (add_mset e (mset c'))" by simp
  then show "length c = Suc (length c')" by simp
  then show "c \<noteq> []" by auto
qed

lemma set_bucket_fields [simp]:
  "size_ht (set_bucket ht i c) = size_ht ht" "sizemask (set_bucket ht i c) = sizemask ht"
  "used (set_bucket ht i c) = used ht"
  "table (set_bucket ht i c) = map_option (\<lambda>t. t[i := c]) (table ht)"
  by (simp_all add: set_bucket_def)

lemma dict_wf_unlink0:
  assumes "dict_wf d" "type_ok (type d)" "bucket (ht0 d) i = Some c"
    "chain_unlink d k c = Some c'"
    "d' = d\<lparr>ht0 := (set_bucket (ht0 d) i c')\<lparr>used := used (ht0 d) - 1\<rparr>\<rparr>"
  shows "dict_wf d'" "\<exists>e. dictCompareKeys d k (key e) \<and> contents d = add_mset e (contents d')"
proof -
  note w = dict_wfD [OF assms(1)]
  note f = chain_unlink_facts [OF assms(4)]
  from chain_unlink_mset [OF assms(4)] obtain e where
    e: "dictCompareKeys d k (key e)" "mset c = add_mset e (mset c')" by blast
  have "mset (entries (set_bucket (ht0 d) i c')) + mset c = mset (entries (ht0 d)) + mset c'"
    by (rule entries_set_bucket [OF assms(3)])
  then have e0: "mset (entries (ht0 d)) = add_mset e (mset (entries (ht0 d')))"
    using e(2) by (simp add: assms(5))
  then have ct: "contents d = add_mset e (contents d')" by (simp add: contents_def assms(5))
  with e(1) show "\<exists>e. dictCompareKeys d k (key e) \<and> contents d = add_mset e (contents d')"
    by blast
  have one: "length c - length c' = 1" using f(2) by simp
  have w0: "ht_wf (type d) (ht0 d')"
    using ht_wf_shrink [OF w(1) assms(3) f(1)] f(2) by (simp add: assms(5) one)
  have r: "dictIsRehashing d' \<longleftrightarrow> dictIsRehashing d" by (simp add: assms(5) dictIsRehashing_def)
  have cur: "cursor_inv d'"
    unfolding assms(5) by (rule cursor_inv_unlink [OF dict_wf_cursor [OF assms(1)] assms(3) f(3)])
  show "dict_wf d'"
  proof (rule dict_wfI)
    show "ht_wf (type d') (ht0 d')" using w0 by (simp add: assms(5))
    show "ht_wf (type d') (ht1 d')" using w(2) by (simp add: assms(5))
    show "if dictIsRehashing d'
      then table (ht0 d') \<noteq> None \<and> table (ht1 d') \<noteq> None \<and>
           0 \<le> sint (rehashidx d') \<and> sint (rehashidx d') \<le> int (unat (size_ht (ht0 d'))) \<and>
           cursor_inv d'
      else ht1 d' = dictReset"
    proof (cases "dictIsRehashing d")
      case True
      have "table (ht0 d') \<noteq> None" "table (ht1 d') \<noteq> None"
        using w(4,5) [OF True] by (simp_all add: assms(5))
      moreover have "0 \<le> sint (rehashidx d')" "sint (rehashidx d') \<le> int (unat (size_ht (ht0 d')))"
        using dict_wf_idx [OF assms(1) True] by (simp_all add: assms(5))
      ultimately show ?thesis using cur r True by simp
    next
      case False
      with w(7) r show ?thesis by (simp add: assms(5))
    qed
    have sub: "mset (entries (ht0 d') @ entries (ht1 d')) \<subseteq># mset (entries (ht0 d) @ entries (ht1 d))"
      using e0 by (simp add: assms(5))
    show "keys_unique (type d') (entries (ht0 d') @ entries (ht1 d'))"
      using keys_unique_sub [OF w(3) sub assms(2)] by (simp add: assms(5))
    have "size (contents d) = Suc (size (contents d'))" using ct by simp
    then show "length (entries (ht0 d')) + length (entries (ht1 d')) \<le> 2 ^ 29"
      using dict_wf_lengths [OF assms(1)] by (simp add: contents_length)
  qed
qed

lemma dict_wf_unlink1:
  assumes "dict_wf d" "type_ok (type d)" "bucket (ht1 d) i = Some c"
    "chain_unlink d k c = Some c'"
    "d' = d\<lparr>ht1 := (set_bucket (ht1 d) i c')\<lparr>used := used (ht1 d) - 1\<rparr>\<rparr>"
  shows "dict_wf d'" "\<exists>e. dictCompareKeys d k (key e) \<and> contents d = add_mset e (contents d')"
proof -
  note w = dict_wfD [OF assms(1)]
  note f = chain_unlink_facts [OF assms(4)]
  from chain_unlink_mset [OF assms(4)] obtain e where
    e: "dictCompareKeys d k (key e)" "mset c = add_mset e (mset c')" by blast
  have "mset (entries (set_bucket (ht1 d) i c')) + mset c = mset (entries (ht1 d)) + mset c'"
    by (rule entries_set_bucket [OF assms(3)])
  then have e0: "mset (entries (ht1 d)) = add_mset e (mset (entries (ht1 d')))"
    using e(2) by (simp add: assms(5))
  then have ct: "contents d = add_mset e (contents d')" by (simp add: contents_def assms(5))
  with e(1) show "\<exists>e. dictCompareKeys d k (key e) \<and> contents d = add_mset e (contents d')"
    by blast
  have one: "length c - length c' = 1" using f(2) by simp
  have w1: "ht_wf (type d) (ht1 d')"
    using ht_wf_shrink [OF w(2) assms(3) f(1)] f(2) by (simp add: assms(5) one)
  have r: "dictIsRehashing d' \<longleftrightarrow> dictIsRehashing d" by (simp add: assms(5) dictIsRehashing_def)
  have "cursor_inv d' \<longleftrightarrow> cursor_inv d" by (rule cursor_inv_cong) (simp_all add: assms(5))
  then have cur: "cursor_inv d'" using dict_wf_cursor [OF assms(1)] by simp
  have reh: "dictIsRehashing d"
  proof (rule ccontr)
    assume "\<not> dictIsRehashing d"
    from w(7) [OF this] assms(3) show False by (simp add: bucket_def dictReset_def)
  qed
  show "dict_wf d'"
  proof (rule dict_wfI)
    show "ht_wf (type d') (ht0 d')" using w(1) by (simp add: assms(5))
    show "ht_wf (type d') (ht1 d')" using w1 by (simp add: assms(5))
    have "table (ht0 d') \<noteq> None" "table (ht1 d') \<noteq> None"
      using w(4,5) [OF reh] by (simp_all add: assms(5))
    moreover have "0 \<le> sint (rehashidx d')" "sint (rehashidx d') \<le> int (unat (size_ht (ht0 d')))"
      using dict_wf_idx [OF assms(1) reh] by (simp_all add: assms(5))
    ultimately show "if dictIsRehashing d'
      then table (ht0 d') \<noteq> None \<and> table (ht1 d') \<noteq> None \<and>
           0 \<le> sint (rehashidx d') \<and> sint (rehashidx d') \<le> int (unat (size_ht (ht0 d'))) \<and>
           cursor_inv d'
      else ht1 d' = dictReset"
      using cur r reh by simp
    have sub: "mset (entries (ht0 d') @ entries (ht1 d')) \<subseteq># mset (entries (ht0 d) @ entries (ht1 d))"
      using e0 by (simp add: assms(5))
    show "keys_unique (type d') (entries (ht0 d') @ entries (ht1 d'))"
      using keys_unique_sub [OF w(3) sub assms(2)] by (simp add: assms(5))
    have "size (contents d) = Suc (size (contents d'))" using ct by simp
    then show "length (entries (ht0 d')) + length (entries (ht1 d')) \<le> 2 ^ 29"
      using dict_wf_lengths [OF assms(1)] by (simp add: contents_length)
  qed
qed

lemma dictGenericDelete_wf:
  assumes "dict_wf d" "type_ok (type d)"
  shows "\<exists>st d'. dictGenericDelete d k nofree = Some (st, d') \<and> dict_wf d' \<and>
           type d' = type d \<and>
           (if key_present d k
            then st = DICT_OK \<and>
                 (\<exists>e. dictCompareKeys d k (key e) \<and> contents d = add_mset e (contents d'))
            else st = DICT_ERR \<and> contents d' = contents d)"
proof (cases "size_ht (ht0 d) = 0")
  case True
  from wf_unallocated_empty [OF assms(1) True] have "\<not> key_present d k"
    by (simp add: key_present_iff)
  with True assms(1) show ?thesis by (simp add: dictGenericDelete_def)
next
  case False
  from step_contents [OF assms(1)] False obtain d1 where
    d1: "(if dictIsRehashing d then dictRehashStep d else Some d) = Some d1" "dict_wf d1"
      "type d1 = type d" "contents d1 = contents d" "table (ht0 d1) \<noteq> None"
    by blast
  have ty: "type_ok (type d1)" using assms(2) d1(3) by simp
  have cmp: "dictCompareKeys d1 = dictCompareKeys d"
    using d1(3) by (intro ext) (simp add: dictCompareKeys_def)
  from wf_walk [OF d1(2) ty d1(5), of k] obtain c0 where
    c0: "bucket (ht0 d1) (unat (dictHashKey d1 k AND ucast (sizemask (ht0 d1)))) = Some c0"
      "set c0 \<subseteq> set (entries (ht0 d1))"
      "\<forall>e \<in> set (entries (ht0 d1)). dictCompareKeys d1 k (key e) \<longrightarrow> e \<in> set c0"
    and rest: "if dictIsRehashing d1
            then \<exists>c1. bucket (ht1 d1) (unat (dictHashKey d1 k AND ucast (sizemask (ht1 d1)))) = Some c1 \<and>
                   set c1 \<subseteq> set (entries (ht1 d1)) \<and>
                   (\<forall>e \<in> set (entries (ht1 d1)). dictCompareKeys d1 k (key e) \<longrightarrow> e \<in> set c1)
            else entries (ht1 d1) = []"
    by blast
  have pres: "key_present d k \<longleftrightarrow> key_present d1 k"
    using key_present_cong [OF d1(4,3)] by simp
  have found: "key_present d k"
    if "dictCompareKeys d1 k (key e)" "contents d1 = add_mset e D" for e D
    using that d1(3,4) unfolding key_present_iff dictCompareKeys_def
    by (metis union_single_eq_member)
  show ?thesis
  proof (cases "chain_unlink d1 k c0")
    case (Some c')
    define d' where "d' = d1\<lparr>ht0 := (set_bucket (ht0 d1) (unat (dictHashKey d1 k AND ucast (sizemask (ht0 d1)))) c')
                                    \<lparr>used := used (ht0 d1) - 1\<rparr>\<rparr>"
    note u = dict_wf_unlink0 [OF d1(2) ty c0(1) Some d'_def]
    from u(2) obtain e where e: "dictCompareKeys d1 k (key e)" "contents d1 = add_mset e (contents d')"
      by blast
    have "dictGenericDelete d k nofree = Some (DICT_OK, d')"
      using False d1(1) c0(1) Some by (simp add: dictGenericDelete_def Let_def d'_def)
    moreover have "type d' = type d" using d1(3) by (simp add: d'_def)
    ultimately show ?thesis using u(1) e found [OF e] d1(4) cmp by auto
  next
    case None
    then have n0: "\<forall>e \<in> set (entries (ht0 d1)). \<not> dictCompareKeys d1 k (key e)"
      using c0(3) by (auto simp: chain_unlink_None)
    show ?thesis
    proof (cases "dictIsRehashing d1")
      case nr: False
      with rest have "entries (ht1 d1) = []" by simp
      with n0 have "\<not> key_present d1 k" by (simp add: key_present_def key_in_def)
      moreover have "dictGenericDelete d k nofree = Some (DICT_ERR, d1)"
        using False d1(1) c0(1) None nr by (simp add: dictGenericDelete_def Let_def)
      ultimately show ?thesis using d1(2,3,4) pres by simp
    next
      case True
      with rest obtain c1 where
        c1: "bucket (ht1 d1) (unat (dictHashKey d1 k AND ucast (sizemask (ht1 d1)))) = Some c1"
          "set c1 \<subseteq> set (entries (ht1 d1))"
          "\<forall>e \<in> set (entries (ht1 d1)). dictCompareKeys d1 k (key e) \<longrightarrow> e \<in> set c1"
        by auto
      show ?thesis
      proof (cases "chain_unlink d1 k c1")
        case n1: None
        then have "\<forall>e \<in> set (entries (ht1 d1)). \<not> dictCompareKeys d1 k (key e)"
          using c1(3) by (auto simp: chain_unlink_None)
        with n0 have "\<not> key_present d1 k" by (simp add: key_present_def key_in_def)
        moreover have "dictGenericDelete d k nofree = Some (DICT_ERR, d1)"
          using False d1(1) c0(1) None True c1(1) n1 by (simp add: dictGenericDelete_def Let_def)
        ultimately show ?thesis using d1(2,3,4) pres by simp
      next
        case (Some c')
        define d' where "d' = d1\<lparr>ht1 := (set_bucket (ht1 d1) (unat (dictHashKey d1 k AND ucast (sizemask (ht1 d1)))) c')
                                    \<lparr>used := used (ht1 d1) - 1\<rparr>\<rparr>"
        note u = dict_wf_unlink1 [OF d1(2) ty c1(1) Some d'_def]
        from u(2) obtain e where e: "dictCompareKeys d1 k (key e)" "contents d1 = add_mset e (contents d')"
          by blast
        have "dictGenericDelete d k nofree = Some (DICT_OK, d')"
          using False d1(1) c0(1) None True c1(1) Some
          by (simp add: dictGenericDelete_def Let_def d'_def)
        moreover have "type d' = type d" using d1(3) by (simp add: d'_def)
        ultimately show ?thesis using u(1) e found [OF e] d1(4) cmp by auto
      qed
    qed
  qed
qed

lemma dict_wf_link1:
  assumes "dict_wf d" "type_ok (type d)" "dictIsRehashing d" "bucket (ht1 d) i = Some c"
    "i = slot_of (type d) (ht1 d) k" "\<not> key_present d k" "size (contents d) < 2 ^ 29"
    "d' = d\<lparr>ht1 := (set_bucket (ht1 d) i (\<lparr>key = k, val = v\<rparr> # c))\<lparr>used := used (ht1 d) + 1\<rparr>\<rparr>"
  shows "dict_wf d'" "contents d' = add_mset \<lparr>key = k, val = v\<rparr> (contents d)"
proof -
  note w = dict_wfD [OF assms(1)]
  define e :: "('a, 'b) dictEntry" where "e = \<lparr>key = k, val = v\<rparr>"
  have e1: "mset (entries (ht1 d')) = add_mset e (mset (entries (ht1 d)))"
    using link_entries [OF assms(4), where e = e] by (simp add: assms(8) e_def)
  then show ct: "contents d' = add_mset \<lparr>key = k, val = v\<rparr> (contents d)"
    by (simp add: contents_def assms(8) e_def)
  have small: "unat (used (ht1 d)) < 2 ^ 30"
    using assms(7) wf_used_entries [OF w(2)] by (simp add: contents_length)
  have w1: "ht_wf (type d) (ht1 d')"
    using ht_wf_link [OF w(2) assms(4) _ small, where e = e]
    by (simp add: assms(5,8) e_def)
  have "cursor_inv d' \<longleftrightarrow> cursor_inv d" by (rule cursor_inv_cong) (simp_all add: assms(8))
  then have cur: "cursor_inv d'" using dict_wf_cursor [OF assms(1)] by simp
  have r: "dictIsRehashing d'" using assms(3) by (simp add: assms(8) dictIsRehashing_def)
  show "dict_wf d'"
  proof (rule dict_wfI)
    show "ht_wf (type d') (ht0 d')" using w(1) by (simp add: assms(8))
    show "ht_wf (type d') (ht1 d')" using w1 by (simp add: assms(8))
    have "table (ht0 d') \<noteq> None" "table (ht1 d') \<noteq> None"
      using w(4,5) [OF assms(3)] by (simp_all add: assms(8))
    moreover have "0 \<le> sint (rehashidx d')" "sint (rehashidx d') \<le> int (unat (size_ht (ht0 d')))"
      using dict_wf_idx [OF assms(1,3)] by (simp_all add: assms(8))
    ultimately show "if dictIsRehashing d'
      then table (ht0 d') \<noteq> None \<and> table (ht1 d') \<noteq> None \<and>
           0 \<le> sint (rehashidx d') \<and> sint (rehashidx d') \<le> int (unat (size_ht (ht0 d'))) \<and>
           cursor_inv d'
      else ht1 d' = dictReset"
      using cur r by simp
    have fresh: "\<forall>e' \<in> set (entries (ht0 d) @ entries (ht1 d)). \<not> keyCompare (type d) (key e) (key e')"
      using assms(6) by (auto simp: key_present_iff contents_def e_def)
    have m: "mset (entries (ht0 d') @ entries (ht1 d')) = mset (e # entries (ht0 d) @ entries (ht1 d))"
      using e1 by (simp add: assms(8))
    show "keys_unique (type d') (entries (ht0 d') @ entries (ht1 d'))"
      using keys_unique_Cons [OF w(3) fresh assms(2)] keys_unique_mset [OF m, of "type d"]
      by (simp add: assms(8))
    have "size (contents d') = Suc (size (contents d))" using ct by simp
    then show "length (entries (ht0 d')) + length (entries (ht1 d')) \<le> 2 ^ 29"
      using assms(7) by (simp add: contents_length)
  qed
qed

lemma dict_wf_link0:
  assumes "dict_wf d" "type_ok (type d)" "\<not> dictIsRehashing d" "bucket (ht0 d) i = Some c"
    "i = slot_of (type d) (ht0 d) k" "\<not> key_present d k" "size (contents d) < 2 ^ 29"
    "d' = d\<lparr>ht0 := (set_bucket (ht0 d) i (\<lparr>key = k, val = v\<rparr> # c))\<lparr>used := used (ht0 d) + 1\<rparr>\<rparr>"
  shows "dict_wf d'" "contents d' = add_mset \<lparr>key = k, val = v\<rparr> (contents d)"
proof -
  note w = dict_wfD [OF assms(1)]
  define e :: "('a, 'b) dictEntry" where "e = \<lparr>key = k, val = v\<rparr>"
  have e1: "mset (entries (ht0 d')) = add_mset e (mset (entries (ht0 d)))"
    using link_entries [OF assms(4), where e = e] by (simp add: assms(8) e_def)
  then show ct: "contents d' = add_mset \<lparr>key = k, val = v\<rparr> (contents d)"
    by (simp add: contents_def assms(8) e_def)
  have small: "unat (used (ht0 d)) < 2 ^ 30"
    using assms(7) wf_used_entries [OF w(1)] by (simp add: contents_length)
  have w1: "ht_wf (type d) (ht0 d')"
    using ht_wf_link [OF w(1) assms(4) _ small, where e = e]
    by (simp add: assms(5,8) e_def)
  have r: "\<not> dictIsRehashing d'" using assms(3) by (simp add: assms(8) dictIsRehashing_def)
  show "dict_wf d'"
  proof (rule dict_wfI)
    show "ht_wf (type d') (ht0 d')" using w1 by (simp add: assms(8))
    show "ht_wf (type d') (ht1 d')" using w(2) by (simp add: assms(8))
    show "if dictIsRehashing d'
      then table (ht0 d') \<noteq> None \<and> table (ht1 d') \<noteq> None \<and>
           0 \<le> sint (rehashidx d') \<and> sint (rehashidx d') \<le> int (unat (size_ht (ht0 d'))) \<and>
           cursor_inv d'
      else ht1 d' = dictReset"
      using r w(7) [OF assms(3)] by (simp add: assms(8))
    have fresh: "\<forall>e' \<in> set (entries (ht0 d) @ entries (ht1 d)). \<not> keyCompare (type d) (key e) (key e')"
      using assms(6) by (auto simp: key_present_iff contents_def e_def)
    have m: "mset (entries (ht0 d') @ entries (ht1 d')) = mset (e # entries (ht0 d) @ entries (ht1 d))"
      using e1 by (simp add: assms(8))
    show "keys_unique (type d') (entries (ht0 d') @ entries (ht1 d'))"
      using keys_unique_Cons [OF w(3) fresh assms(2)] keys_unique_mset [OF m, of "type d"]
      by (simp add: assms(8))
    have "size (contents d') = Suc (size (contents d))" using ct by simp
    then show "length (entries (ht0 d')) + length (entries (ht1 d')) \<le> 2 ^ 29"
      using assms(7) by (simp add: contents_length)
  qed
qed

lemma slot_index:
  fixes idx :: cint
  assumes "ht_wf ty ht" "table ht \<noteq> None" "idx = hashFunction ty k AND ucast (sizemask ht)"
  shows "unat idx = slot_of ty ht k" "idx \<noteq> - 1" "\<not> idx <s 0"
proof -
  from assms(2) obtain t where t: "table ht = Some t" by blast
  show u: "unat idx = slot_of ty ht k" by (simp add: assms(3) slot_of_def)
  have "slot_of ty ht k < length t" by (rule slot_in_range [OF assms(1) t])
  with wf_length_bound(1) [OF assms(1) t] u have lt: "unat idx < 2 ^ 30" by simp
  from cint_small(1) [OF lt] show "\<not> idx <s 0" by (simp add: not_sless_zero)
  show "idx \<noteq> - 1"
  proof
    assume "idx = - 1"
    then have "sint idx = - 1" by simp
    with cint_small(1) [OF lt] show False by simp
  qed
qed

lemma dictKeyIndex_wf:
  assumes "dict_wf d" "type_ok (type d)"
  shows "\<exists>d2. dictExpandIfNeeded can d = Some (DICT_OK, d2) \<and> dict_wf d2 \<and> type d2 = type d \<and>
           iterators d2 = iterators d \<and>
           entries (ht0 d2) = entries (ht0 d) \<and> entries (ht1 d2) = entries (ht1 d) \<and>
           (if key_present d k then dictKeyIndex can d k = Some (- 1, d2)
            else \<exists>idx c. dictKeyIndex can d k = Some (idx, d2) \<and> idx \<noteq> - 1 \<and>
                   unat idx = slot_of (type d) (if dictIsRehashing d2 then ht1 d2 else ht0 d2) k \<and>
                   bucket_int (if dictIsRehashing d2 then ht1 d2 else ht0 d2) idx = Some c \<and>
                   bucket (if dictIsRehashing d2 then ht1 d2 else ht0 d2) (unat idx) = Some c)"
proof -
  from dictExpandIfNeeded_wf [OF assms(1), of can] obtain d2 where
    d2: "dictExpandIfNeeded can d = Some (DICT_OK, d2)" "dict_wf d2"
      "entries (ht0 d2) = entries (ht0 d)" "entries (ht1 d2) = entries (ht1 d)"
      "type d2 = type d" "iterators d2 = iterators d" "table (ht0 d2) \<noteq> None"
    by blast
  note w = dict_wfD [OF d2(2)]
  have ty: "type_ok (type d2)" using assms(2) d2(5) by simp
  have ct: "contents d2 = contents d" using d2(3,4) by (simp add: contents_def)
  have pres: "key_present d k \<longleftrightarrow> key_present d2 k"
    using key_present_cong [OF ct d2(5)] by simp
  define idx0 where "idx0 = dictHashKey d2 k AND ucast (sizemask (ht0 d2))"
  define idx1 where "idx1 = dictHashKey d2 k AND ucast (sizemask (ht1 d2))"
  from wf_walk [OF d2(2) ty d2(7), of k] obtain c0 where
    c0: "bucket (ht0 d2) (unat idx0) = Some c0"
      "set c0 \<subseteq> set (entries (ht0 d2))"
      "\<forall>e \<in> set (entries (ht0 d2)). dictCompareKeys d2 k (key e) \<longrightarrow> e \<in> set c0"
    and rest: "if dictIsRehashing d2
            then \<exists>c1. bucket (ht1 d2) (unat idx1) = Some c1 \<and>
                   set c1 \<subseteq> set (entries (ht1 d2)) \<and>
                   (\<forall>e \<in> set (entries (ht1 d2)). dictCompareKeys d2 k (key e) \<longrightarrow> e \<in> set c1)
            else entries (ht1 d2) = []"
    unfolding idx0_def idx1_def by blast
  have i0: "unat idx0 = slot_of (type d) (ht0 d2) k" "idx0 \<noteq> - 1" "\<not> idx0 <s 0"
    using slot_index [OF w(1) d2(7), of idx0 k] by (simp_all add: idx0_def dictHashKey_def d2(5))
  have k0: "chain_lookup d2 k c0 \<noteq> None \<longleftrightarrow> key_in d2 k (ht0 d2)"
    using c0(2,3) by (auto simp: chain_lookup_None key_in_def)
  have unfold: "dictKeyIndex can d k =
      (if chain_lookup d2 k c0 \<noteq> None then Some (- 1, d2)
       else if \<not> dictIsRehashing d2 then Some (idx0, d2)
       else case bucket (ht1 d2) (unat idx1) of
              None \<Rightarrow> None
            | Some he1 \<Rightarrow> if chain_lookup d2 k he1 \<noteq> None then Some (- 1, d2) else Some (idx1, d2))"
    using d2(1) c0(1) unfolding idx0_def idx1_def by (simp add: dictKeyIndex_def Let_def)
  have "if key_present d k then dictKeyIndex can d k = Some (- 1, d2)
            else \<exists>idx c. dictKeyIndex can d k = Some (idx, d2) \<and> idx \<noteq> - 1 \<and>
                   unat idx = slot_of (type d) (if dictIsRehashing d2 then ht1 d2 else ht0 d2) k \<and>
                   bucket_int (if dictIsRehashing d2 then ht1 d2 else ht0 d2) idx = Some c \<and>
                   bucket (if dictIsRehashing d2 then ht1 d2 else ht0 d2) (unat idx) = Some c"
  proof (cases "dictIsRehashing d2")
    case False
    with rest have "\<not> key_in d2 k (ht1 d2)" by (simp add: key_in_def)
    then have p: "key_present d k \<longleftrightarrow> chain_lookup d2 k c0 \<noteq> None"
      using pres k0 by (simp add: key_present_def)
    have b: "bucket_int (ht0 d2) idx0 = Some c0" using c0(1) i0(3) by (simp add: bucket_int_def)
    show ?thesis
    proof (cases "key_present d k")
      case True
      with p unfold show ?thesis by simp
    next
      case np: False
      with p unfold False have "dictKeyIndex can d k = Some (idx0, d2)" by simp
      with np False i0 b c0(1) show ?thesis by auto
    qed
  next
    case True
    with rest obtain c1 where
      c1: "bucket (ht1 d2) (unat idx1) = Some c1" "set c1 \<subseteq> set (entries (ht1 d2))"
        "\<forall>e \<in> set (entries (ht1 d2)). dictCompareKeys d2 k (key e) \<longrightarrow> e \<in> set c1"
      by auto
    have i1: "unat idx1 = slot_of (type d) (ht1 d2) k" "idx1 \<noteq> - 1" "\<not> idx1 <s 0"
      using slot_index [OF w(2) w(5) [OF True], of idx1 k]
      by (simp_all add: idx1_def dictHashKey_def d2(5))
    have k1: "chain_lookup d2 k c1 \<noteq> None \<longleftrightarrow> key_in d2 k (ht1 d2)"
      using c1(2,3) by (auto simp: chain_lookup_None key_in_def)
    have p: "key_present d k \<longleftrightarrow> chain_lookup d2 k c0 \<noteq> None \<or> chain_lookup d2 k c1 \<noteq> None"
      using pres k0 k1 by (simp add: key_present_def)
    have b: "bucket_int (ht1 d2) idx1 = Some c1" using c1(1) i1(3) by (simp add: bucket_int_def)
    show ?thesis
    proof (cases "key_present d k")
      case kp: True
      with p unfold c1(1) True show ?thesis by auto
    next
      case np: False
      with p unfold True c1(1) have "dictKeyIndex can d k = Some (idx1, d2)" by simp
      with np True i1 b c1(1) show ?thesis by auto
    qed
  qed
  with d2 show ?thesis by blast
qed

lemma dictAddRaw_wf:
  assumes "dict_wf d" "type_ok (type d)"
  shows "\<exists>d1 d2. (if dictIsRehashing d then dictRehashStep d else Some d) = Some d1 \<and>
           dict_wf d1 \<and> contents d1 = contents d \<and>
           dictExpandIfNeeded can d1 = Some (DICT_OK, d2) \<and> dict_wf d2 \<and> type d2 = type d \<and>
           entries (ht0 d2) = entries (ht0 d1) \<and> entries (ht1 d2) = entries (ht1 d1) \<and>
           (if key_present d k then dictAddRaw can d k = Some (None, d2)
            else if dictIsRehashing d2
            then \<exists>c. bucket (ht1 d2) (slot_of (type d) (ht1 d2) k) = Some c \<and>
                   dictAddRaw can d k =
                     Some (Some (1, slot_of (type d) (ht1 d2) k),
                       d2\<lparr>ht1 := (set_bucket (ht1 d2) (slot_of (type d) (ht1 d2) k)
                                    (\<lparr>key = k, val = None\<rparr> # c))
                                  \<lparr>used := used (ht1 d2) + 1\<rparr>\<rparr>)
            else \<exists>c. bucket (ht0 d2) (slot_of (type d) (ht0 d2) k) = Some c \<and>
                   dictAddRaw can d k =
                     Some (Some (0, slot_of (type d) (ht0 d2) k),
                       d2\<lparr>ht0 := (set_bucket (ht0 d2) (slot_of (type d) (ht0 d2) k)
                                    (\<lparr>key = k, val = None\<rparr> # c))
                                  \<lparr>used := used (ht0 d2) + 1\<rparr>\<rparr>))"
proof -
  from step_contents [OF assms(1)] obtain d1 where
    d1: "(if dictIsRehashing d then dictRehashStep d else Some d) = Some d1" "dict_wf d1"
      "type d1 = type d" "contents d1 = contents d"
    by blast
  have ty: "type_ok (type d1)" using assms(2) d1(3) by simp
  have pres: "key_present d1 k \<longleftrightarrow> key_present d k"
    by (rule key_present_cong [OF d1(4,3)])
  from dictKeyIndex_wf [OF d1(2) ty, of can k] obtain d2 where
    d2: "dictExpandIfNeeded can d1 = Some (DICT_OK, d2)" "dict_wf d2" "type d2 = type d1"
      "entries (ht0 d2) = entries (ht0 d1)" "entries (ht1 d2) = entries (ht1 d1)"
    and ix: "if key_present d1 k then dictKeyIndex can d1 k = Some (- 1, d2)
            else \<exists>idx c. dictKeyIndex can d1 k = Some (idx, d2) \<and> idx \<noteq> - 1 \<and>
                   unat idx = slot_of (type d1) (if dictIsRehashing d2 then ht1 d2 else ht0 d2) k \<and>
                   bucket_int (if dictIsRehashing d2 then ht1 d2 else ht0 d2) idx = Some c \<and>
                   bucket (if dictIsRehashing d2 then ht1 d2 else ht0 d2) (unat idx) = Some c"
    by blast
  have "if key_present d k then dictAddRaw can d k = Some (None, d2)
            else if dictIsRehashing d2
            then \<exists>c. bucket (ht1 d2) (slot_of (type d) (ht1 d2) k) = Some c \<and>
                   dictAddRaw can d k =
                     Some (Some (1, slot_of (type d) (ht1 d2) k),
                       d2\<lparr>ht1 := (set_bucket (ht1 d2) (slot_of (type d) (ht1 d2) k)
                                    (\<lparr>key = k, val = None\<rparr> # c))
                                  \<lparr>used := used (ht1 d2) + 1\<rparr>\<rparr>)
            else \<exists>c. bucket (ht0 d2) (slot_of (type d) (ht0 d2) k) = Some c \<and>
                   dictAddRaw can d k =
                     Some (Some (0, slot_of (type d) (ht0 d2) k),
                       d2\<lparr>ht0 := (set_bucket (ht0 d2) (slot_of (type d) (ht0 d2) k)
                                    (\<lparr>key = k, val = None\<rparr> # c))
                                  \<lparr>used := used (ht0 d2) + 1\<rparr>\<rparr>)"
  proof (cases "key_present d k")
    case True
    with ix pres have "dictKeyIndex can d1 k = Some (- 1, d2)" by simp
    with d1(1) True show ?thesis by (simp add: dictAddRaw_def)
  next
    case False
    with ix pres obtain idx c where
      i: "dictKeyIndex can d1 k = Some (idx, d2)" "idx \<noteq> - 1"
        "unat idx = slot_of (type d1) (if dictIsRehashing d2 then ht1 d2 else ht0 d2) k"
        "bucket_int (if dictIsRehashing d2 then ht1 d2 else ht0 d2) idx = Some c"
        "bucket (if dictIsRehashing d2 then ht1 d2 else ht0 d2) (unat idx) = Some c"
      by auto
    show ?thesis
    proof (cases "dictIsRehashing d2")
      case r: True
      from i(3,4,5) r have j: "unat idx = slot_of (type d) (ht1 d2) k"
        "bucket_int (ht1 d2) idx = Some c" "bucket (ht1 d2) (slot_of (type d) (ht1 d2) k) = Some c"
        by (simp_all add: d1(3))
      have "dictAddRaw can d k =
                     Some (Some (1, slot_of (type d) (ht1 d2) k),
                       d2\<lparr>ht1 := (set_bucket (ht1 d2) (slot_of (type d) (ht1 d2) k)
                                    (\<lparr>key = k, val = None\<rparr> # c))
                                  \<lparr>used := used (ht1 d2) + 1\<rparr>\<rparr>)"
        using d1(1) i(1,2) r j(2) by (simp add: dictAddRaw_def j(1))
      with False r j(3) show ?thesis by simp
    next
      case r: False
      from i(3,4,5) r have j: "unat idx = slot_of (type d) (ht0 d2) k"
        "bucket_int (ht0 d2) idx = Some c" "bucket (ht0 d2) (slot_of (type d) (ht0 d2) k) = Some c"
        by (simp_all add: d1(3))
      have "dictAddRaw can d k =
                     Some (Some (0, slot_of (type d) (ht0 d2) k),
                       d2\<lparr>ht0 := (set_bucket (ht0 d2) (slot_of (type d) (ht0 d2) k)
                                    (\<lparr>key = k, val = None\<rparr> # c))
                                  \<lparr>used := used (ht0 d2) + 1\<rparr>\<rparr>)"
        using d1(1) i(1,2) r j(2) by (simp add: dictAddRaw_def j(1))
      with False r j(3) show ?thesis by simp
    qed
  qed
  with d1 d2 show ?thesis by (simp add: d1(3))
qed

lemma dictAdd_wf:
  assumes "dict_wf d" "type_ok (type d)" "size (contents d) < 2 ^ 29"
  shows "\<exists>st d'. dictAdd can d k v = Some (st, d') \<and> dict_wf d' \<and> type d' = type d \<and>
           (if key_present d k then st = DICT_ERR \<and> contents d' = contents d
            else st = DICT_OK \<and> contents d' = add_mset \<lparr>key = k, val = Some v\<rparr> (contents d))"
proof -
  from dictAddRaw_wf [OF assms(1,2), of can k] obtain d1 d2 where
    d: "contents d1 = contents d" "dict_wf d2" "type d2 = type d"
      "entries (ht0 d2) = entries (ht0 d1)" "entries (ht1 d2) = entries (ht1 d1)"
    and raw: "if key_present d k then dictAddRaw can d k = Some (None, d2)
            else if dictIsRehashing d2
            then \<exists>c. bucket (ht1 d2) (slot_of (type d) (ht1 d2) k) = Some c \<and>
                   dictAddRaw can d k =
                     Some (Some (1, slot_of (type d) (ht1 d2) k),
                       d2\<lparr>ht1 := (set_bucket (ht1 d2) (slot_of (type d) (ht1 d2) k)
                                    (\<lparr>key = k, val = None\<rparr> # c))
                                  \<lparr>used := used (ht1 d2) + 1\<rparr>\<rparr>)
            else \<exists>c. bucket (ht0 d2) (slot_of (type d) (ht0 d2) k) = Some c \<and>
                   dictAddRaw can d k =
                     Some (Some (0, slot_of (type d) (ht0 d2) k),
                       d2\<lparr>ht0 := (set_bucket (ht0 d2) (slot_of (type d) (ht0 d2) k)
                                    (\<lparr>key = k, val = None\<rparr> # c))
                                  \<lparr>used := used (ht0 d2) + 1\<rparr>\<rparr>)"
    by blast
  have ct: "contents d2 = contents d" using d(1,4,5) by (simp add: contents_def)
  have ty2: "type_ok (type d2)" using assms(2) d(3) by simp
  have sz: "size (contents d2) < 2 ^ 29" using assms(3) ct by simp
  show ?thesis
  proof (cases "key_present d k")
    case True
    with raw have "dictAdd can d k v = Some (DICT_ERR, d2)" by (simp add: dictAdd_def)
    with True d(2,3) ct show ?thesis by simp
  next
    case False
    then have np: "\<not> key_present d2 k" using key_present_cong [OF ct d(3)] by simp
    show ?thesis
    proof (cases "dictIsRehashing d2")
      case r: True
      define i where "i = slot_of (type d) (ht1 d2) k"
      from raw False r obtain c where c: "bucket (ht1 d2) i = Some c"
        and a: "dictAddRaw can d k =
                     Some (Some (1, i),
                       d2\<lparr>ht1 := (set_bucket (ht1 d2) i (\<lparr>key = k, val = None\<rparr> # c))
                                  \<lparr>used := used (ht1 d2) + 1\<rparr>\<rparr>)"
        unfolding i_def by auto
      define d' where "d' = d2\<lparr>ht1 := (set_bucket (ht1 d2) i (\<lparr>key = k, val = Some v\<rparr> # c))
                                  \<lparr>used := used (ht1 d2) + 1\<rparr>\<rparr>"
      note b = bucket_set_bucket [OF c, where c' = "\<lparr>key = k, val = None\<rparr> # c"
          and u = "used (ht1 d2) + 1"]
      have "dictAdd can d k v = Some (DICT_OK, d')"
        using a b by (simp add: dictAdd_def dictSetVal_def set_bucket_twice d'_def)
      moreover have i2: "i = slot_of (type d2) (ht1 d2) k" by (simp add: i_def d(3))
      note l = dict_wf_link1 [OF d(2) ty2 r c i2 np sz d'_def]
      moreover have "type d' = type d" using d(3) by (simp add: d'_def)
      ultimately show ?thesis using False ct by simp
    next
      case r: False
      define i where "i = slot_of (type d) (ht0 d2) k"
      from raw False r obtain c where c: "bucket (ht0 d2) i = Some c"
        and a: "dictAddRaw can d k =
                     Some (Some (0, i),
                       d2\<lparr>ht0 := (set_bucket (ht0 d2) i (\<lparr>key = k, val = None\<rparr> # c))
                                  \<lparr>used := used (ht0 d2) + 1\<rparr>\<rparr>)"
        unfolding i_def by auto
      define d' where "d' = d2\<lparr>ht0 := (set_bucket (ht0 d2) i (\<lparr>key = k, val = Some v\<rparr> # c))
                                  \<lparr>used := used (ht0 d2) + 1\<rparr>\<rparr>"
      note b = bucket_set_bucket [OF c, where c' = "\<lparr>key = k, val = None\<rparr> # c"
          and u = "used (ht0 d2) + 1"]
      have "dictAdd can d k v = Some (DICT_OK, d')"
        using a b by (simp add: dictAdd_def dictSetVal_def set_bucket_twice d'_def)
      moreover have i2: "i = slot_of (type d2) (ht0 d2) k" by (simp add: i_def d(3))
      note l = dict_wf_link0 [OF d(2) ty2 r c i2 np sz d'_def]
      moreover have "type d' = type d" using d(3) by (simp add: d'_def)
      ultimately show ?thesis using False ct by simp
    qed
  qed
qed

lemma wf_size_bound:
  assumes "dict_wf d" "dictSize d < max_entries"
  shows "size (contents d) < 2 ^ 29"
proof -
  note w = dict_wfD [OF assms(1)]
  have m: "unat max_entries = 2 ^ 29" by (simp add: max_entries_def)
  have le: "unat (used (ht0 d)) + unat (used (ht1 d)) \<le> 2 ^ 29"
    using dict_wf_lengths [OF assms(1)] wf_used_entries [OF w(1)] wf_used_entries [OF w(2)]
    by simp
  have "(2::nat) ^ 29 < 2 ^ 64" by simp
  with le have "unat (used (ht0 d)) + unat (used (ht1 d)) < 2 ^ LENGTH(64)" by simp
  then have "unat (used (ht0 d) + used (ht1 d)) = unat (used (ht0 d)) + unat (used (ht1 d))"
    by (simp only: unat_add_lem)
  moreover from assms(2) have "unat (used (ht0 d) + used (ht1 d)) < unat max_entries"
    by (simp add: dictSize_def word_less_nat_alt)
  ultimately have "unat (used (ht0 d)) + unat (used (ht1 d)) < 2 ^ 29" unfolding m by linarith
  with wf_used_entries [OF w(1)] wf_used_entries [OF w(2)] show ?thesis
    by (simp add: contents_length)
qed

lemma type_ok_nat_type: "type_ok nat_type"
  by (simp add: type_ok_def nat_type_def)

subsection \<open>C5: the failures of deletion\<close>

text \<open>
  C5, as amended. On a well-formed table with a lawful type descriptor,
  \<^verbatim>\<open>dictGenericDelete\<close> (so \<^verbatim>\<open>dictDelete\<close> and \<^verbatim>\<open>dictDeleteNoFree\<close>) returns \<^verbatim>\<open>DICT_ERR\<close> and
  leaves the table as it is when the primary array has size 0; it returns the same value
  \<^verbatim>\<open>DICT_ERR\<close>, with the entries of the table unchanged, when the primary array is
  allocated and the key is in neither generation; and it returns \<^verbatim>\<open>DICT_OK\<close> when the key
  is present. The result value is the same in the two failure cases.
\<close>

theorem dictDelete_failure_status:
  assumes "dict_wf d" "type_ok (type d)"
  shows "(size_ht (ht0 d) = 0 \<longrightarrow> dictGenericDelete d k nofree = Some (DICT_ERR, d)) \<and>
         (size_ht (ht0 d) \<noteq> 0 \<and> \<not> key_present d k \<longrightarrow>
            (\<exists>d'. dictGenericDelete d k nofree = Some (DICT_ERR, d') \<and> dict_wf d' \<and>
                  contents d' = contents d)) \<and>
         (key_present d k \<longrightarrow> (\<exists>d'. dictGenericDelete d k nofree = Some (DICT_OK, d')))"
proof (intro conjI impI)
  assume "size_ht (ht0 d) = 0"
  then show "dictGenericDelete d k nofree = Some (DICT_ERR, d)"
    by (simp add: dictGenericDelete_def)
next
  assume "size_ht (ht0 d) \<noteq> 0 \<and> \<not> key_present d k"
  with dictGenericDelete_wf [OF assms, of k nofree]
  show "\<exists>d'. dictGenericDelete d k nofree = Some (DICT_ERR, d') \<and> dict_wf d' \<and>
                  contents d' = contents d"
    by auto
next
  assume "key_present d k"
  with dictGenericDelete_wf [OF assms, of k nofree]
  show "\<exists>d'. dictGenericDelete d k nofree = Some (DICT_OK, d')" by auto
qed

theorem dictDelete_failure_status_witness:
  "dict_wf ex_stable \<and> type_ok (type ex_stable) \<and> size_ht (ht0 ex_stable) \<noteq> 0 \<and>
   \<not> key_present ex_stable 5 \<and>
   (\<exists>d'. dictGenericDelete ex_stable 5 False = Some (DICT_ERR, d') \<and> dict_wf d' \<and>
         contents d' = contents ex_stable) \<and>
   dict_wf (dictCreate nat_type :: (nat, nat) dict) \<and>
   type_ok (type (dictCreate nat_type :: (nat, nat) dict)) \<and>
   size_ht (ht0 (dictCreate nat_type :: (nat, nat) dict)) = 0 \<and>
   dictGenericDelete (dictCreate nat_type :: (nat, nat) dict) 5 False
     = Some (DICT_ERR, dictCreate nat_type) \<and>
   key_present ex_stable 4 \<and>
   (\<exists>d'. dictGenericDelete ex_stable 4 False = Some (DICT_OK, d'))"
proof -
  have w: "dict_wf ex_stable" by code_simp
  have t: "type_ok (type ex_stable)" using type_ok_nat_type by (simp add: ex_stable_def)
  have n: "size_ht (ht0 ex_stable) \<noteq> 0" by (simp add: ex_stable_def)
  have a: "\<not> key_present ex_stable 5" by code_simp
  have p: "key_present ex_stable 4" by code_simp
  have w0: "dict_wf (dictCreate nat_type :: (nat, nat) dict)" by code_simp
  have t0: "type_ok (type (dictCreate nat_type :: (nat, nat) dict))"
    using type_ok_nat_type by (simp add: dictCreate_def dictInit_def)
  have z: "size_ht (ht0 (dictCreate nat_type :: (nat, nat) dict)) = 0"
    by (simp add: dictCreate_def dictInit_def dictReset_def)
  note s = dictDelete_failure_status [OF w t, of _ False]
  note c = dictDelete_failure_status [OF w0 t0, of 5 False]
  have 1: "\<exists>d'. dictGenericDelete ex_stable 5 False = Some (DICT_ERR, d') \<and> dict_wf d' \<and>
         contents d' = contents ex_stable"
    using s [of 5, THEN conjunct2, THEN conjunct1, rule_format, OF conjI, OF n a] .
  have 2: "\<exists>d'. dictGenericDelete ex_stable 4 False = Some (DICT_OK, d')"
    using s [of 4, THEN conjunct2, THEN conjunct2, rule_format, OF p] .
  have 3: "dictGenericDelete (dictCreate nat_type :: (nat, nat) dict) 5 False
     = Some (DICT_ERR, dictCreate nat_type)"
    using c [THEN conjunct1, rule_format, OF z] .
  show ?thesis using w t n a 1 w0 t0 z 3 p 2 by (intro conjI)
qed

text \<open>
  C5 as stated fails: deletion from a table that was never allocated and deletion of an
  absent key from a table of four slots return the same value, \<^verbatim>\<open>DICT_ERR\<close>.
\<close>

theorem dictDelete_same_error_counterexample:
  "size_ht (ht0 (dictCreate nat_type :: (nat, nat) dict)) = 0 \<and>
   size_ht (ht0 ex_stable) = 4 \<and> \<not> key_present ex_stable 5 \<and>
   map_option fst (dictDelete (dictCreate nat_type :: (nat, nat) dict) 5) = Some DICT_ERR \<and>
   map_option fst (dictDelete ex_stable 5) = Some DICT_ERR"
  by code_simp

subsection \<open>C7: insertion of a key without a value\<close>



subsection \<open>C2: insertion, lookup and deletion\<close>

text \<open>
  C2. On a well-formed table with a lawful type descriptor, rehashing or not:
  \<^verbatim>\<open>dictAdd\<close> on a table of fewer than \<open>2 ^ 29\<close> entries returns, with \<^verbatim>\<open>DICT_OK\<close> exactly
  when the key was absent, and after a successful insertion \<^verbatim>\<open>dictFind\<close> of the key
  returns an entry whose key compares equal and whose value is the value inserted
  (\<^verbatim>\<open>dictFetchValue\<close> returns that value); \<^verbatim>\<open>dictDelete\<close> returns, with \<^verbatim>\<open>DICT_OK\<close> exactly
  when the key was present, and after a successful deletion \<^verbatim>\<open>dictFind\<close> of the key
  returns NULL.
\<close>

theorem add_find_delete_round_trip:
  assumes "dict_wf d" "type_ok (type d)"
  shows "(dictSize d < max_entries \<longrightarrow>
            (\<exists>st d1. dictAdd can_resize d k v = Some (st, d1) \<and>
               (st = DICT_OK \<longleftrightarrow> \<not> key_present d k) \<and>
               (st = DICT_OK \<longrightarrow>
                  (\<exists>e d2. dictFind d1 k = Some (Some e, d2) \<and> val e = Some v \<and>
                     dictCompareKeys d k (key e) \<and>
                     dictFetchValue d1 k = Some (Some v, d2))))) \<and>
         (\<exists>st d1. dictDelete d k = Some (st, d1) \<and>
            (st = DICT_OK \<longleftrightarrow> key_present d k) \<and>
            (st = DICT_OK \<longrightarrow> (\<exists>d2. dictFind d1 k = Some (None, d2))))"
proof (intro conjI impI)
  assume "dictSize d < max_entries"
  with assms(1) have sz: "size (contents d) < 2 ^ 29" by (rule wf_size_bound)
  from dictAdd_wf [OF assms sz, of can_resize k v] obtain st d1 where
    a: "dictAdd can_resize d k v = Some (st, d1)" "dict_wf d1" "type d1 = type d"
      "if key_present d k then st = DICT_ERR \<and> contents d1 = contents d
       else st = DICT_OK \<and> contents d1 = add_mset \<lparr>key = k, val = Some v\<rparr> (contents d)"
    by blast
  have iff: "st = DICT_OK \<longleftrightarrow> \<not> key_present d k" using a(4) by (auto split: if_splits)
  have found: "\<exists>e d2. dictFind d1 k = Some (Some e, d2) \<and> val e = Some v \<and>
                     dictCompareKeys d k (key e) \<and>
                     dictFetchValue d1 k = Some (Some v, d2)" if ok: "st = DICT_OK"
  proof -
    from ok iff have np: "\<not> key_present d k" by simp
    with a(4) have ct: "contents d1 = add_mset \<lparr>key = k, val = Some v\<rparr> (contents d)" by simp
    have ty1: "type_ok (type d1)" using assms(2) a(3) by simp
    have kk: "keyCompare (type d) k k" by (rule type_ok_refl [OF assms(2)])
    have p1: "key_present d1 k"
      unfolding key_present_iff ct a(3) using kk
      by (intro exI [of _ "\<lparr>key = k, val = Some v\<rparr>"]) simp
    from dictFind_wf [OF a(2) ty1, of k] obtain r d2 where
      f: "dictFind d1 k = Some (r, d2)"
        "case r of None \<Rightarrow> \<not> key_present d1 k
         | Some e \<Rightarrow> e \<in># contents d1 \<and> dictCompareKeys d1 k (key e)"
      by blast
    from f(2) p1 obtain e where e: "r = Some e" "e \<in># contents d1" "dictCompareKeys d1 k (key e)"
      by (cases r) auto
    have c: "keyCompare (type d) k (key e)" using e(3) by (simp add: dictCompareKeys_def a(3))
    have "e = \<lparr>key = k, val = Some v\<rparr>"
    proof (rule ccontr)
      assume "e \<noteq> \<lparr>key = k, val = Some v\<rparr>"
      with e(2) ct have "e \<in># contents d" by simp
      with c have "key_present d k" unfolding key_present_iff by blast
      with np show False by simp
    qed
    then have v: "val e = Some v" by simp
    have "dictFetchValue d1 k = Some (Some v, d2)"
      using f(1) e(1) v by (simp add: dictFetchValue_def)
    with f(1) e(1) v c show ?thesis by (simp add: dictCompareKeys_def)
  qed
  from a(1) iff found
  show "\<exists>st d1. dictAdd can_resize d k v = Some (st, d1) \<and>
               (st = DICT_OK \<longleftrightarrow> \<not> key_present d k) \<and>
               (st = DICT_OK \<longrightarrow>
                  (\<exists>e d2. dictFind d1 k = Some (Some e, d2) \<and> val e = Some v \<and>
                     dictCompareKeys d k (key e) \<and>
                     dictFetchValue d1 k = Some (Some v, d2)))"
    by blast
next
  from dictGenericDelete_wf [OF assms, of k False] obtain st d1 where
    a: "dictDelete d k = Some (st, d1)" "dict_wf d1" "type d1 = type d"
      "if key_present d k
       then st = DICT_OK \<and>
            (\<exists>e. dictCompareKeys d k (key e) \<and> contents d = add_mset e (contents d1))
       else st = DICT_ERR \<and> contents d1 = contents d"
    unfolding dictDelete_def by blast
  have iff: "st = DICT_OK \<longleftrightarrow> key_present d k" using a(4) by (auto split: if_splits)
  have gone: "\<exists>d2. dictFind d1 k = Some (None, d2)" if ok: "st = DICT_OK"
  proof -
    from ok iff a(4) obtain e where
      e: "dictCompareKeys d k (key e)" "contents d = add_mset e (contents d1)" by auto
    have ty1: "type_ok (type d1)" using assms(2) a(3) by simp
    note ku = keys_unique_contents [OF assms(1)]
    have m: "mset (entries (ht0 d) @ entries (ht1 d))
               = add_mset e (mset (entries (ht0 d1) @ entries (ht1 d1)))"
      using e(2) by (simp add: contents_def)
    have c: "keyCompare (type d) k (key e)" using e(1) by (simp add: dictCompareKeys_def)
    have np: "\<not> key_present d1 k"
    proof
      assume "key_present d1 k"
      then obtain e' where e': "e' \<in># contents d1" "keyCompare (type d) k (key e')"
        unfolding key_present_iff a(3) by blast
      from e'(1) have "e' \<in> set (entries (ht0 d1) @ entries (ht1 d1))"
        by (simp add: contents_def)
      from keys_unique_match_once [OF ku(1) assms(2) m c this] e'(2) show False by simp
    qed
    from dictFind_wf [OF a(2) ty1, of k] obtain r d2 where
      f: "dictFind d1 k = Some (r, d2)"
        "case r of None \<Rightarrow> \<not> key_present d1 k
         | Some e \<Rightarrow> e \<in># contents d1 \<and> dictCompareKeys d1 k (key e)"
      by blast
    have "r = None"
    proof (cases r)
      case (Some x)
      with f(2) have "x \<in># contents d1" "keyCompare (type d1) k (key x)"
        by (simp_all add: dictCompareKeys_def)
      then have "key_present d1 k" unfolding key_present_iff by blast
      with np show ?thesis by simp
    qed simp
    with f(1) show ?thesis by simp
  qed
  from a(1) iff gone
  show "\<exists>st d1. dictDelete d k = Some (st, d1) \<and>
            (st = DICT_OK \<longleftrightarrow> key_present d k) \<and>
            (st = DICT_OK \<longrightarrow> (\<exists>d2. dictFind d1 k = Some (None, d2)))"
    by blast
qed

theorem add_find_delete_round_trip_witness:
  "dict_wf ex_rehashing \<and> type_ok (type ex_rehashing) \<and> dictSize ex_rehashing < max_entries \<and>
   \<not> key_present ex_rehashing 9 \<and> key_present ex_rehashing 7 \<and>
   (\<exists>d1 e d2. dictAdd True ex_rehashing 9 90 = Some (DICT_OK, d1) \<and>
      dictFind d1 9 = Some (Some e, d2) \<and> val e = Some 90 \<and>
      dictFetchValue d1 9 = Some (Some 90, d2)) \<and>
   (\<exists>d1 d2. dictDelete ex_rehashing 7 = Some (DICT_OK, d1) \<and> dictFind d1 7 = Some (None, d2)) \<and>
   map_option (map_option val \<circ> fst) (dictFind (snd (the (dictAdd True ex_rehashing 9 90))) 9)
     = Some (Some (Some 90)) \<and>
   map_option fst (dictFind (snd (the (dictDelete ex_rehashing 7))) 7) = Some None"
proof -
  have w: "dict_wf ex_rehashing" by code_simp
  have t: "type_ok (type ex_rehashing)" using type_ok_nat_type by (simp add: ex_rehashing_def)
  have b: "dictSize ex_rehashing < max_entries" by code_simp
  have a: "\<not> key_present ex_rehashing 9" by code_simp
  have p: "key_present ex_rehashing 7" by code_simp
  note rt = add_find_delete_round_trip [OF w t]
  from rt [of True 9 90, THEN conjunct1, rule_format, OF b] a
  have 1: "\<exists>d1 e d2. dictAdd True ex_rehashing 9 90 = Some (DICT_OK, d1) \<and>
      dictFind d1 9 = Some (Some e, d2) \<and> val e = Some 90 \<and>
      dictFetchValue d1 9 = Some (Some 90, d2)"
    by blast
  from rt [of True 7 0, THEN conjunct2] p
  have 2: "\<exists>d1 d2. dictDelete ex_rehashing 7 = Some (DICT_OK, d1) \<and> dictFind d1 7 = Some (None, d2)"
    by blast
  have 3: "map_option (map_option val \<circ> fst) (dictFind (snd (the (dictAdd True ex_rehashing 9 90))) 9)
     = Some (Some (Some 90))" by code_simp
  have 4: "map_option fst (dictFind (snd (the (dictDelete ex_rehashing 7))) 7) = Some None"
    by code_simp
  show ?thesis using w t b a p 1 2 3 4 by (intro conjI)
qed

end
